(* ===== verification/Prelude.thy ===== *)
theory Prelude
  imports Main "HOL-Library.Word" "HOL-Library.Signed_Division"
begin

text \<open>
  What the components share: the C integer types and their conversions, the
  outcome of an operation that may leave the defined behaviour of C, the
  allocator, and the serial-number arithmetic behind \<open>_itimediff\<close> with the
  generic lemmas on words and lists the proofs use.
\<close>

unbundle bit_operations_syntax

section \<open>Integer types\<close>

text \<open>
  \<open>IUINT8\<close>, \<open>IUINT16\<close> and \<open>IUINT32\<close> are words of their width, so that
  arithmetic wraps as it does in C.  A signed C integer (\<open>int\<close>,
  \<open>IINT32\<close>, \<open>long\<close>) is an \<^typ>\<open>int\<close>; where the code stores a result in 32 bits the
  wrap is written out with \<open>s32\<close>.  The conversion of an unsigned 32-bit value to
  \<open>int\<close> is \<^const>\<open>sint\<close>, the other direction \<^const>\<open>word_of_int\<close>.
\<close>

type_synonym u8 = "8 word"
type_synonym u16 = "16 word"
type_synonym u32 = "32 word"

definition s32 :: "int \<Rightarrow> int" where
  "s32 x = (x + 2 ^ 31) mod 2 ^ 32 - 2 ^ 31"

lemma s32_bounds: "- (2 ^ 31) \<le> s32 x" "s32 x < 2 ^ 31"
  unfolding s32_def by (simp_all add: pos_mod_bound pos_mod_sign)

lemma s32_id: "- (2 ^ 31) \<le> x \<Longrightarrow> x < 2 ^ 31 \<Longrightarrow> s32 x = x"
  unfolding s32_def by simp

lemma s32_sint [simp]: "s32 (sint (w :: u32)) = sint w"
  using sint_greater_eq [of w] sint_less [of w] by (intro s32_id) simp_all

section \<open>Collections of facts\<close>

named_theorems field_defs \<open>definitions of operations that only set fields\<close>
named_theorems wf_rules \<open>an operation keeps the invariant of the control block\<close>
named_theorems frame_rules \<open>fields an operation leaves alone\<close>

section \<open>Outcomes\<close>

text \<open>
  An operation of the C code either returns or leaves the defined behaviour of
  the language (or aborts).  The second is a value of its own, so that a proof
  that it does not happen is a theorem about the code.
\<close>

datatype fault =
    Aborted            \<comment> \<open>\<open>abort()\<close>\<close>
  | Null_Deref         \<comment> \<open>a write through a null pointer, a call of a null callback\<close>
  | Out_Of_Bounds      \<comment> \<open>an access outside an allocated block\<close>
  | Division_By_Zero

type_synonym 'a outcome = "fault + 'a"

definition bindE :: "'a outcome \<Rightarrow> ('a \<Rightarrow> 'b outcome) \<Rightarrow> 'b outcome" where
  "bindE m f = (case m of Inl e \<Rightarrow> Inl e | Inr x \<Rightarrow> f x)"

lemma bindE_simps [simp]:
  "bindE (Inl e) f = Inl e"
  "bindE (Inr x) f = f x"
  by (simp_all add: bindE_def)

lemma bindE_Inr_iff: "bindE m f = Inr y \<longleftrightarrow> (\<exists>x. m = Inr x \<and> f x = Inr y)"
  by (cases m) auto

lemma bindE_InrE [elim!]:
  assumes "bindE m f = Inr y"
  obtains x where "m = Inr x" and "f x = Inr y"
  using assms by (auto simp: bindE_Inr_iff)

lemma bindE_cong [fundef_cong]:
  "m = m' \<Longrightarrow> (\<And>x. m' = Inr x \<Longrightarrow> f x = f' x) \<Longrightarrow> bindE m f = bindE m' f'"
  by (cases m') auto

lemma bindE_assoc: "bindE (bindE m f) g = bindE m (\<lambda>x. bindE (f x) g)"
  by (cases m) auto

text \<open>\<open>guardE\<close> continues when a memory access is within bounds.\<close>

definition guardE :: "bool \<Rightarrow> fault \<Rightarrow> 'a outcome \<Rightarrow> 'a outcome" where
  "guardE ok e m = (if ok then m else Inl e)"

lemma guardE_simps [simp]:
  "guardE True e m = m"
  "guardE False e m = Inl e"
  by (simp_all add: guardE_def)

lemma guardE_Inr_iff [simp]: "guardE ok e m = Inr x \<longleftrightarrow> ok \<and> m = Inr x"
  by (simp add: guardE_def)

section \<open>The allocator\<close>

text \<open>
  \<open>malloc\<close> and the functions a client may install (with \<open>ikcp_allocator\<close>, see \<open>Allocator\<close>) are
  not part of the repository: what they answer is a sequence of yes and no, consumed one per
  request.  The number of blocks obtained and not yet freed is counted, so that leaks
  are visible.  Fresh memory reads as zero in the model.
\<close>

record memory =
  answers :: "nat \<Rightarrow> bool"
  live :: int

definition ikcp_malloc :: "memory \<Rightarrow> bool \<times> memory" where
  "ikcp_malloc m =
     (answers m 0,
      \<lparr>answers = (\<lambda>n. answers m (Suc n)),
       live = (if answers m 0 then live m + 1 else live m)\<rparr>)"

definition ikcp_free :: "memory \<Rightarrow> memory" where
  "ikcp_free m = m\<lparr>live := live m - 1\<rparr>"

text \<open>The allocator after \<open>n\<close> blocks have been freed.\<close>

definition freed :: "nat \<Rightarrow> memory \<Rightarrow> memory" where
  "freed n m = m\<lparr>live := live m - int n\<rparr>"

lemma freed_simps [simp]:
  "freed 0 m = m"
  "freed n (ikcp_free m) = freed (Suc n) m"
  "live (freed n m) = live m - int n"
  "answers (freed n m) = answers m"
  by (simp_all add: freed_def ikcp_free_def)

definition plentiful :: "memory \<Rightarrow> bool" where
  "plentiful m \<longleftrightarrow> (\<forall>n. answers m n)"

lemma plentiful_malloc:
  "plentiful m \<Longrightarrow> ikcp_malloc m = (True, \<lparr>answers = answers m, live = live m + 1\<rparr>)"
  by (auto simp: plentiful_def ikcp_malloc_def)

lemma plentiful_simps [simp]:
  "plentiful (ikcp_free m) = plentiful m"
  "plentiful \<lparr>answers = a, live = l\<rparr> = (\<forall>n. a n)"
  "plentiful m \<Longrightarrow> plentiful (snd (ikcp_malloc m))"
  by (auto simp: plentiful_def ikcp_free_def ikcp_malloc_def)

lemma live_simps [simp]:
  "live (ikcp_free m) = live m - 1"
  "answers (ikcp_free m) = answers m"
  "live (snd (ikcp_malloc m)) = (if fst (ikcp_malloc m) then live m + 1 else live m)"
  by (simp_all add: ikcp_free_def ikcp_malloc_def)

section \<open>Serial numbers\<close>

text \<open>\<open>ikcp.c: _imin_, _imax_, _ibound_, _itimediff\<close>\<close>

definition imin :: "u32 \<Rightarrow> u32 \<Rightarrow> u32" where
  "imin a b = (if a \<le> b then a else b)"

definition imax :: "u32 \<Rightarrow> u32 \<Rightarrow> u32" where
  "imax a b = (if a \<ge> b then a else b)"

definition ibound :: "u32 \<Rightarrow> u32 \<Rightarrow> u32 \<Rightarrow> u32" where
  "ibound lower middle upper = imin (imax lower middle) upper"

definition itimediff :: "u32 \<Rightarrow> u32 \<Rightarrow> int" where
  "itimediff later earlier = sint (later - earlier)"


lemma wrap_cases:
  fixes x :: int
  assumes "0 \<le> x" "x < 4294967296"
  shows "(x + 2147483648) mod 4294967296 - 2147483648 = (if x < 2147483648 then x else x - 4294967296)"
proof (cases "x < 2147483648")
  case False
  have "(x + 2147483648) mod 4294967296 = (x - 2147483648 + 4294967296) mod 4294967296"
    by (simp add: algebra_simps)
  also have "\<dots> = (x - 2147483648) mod 4294967296" by (rule mod_add_self2)
  also have "\<dots> = x - 2147483648" using False assms by (intro mod_pos_pos_trivial) auto
  finally show ?thesis using False by simp
qed (use assms in simp)

lemma sint_uint_cases: "sint (w::32 word) = (if uint w < 2147483648 then uint w else uint w - 4294967296)"
proof -
  have "sint w = (uint w + 2147483648) mod 4294967296 - 2147483648"
    by (simp add: sint_uint signed_take_bit_eq_take_bit_shift take_bit_eq_mod)
  then show ?thesis using wrap_cases [of "uint w"] uint_ge_0 [of w] uint_lt2p [of w] by simp
qed
lemma uint32_less: "uint (w::32 word) < 4294967296"
  using uint_ge_0 [of w] uint_lt2p [of w] by simp
lemma unat32_less: "unat (w::32 word) < 4294967296"
  using unsigned_less[of w, where 'a=nat] by simp
lemma itimediff_unat: "itimediff a b = (if unat (a - b) < 2147483648 then int (unat (a - b)) else int (unat (a - b)) - 4294967296)"
proof -
  have "int (unat (a - b)) = uint (a - b)" by simp
  then have "unat (a - b) < 2147483648 \<longleftrightarrow> uint (a - b) < 2147483648" by linarith
  then show ?thesis by (simp add: itimediff_def sint_uint_cases)
qed

lemma itimediff_lt0: "itimediff a b < 0 \<longleftrightarrow> 2147483648 \<le> unat (a - b)"
proof (cases "unat (a - b) < 2147483648")
  case False
  then have "int (unat (a - b)) < 4294967296" using unat32_less[of "a - b"] by linarith
  then have "itimediff a b < 0" using False unfolding itimediff_unat by (simp del: of_nat_unat)
  then show ?thesis using False by simp
qed (simp add: itimediff_unat)
lemma itimediff_nonneg: "unat (a - b) < 2147483648 \<Longrightarrow> itimediff a b = int (unat (a - b))"
  by (simp add: itimediff_unat)
lemma itimediff_gt0: "0 < itimediff a b \<longleftrightarrow> a \<noteq> b \<and> unat (a - b) < 2147483648"
proof -
  have "a \<noteq> b \<longleftrightarrow> unat (a - b) > 0" by (simp add: unat_gt_0)
  then show ?thesis using unat32_less[of "a - b"] unfolding itimediff_unat by (auto simp del: of_nat_unat unat_gt_0)
qed
lemma sint_small: "unat w < 2147483648 \<Longrightarrow> sint (w :: u32) = int (unat w)"
  using itimediff_nonneg [of w 0] by (simp add: itimediff_def)

lemma unat_minus_swap: "b \<noteq> a \<Longrightarrow> unat (b - a :: 32 word) = 4294967296 - unat (a - b)"
proof -
  assume "b \<noteq> a"
  then have "a - b \<noteq> 0" by simp
  then have "unat (0 - (a - b)) = 2 ^ 32 - unat (a - b)"
    by (subst unat_sub_if_size) (simp add: word_size unat_eq_0 del: minus_diff_eq)
  then show ?thesis by simp
qed

lemma s32_word: "s32 x = sint (word_of_int x :: u32)"
proof -
  have "uint (word_of_int x :: u32) = x mod 4294967296"
    by (simp add: uint_word_of_int)
  then have "sint (word_of_int x :: u32) = (x mod 4294967296 + 2147483648) mod 4294967296 - 2147483648"
    using wrap_cases [of "x mod 4294967296"] by (simp add: sint_uint_cases)
  then show ?thesis by (simp add: s32_def mod_add_left_eq)
qed

lemma offset_step: "x \<noteq> r \<Longrightarrow> unat (x - (r + 1)) = unat (x - r :: u32) - 1"
proof -
  assume "x \<noteq> r"
  then have "x - r \<noteq> 0" by simp
  then have "unat (x - r - 1) = unat (x - r) - 1" by (metis unat_minus_one)
  then show ?thesis by (simp add: algebra_simps)
qed

lemma offset_diff:
  "unat (y - r :: u32) \<le> unat (x - r) \<Longrightarrow> unat (x - y) = unat (x - r) - unat (y - r)"
proof -
  assume a: "unat (y - r) \<le> unat (x - r)"
  have "x - y = (x - r) - (y - r)" by simp
  then show ?thesis using a by (simp only: unat_sub word_le_nat_alt)
qed

lemma offset_inj: "unat (x - r :: u32) = unat (y - r) \<longleftrightarrow> x = y"
  by (metis diff_add_cancel word_unat_eq_iff)

text \<open>
  Of two serial numbers within \<open>2^31\<close> after a common base the difference has
  the sign of their order.
\<close>

lemma itimediff_offsets:
  assumes "unat (x - r) < 2147483648" and "unat (y - r) < 2147483648"
  shows "0 < itimediff x y \<longleftrightarrow> unat (y - r) < unat (x - r)"
proof (cases "unat (y - r) \<le> unat (x - r)")
  case True
  then have d: "unat (x - y) = unat (x - r) - unat (y - r)" by (rule offset_diff)
  have "x = y \<longleftrightarrow> unat (x - r) = unat (y - r)" by (simp only: offset_inj)
  then show ?thesis using True d assms by (auto simp: itimediff_gt0)
next
  case False
  then have d: "unat (y - x) = unat (y - r) - unat (x - r)" by (intro offset_diff) simp
  have "x \<noteq> y" using False by auto
  then have "unat (x - y) = 4294967296 - unat (y - x)" by (rule unat_minus_swap)
  then have "\<not> unat (x - y) < 2147483648" using False d assms by linarith
  then show ?thesis using False by (simp add: itimediff_gt0)
qed

lemma unat_of_nat32: "n < 4294967296 \<Longrightarrow> unat (of_nat n :: u32) = n"
  by (simp add: unsigned_of_nat take_bit_eq_mod)

lemma unat_add32: "unat a + unat b < 4294967296 \<Longrightarrow> unat (a + b :: u32) = unat a + unat b"
  by (simp add: unat_plus_if')

lemma unat_pred32: "a \<noteq> 0 \<Longrightarrow> unat (a - 1 :: u32) = unat a - 1"
  by (metis unat_minus_one)

end
