(* ===== verification/Codec.thy ===== *)
theory Codec
  imports Prelude
begin

text \<open>
  The wire format (\<open>ikcp.c: ikcp_encode8u \<dots> ikcp_decode32u\<close>).  A pointer into a
  buffer that is being written is the list of bytes written so far; a pointer into a
  datagram that is being read is the list of bytes left, and reading past the end is
  \<^const>\<open>None\<close>.  The sources have two variants of the 16- and 32-bit functions, one that
  moves single bytes (\<open>IWORDS_BIG_ENDIAN\<close>) and one that stores the machine word; both are
  modelled, and shown to agree.
\<close>

section \<open>Encoders and decoders\<close>

definition ikcp_encode8u :: "u8 list \<Rightarrow> u8 \<Rightarrow> u8 list" where
  "ikcp_encode8u p c = p @ [c]"

fun ikcp_decode8u :: "u8 list \<Rightarrow> (u8 \<times> u8 list) option" where
  "ikcp_decode8u (b # p) = Some (b, p)"
| "ikcp_decode8u _ = None"

definition ikcp_encode16u :: "u8 list \<Rightarrow> u16 \<Rightarrow> u8 list" where
  "ikcp_encode16u p w = p @ [ucast (w AND 255), ucast (drop_bit 8 w)]"

fun ikcp_decode16u :: "u8 list \<Rightarrow> (u16 \<times> u8 list) option" where
  "ikcp_decode16u (b0 # b1 # p) =
     (let w = ucast b1 :: u16; w = ucast b0 + push_bit 8 w in Some (w, p))"
| "ikcp_decode16u _ = None"

definition ikcp_encode32u :: "u8 list \<Rightarrow> u32 \<Rightarrow> u8 list" where
  "ikcp_encode32u p l = p @
     [ucast (l AND 0xff), ucast (drop_bit 8 l AND 0xff),
      ucast (drop_bit 16 l AND 0xff), ucast (drop_bit 24 l AND 0xff)]"

fun ikcp_decode32u :: "u8 list \<Rightarrow> (u32 \<times> u8 list) option" where
  "ikcp_decode32u (b0 # b1 # b2 # b3 # p) =
     (let l = ucast b3 :: u32;
          l = ucast b2 + push_bit 8 l;
          l = ucast b1 + push_bit 8 l;
          l = ucast b0 + push_bit 8 l
      in Some (l, p))"
| "ikcp_decode32u _ = None"

text \<open>
  The other variant: the store of a machine word on a little-endian machine puts byte
  \<open>i\<close> of the value at address \<open>i\<close>, the load reads it back.
\<close>

definition store_word :: "nat \<Rightarrow> nat \<Rightarrow> u8 list" where
  "store_word n v = map (\<lambda>i. of_nat (v div 256 ^ i)) [0..<n]"

fun load_word :: "u8 list \<Rightarrow> nat" where
  "load_word [] = 0"
| "load_word (b # bs) = unat b + 256 * load_word bs"

definition ikcp_encode16u_le :: "u8 list \<Rightarrow> u16 \<Rightarrow> u8 list" where
  "ikcp_encode16u_le p w = p @ store_word 2 (unat w)"

definition ikcp_encode32u_le :: "u8 list \<Rightarrow> u32 \<Rightarrow> u8 list" where
  "ikcp_encode32u_le p l = p @ store_word 4 (unat l)"

definition ikcp_decode16u_le :: "u8 list \<Rightarrow> (u16 \<times> u8 list) option" where
  "ikcp_decode16u_le p =
     (if length p < 2 then None else Some (of_nat (load_word (take 2 p)), drop 2 p))"

definition ikcp_decode32u_le :: "u8 list \<Rightarrow> (u32 \<times> u8 list) option" where
  "ikcp_decode32u_le p =
     (if length p < 4 then None else Some (of_nat (load_word (take 4 p)), drop 4 p))"

section \<open>Bytes as numbers\<close>

lemma byte_wide: "ucast (b :: u8) = (of_nat (unat b) :: 'a::len word)"
  by simp

lemma low_byte: "ucast (x AND 0xff) = (ucast x :: u8)"
  for x :: "'a::len word"
proof -
  have m: "(0xff :: 'a word) = mask 8" by (simp add: mask_eq_exp_minus_1)
  show ?thesis unfolding m take_bit_eq_mask [symmetric]
    by (rule bit_word_eqI) (auto simp: bit_ucast_iff bit_take_bit_iff bit_imp_le_length)
qed

lemma ucast_of_nat_unat: "(ucast (x :: 'a::len word) :: u8) = of_nat (unat x)"
  by simp

lemma byte_of_word: "ucast (drop_bit k l) = (of_nat (unat l div 2 ^ k) :: u8)"
  for l :: "'a::len word"
proof -
  have "unat (drop_bit k l) = unat l div 2 ^ k"
    by (rule trans [OF unat_drop_bit_eq]) (rule drop_bit_eq_div)
  then show ?thesis by (simp only: ucast_of_nat_unat)
qed

lemma encode16u_bytes: "ikcp_encode16u p w = p @ [of_nat (unat w), of_nat (unat w div 256)]"
  unfolding ikcp_encode16u_def low_byte byte_of_word by simp

lemma encode32u_bytes: "ikcp_encode32u p l = p @
    [of_nat (unat l), of_nat (unat l div 256),
     of_nat (unat l div 65536), of_nat (unat l div 16777216)]"
  unfolding ikcp_encode32u_def low_byte byte_of_word by simp

lemma encode16u_agree: "ikcp_encode16u p w = ikcp_encode16u_le p w"
  by (simp add: encode16u_bytes ikcp_encode16u_le_def store_word_def numeral_2_eq_2 del: of_nat_unat)

lemma encode32u_agree: "ikcp_encode32u p l = ikcp_encode32u_le p l"
proof -
  have "[0..<4] = [0, 1, 2, 3 :: nat]" by (simp add: upt_rec)
  then show ?thesis
    by (simp add: encode32u_bytes ikcp_encode32u_le_def store_word_def del: of_nat_unat)
qed

text \<open>A shift by eight and an addition is one Horner step.\<close>

lemma horner_step: "of_nat a + push_bit 8 (of_nat b) = (of_nat (a + 256 * b) :: 'a::len word)"
  by (simp add: push_bit_eq_mult)

lemma decode16u_bytes:
  "ikcp_decode16u (b0 # b1 # p) = Some (of_nat (load_word [b0, b1]), p)"
  unfolding ikcp_decode16u.simps Let_def byte_wide horner_step by simp

lemma decode32u_bytes:
  "ikcp_decode32u (b0 # b1 # b2 # b3 # p) = Some (of_nat (load_word [b0, b1, b2, b3]), p)"
  unfolding ikcp_decode32u.simps Let_def byte_wide horner_step by simp

lemma split2: "\<not> length p < 2 \<Longrightarrow> \<exists>b0 b1 q. p = b0 # b1 # q"
  by (cases p; cases "tl p") auto

lemma split4: "\<not> length p < 4 \<Longrightarrow> \<exists>b0 b1 b2 b3 q. p = b0 # b1 # b2 # b3 # q"
  using split2 [of p] split2 [of "drop 2 p"] by fastforce

lemma decode16u_agree: "ikcp_decode16u p = ikcp_decode16u_le p"
proof (cases "length p < 2")
  case True
  then show ?thesis by (cases p; cases "tl p") (auto simp: ikcp_decode16u_le_def)
next
  case False
  then show ?thesis using split2 [OF False] decode16u_bytes
    by (auto simp: ikcp_decode16u_le_def simp del: ikcp_decode16u.simps)
qed

lemma decode32u_agree: "ikcp_decode32u p = ikcp_decode32u_le p"
proof (cases "length p < 4")
  case True
  then have "ikcp_decode32u p = None" by (cases p rule: ikcp_decode32u.cases) auto
  then show ?thesis using True by (simp add: ikcp_decode32u_le_def)
next
  case False
  then obtain b0 b1 b2 b3 q where p: "p = b0 # b1 # b2 # b3 # q" using split4 by blast
  then have "take 4 p = [b0, b1, b2, b3]" and "drop 4 p = q" by simp_all
  then show ?thesis using False decode32u_bytes [of b0 b1 b2 b3 q]
    unfolding ikcp_decode32u_le_def by (simp only: p if_False)
qed

text \<open>
  C32: the variants of the codecs for machines of either byte order agree: storing and loading byte
  by byte (\<open>IWORDS_BIG_ENDIAN\<close>, \<open>IWORDS_MUST_ALIGN\<close>) and copying the word as it lies in the memory of
  a little-endian machine give the same bytes, the same number and the same rest, also when bytes
  are missing.
\<close>

theorem codec_variants_agree:
  "ikcp_encode16u p w = ikcp_encode16u_le p w \<and> ikcp_decode16u p = ikcp_decode16u_le p \<and>
   ikcp_encode32u p l = ikcp_encode32u_le p l \<and> ikcp_decode32u p = ikcp_decode32u_le p"
  by (simp only: encode16u_agree decode16u_agree encode32u_agree decode32u_agree simp_thms)

lemma store_word_Suc: "store_word (Suc n) v = of_nat v # store_word n (v div 256)"
  unfolding store_word_def
  by (simp add: upt_conv_Cons map_Suc_upt [symmetric] div_mult2_eq del: upt_Suc)

lemma load_store: "load_word (store_word n v) = v mod 256 ^ n"
proof (induction n arbitrary: v)
  case (Suc n)
  then show ?case
    by (simp add: store_word_Suc unsigned_of_nat take_bit_eq_mod mod_mult2_eq)
qed (simp add: store_word_def)

lemma store_load: "length bs = n \<Longrightarrow> store_word n (load_word bs) = bs"
proof (induction bs arbitrary: n)
  case (Cons b bs)
  have "unat b < 256" using unsigned_less [of b, where 'a = nat] by simp
  moreover have "of_nat (unat b + 256 * k) = b" for k
  proof -
    have "of_nat (256 * k) = (0 :: u8)"
      by (simp add: word_of_nat_eq_0_iff del: of_nat_mult)
    then show ?thesis by (simp only: of_nat_add of_nat_unat add_0_right ucast_id)
  qed
  ultimately show ?case using Cons by (auto simp: store_word_Suc simp del: of_nat_add)
qed (simp add: store_word_def)

section \<open>The contract of an encoder and its decoder\<close>

text \<open>
  What \<open>ikcp_encode_seg\<close> and \<open>ikcp_input\<close> rely on: an encoder appends a fixed number of
  bytes, its decoder takes as many from the front, and the two are inverse to each other.
\<close>

locale codec =
  fixes enc :: "u8 list \<Rightarrow> 'a \<Rightarrow> u8 list"
    and dec :: "u8 list \<Rightarrow> ('a \<times> u8 list) option"
    and width :: nat
  assumes enc_append: "enc p x = p @ enc [] x"
    and enc_length: "length (enc [] x) = width"
    and dec_enc: "dec (enc [] x @ rest) = Some (x, rest)"
    and dec_None_iff: "dec bs = None \<longleftrightarrow> length bs < width"
    and enc_dec: "dec bs = Some (x, rest) \<Longrightarrow> bs = enc [] x @ rest"
begin

lemma length_enc: "length (enc p x) = length p + width"
  by (subst enc_append) (simp add: enc_length)

lemma dec_Some_length: "dec bs = Some (x, rest) \<Longrightarrow> length bs = width + length rest"
  using enc_dec enc_length by fastforce

lemma enc_inject: "enc [] x @ r = enc [] y @ s \<longleftrightarrow> x = y \<and> r = s"
  by (metis dec_enc option.inject prod.inject)

lemma dec_more:
  "width \<le> length bs \<Longrightarrow> \<exists>x rest. dec bs = Some (x, rest) \<and> length bs = width + length rest"
  using dec_None_iff [of bs] dec_Some_length by (cases "dec bs") auto

end

interpretation c8: codec ikcp_encode8u ikcp_decode8u 1
proof unfold_locales
  fix bs rest :: "u8 list" and x :: u8
  show "ikcp_decode8u bs = None \<longleftrightarrow> length bs < 1" by (cases bs) auto
  show "ikcp_decode8u bs = Some (x, rest) \<Longrightarrow> bs = ikcp_encode8u [] x @ rest"
    by (cases bs) (auto simp: ikcp_encode8u_def)
qed (auto simp: ikcp_encode8u_def)

interpretation c16: codec ikcp_encode16u ikcp_decode16u 2
proof unfold_locales
  fix p bs rest :: "u8 list" and x :: u16
  have sw: "length (store_word 2 v) = 2" for v by (simp add: store_word_def)
  show "ikcp_encode16u p x = p @ ikcp_encode16u [] x"
    by (simp add: ikcp_encode16u_def)
  show "length (ikcp_encode16u [] x) = 2" by (simp add: ikcp_encode16u_def)
  show "ikcp_decode16u (ikcp_encode16u [] x @ rest) = Some (x, rest)"
    using unsigned_less [of x, where 'a = nat]
    by (simp add: encode16u_agree decode16u_agree ikcp_encode16u_le_def ikcp_decode16u_le_def
        sw load_store)
  show "ikcp_decode16u bs = None \<longleftrightarrow> length bs < 2"
    by (simp add: decode16u_agree ikcp_decode16u_le_def)
  show "ikcp_decode16u bs = Some (x, rest) \<Longrightarrow> bs = ikcp_encode16u [] x @ rest"
  proof -
    assume d: "ikcp_decode16u bs = Some (x, rest)"
    then have bs: "2 \<le> length bs" "x = of_nat (load_word (take 2 bs))" "rest = drop 2 bs"
      by (auto simp: decode16u_agree ikcp_decode16u_le_def split: if_splits)
    have "unat x = load_word (take 2 bs)"
      using load_store [of 2 "load_word (take 2 bs)"] store_load [of "take 2 bs" 2] bs
      by (simp add: unsigned_of_nat take_bit_eq_mod)
    then show ?thesis using bs store_load [of "take 2 bs" 2]
      by (simp add: encode16u_agree ikcp_encode16u_le_def)
  qed
qed

interpretation c32: codec ikcp_encode32u ikcp_decode32u 4
proof unfold_locales
  fix p bs rest :: "u8 list" and x :: u32
  have sw: "length (store_word 4 v) = 4" for v by (simp add: store_word_def)
  show "ikcp_encode32u p x = p @ ikcp_encode32u [] x"
    by (simp add: ikcp_encode32u_def)
  show "length (ikcp_encode32u [] x) = 4" by (simp add: ikcp_encode32u_def)
  show "ikcp_decode32u (ikcp_encode32u [] x @ rest) = Some (x, rest)"
    using unat32_less [of x]
    by (simp add: encode32u_agree decode32u_agree ikcp_encode32u_le_def ikcp_decode32u_le_def
        sw load_store)
  show "ikcp_decode32u bs = None \<longleftrightarrow> length bs < 4"
    by (simp add: decode32u_agree ikcp_decode32u_le_def)
  show "ikcp_decode32u bs = Some (x, rest) \<Longrightarrow> bs = ikcp_encode32u [] x @ rest"
  proof -
    assume d: "ikcp_decode32u bs = Some (x, rest)"
    then have bs: "4 \<le> length bs" "x = of_nat (load_word (take 4 bs))" "rest = drop 4 bs"
      by (auto simp: decode32u_agree ikcp_decode32u_le_def split: if_splits)
    have "unat x = load_word (take 4 bs)"
      using load_store [of 4 "load_word (take 4 bs)"] store_load [of "take 4 bs" 4] bs
      by (simp add: unsigned_of_nat take_bit_eq_mod)
    then show ?thesis using bs store_load [of "take 4 bs" 4]
      by (simp add: encode32u_agree ikcp_encode32u_le_def)
  qed
qed

end
