(* ===== verification/Segment.thy ===== *)
theory Segment
  imports Codec
begin

text \<open>
  Segments (\<open>ikcp.h: struct IKCPSEG\<close>) and their 24-byte header on the wire
  (\<open>ikcp.c: ikcp_encode_seg\<close> and the decoding part of \<open>ikcp_input\<close>).
\<close>

section \<open>Protocol constants\<close>

text \<open>\<open>ikcp.c\<close>, "KCP BASIC"\<close>

abbreviation (input) IKCP_RTO_NDL :: u32 where "IKCP_RTO_NDL \<equiv> 30"
abbreviation (input) IKCP_RTO_MIN :: u32 where "IKCP_RTO_MIN \<equiv> 100"
abbreviation (input) IKCP_RTO_DEF :: u32 where "IKCP_RTO_DEF \<equiv> 200"
abbreviation (input) IKCP_RTO_MAX :: u32 where "IKCP_RTO_MAX \<equiv> 60000"
abbreviation (input) IKCP_CMD_PUSH :: u32 where "IKCP_CMD_PUSH \<equiv> 81"
abbreviation (input) IKCP_CMD_ACK :: u32 where "IKCP_CMD_ACK \<equiv> 82"
abbreviation (input) IKCP_CMD_WASK :: u32 where "IKCP_CMD_WASK \<equiv> 83"
abbreviation (input) IKCP_CMD_WINS :: u32 where "IKCP_CMD_WINS \<equiv> 84"
abbreviation (input) IKCP_ASK_SEND :: u32 where "IKCP_ASK_SEND \<equiv> 1"
abbreviation (input) IKCP_ASK_TELL :: u32 where "IKCP_ASK_TELL \<equiv> 2"
abbreviation (input) IKCP_WND_SND :: u32 where "IKCP_WND_SND \<equiv> 32"
abbreviation (input) IKCP_WND_RCV :: u32 where "IKCP_WND_RCV \<equiv> 32"
abbreviation (input) IKCP_MTU_DEF :: u32 where "IKCP_MTU_DEF \<equiv> 1400"
abbreviation (input) IKCP_INTERVAL :: u32 where "IKCP_INTERVAL \<equiv> 100"
abbreviation (input) IKCP_OVERHEAD :: u32 where "IKCP_OVERHEAD \<equiv> 24"
abbreviation (input) IKCP_DEADLINK :: u32 where "IKCP_DEADLINK \<equiv> 10"
abbreviation (input) IKCP_THRESH_INIT :: u32 where "IKCP_THRESH_INIT \<equiv> 2"
abbreviation (input) IKCP_THRESH_MIN :: u32 where "IKCP_THRESH_MIN \<equiv> 2"
abbreviation (input) IKCP_PROBE_INIT :: u32 where "IKCP_PROBE_INIT \<equiv> 7000"
abbreviation (input) IKCP_PROBE_LIMIT :: u32 where "IKCP_PROBE_LIMIT \<equiv> 120000"

section \<open>The segment\<close>

text \<open>
  The link fields (\<open>node\<close>) are the position of the segment in a queue, which the model
  keeps as a list; \<open>seg_data\<close> is the block behind the header (\<open>data[1]\<close> and the bytes
  allocated with it), \<open>seg_len\<close> the length field.
\<close>

record ikcpseg =
  seg_conv :: u32
  seg_cmd :: u32
  seg_frg :: u32
  seg_wnd :: u32
  seg_ts :: u32
  seg_sn :: u32
  seg_una :: u32
  seg_len :: u32
  seg_resendts :: u32
  seg_rto :: u32
  seg_fastack :: u32
  seg_xmit :: u32
  seg_data :: "u8 list"

text \<open>\<open>ikcp_segment_new\<close>: a block of fresh memory with room for \<open>size\<close> bytes of data\<close>

definition fresh_segment :: "nat \<Rightarrow> ikcpseg" where
  "fresh_segment n =
     \<lparr>seg_conv = 0, seg_cmd = 0, seg_frg = 0, seg_wnd = 0, seg_ts = 0, seg_sn = 0,
      seg_una = 0, seg_len = 0, seg_resendts = 0, seg_rto = 0, seg_fastack = 0,
      seg_xmit = 0, seg_data = replicate n 0\<rparr>"

definition ikcp_segment_new :: "memory \<Rightarrow> nat \<Rightarrow> ikcpseg option \<times> memory" where
  "ikcp_segment_new m n =
     (let (ok, m) = ikcp_malloc m in (if ok then Some (fresh_segment n) else None, m))"

definition ikcp_segment_delete :: "memory \<Rightarrow> memory" where
  "ikcp_segment_delete m = ikcp_free m"

text \<open>The bytes a \<open>memcpy\<close> of \<open>seg->len\<close> bytes out of the segment reads.\<close>

definition seg_bytes :: "ikcpseg \<Rightarrow> u8 list" where
  "seg_bytes seg = take (unat (seg_len seg)) (seg_data seg)"

definition seg_sound :: "ikcpseg \<Rightarrow> bool" where
  "seg_sound seg \<longleftrightarrow> unat (seg_len seg) = length (seg_data seg)"

lemma seg_sound_bytes [simp]: "seg_sound seg \<Longrightarrow> seg_bytes seg = seg_data seg"
  by (simp add: seg_sound_def seg_bytes_def)

section \<open>The header on the wire\<close>

definition ikcp_encode_seg :: "u8 list \<Rightarrow> ikcpseg \<Rightarrow> u8 list" where
  "ikcp_encode_seg ptr seg =
     (let ptr = ikcp_encode32u ptr (seg_conv seg);
          ptr = ikcp_encode8u ptr (ucast (seg_cmd seg));
          ptr = ikcp_encode8u ptr (ucast (seg_frg seg));
          ptr = ikcp_encode16u ptr (ucast (seg_wnd seg));
          ptr = ikcp_encode32u ptr (seg_ts seg);
          ptr = ikcp_encode32u ptr (seg_sn seg);
          ptr = ikcp_encode32u ptr (seg_una seg);
          ptr = ikcp_encode32u ptr (seg_len seg)
      in ptr)"

text \<open>The local variables \<open>ikcp_input\<close> decodes a header into.\<close>

record header =
  h_conv :: u32
  h_cmd :: u8
  h_frg :: u8
  h_wnd :: u16
  h_ts :: u32
  h_sn :: u32
  h_una :: u32
  h_len :: u32

definition decode_header :: "u8 list \<Rightarrow> (header \<times> u8 list) option" where
  "decode_header data =
     Option.bind (ikcp_decode32u data) (\<lambda>(conv, data).
     Option.bind (ikcp_decode8u data) (\<lambda>(cmd, data).
     Option.bind (ikcp_decode8u data) (\<lambda>(frg, data).
     Option.bind (ikcp_decode16u data) (\<lambda>(wnd, data).
     Option.bind (ikcp_decode32u data) (\<lambda>(ts, data).
     Option.bind (ikcp_decode32u data) (\<lambda>(sn, data).
     Option.bind (ikcp_decode32u data) (\<lambda>(una, data).
     Option.bind (ikcp_decode32u data) (\<lambda>(len, data).
       Some (\<lparr>h_conv = conv, h_cmd = cmd, h_frg = frg, h_wnd = wnd, h_ts = ts, h_sn = sn,
              h_una = una, h_len = len\<rparr>, data)))))))))"

text \<open>The fields of a segment as they go on the wire, truncated to their width.\<close>

definition header_of :: "ikcpseg \<Rightarrow> header" where
  "header_of seg =
     \<lparr>h_conv = seg_conv seg, h_cmd = ucast (seg_cmd seg), h_frg = ucast (seg_frg seg),
      h_wnd = ucast (seg_wnd seg), h_ts = seg_ts seg, h_sn = seg_sn seg,
      h_una = seg_una seg, h_len = seg_len seg\<rparr>"

definition encode_header :: "u8 list \<Rightarrow> header \<Rightarrow> u8 list" where
  "encode_header p h =
     p @ ikcp_encode32u [] (h_conv h) @ ikcp_encode8u [] (h_cmd h) @
       ikcp_encode8u [] (h_frg h) @ ikcp_encode16u [] (h_wnd h) @
       ikcp_encode32u [] (h_ts h) @ ikcp_encode32u [] (h_sn h) @
       ikcp_encode32u [] (h_una h) @ ikcp_encode32u [] (h_len h)"

lemma encode_seg_header: "ikcp_encode_seg p seg = encode_header p (header_of seg)"
proof -
  note ea = c8.enc_append c16.enc_append c32.enc_append
  show ?thesis
    unfolding ikcp_encode_seg_def encode_header_def header_of_def Let_def
    by (simp add: ea [of "_ @ _"] ea [of p])
qed

lemma enc_dec_header:
  assumes "decode_header bs = Some (x, rest)"
  shows "bs = encode_header [] x @ rest"
  using assms unfolding decode_header_def encode_header_def
  by (auto simp: Option.bind_eq_Some_conv dest!: c8.enc_dec c16.enc_dec c32.enc_dec)

lemma decode_header_total:
  assumes "24 \<le> length bs"
  shows "decode_header bs \<noteq> None"
proof -
  from assms obtain conv d1 where 1: "ikcp_decode32u bs = Some (conv, d1)" "20 \<le> length d1"
    using c32.dec_more [of bs] by auto
  then obtain cmd d2 where 2: "ikcp_decode8u d1 = Some (cmd, d2)" "19 \<le> length d2"
    using c8.dec_more [of d1] by auto
  then obtain frg d3 where 3: "ikcp_decode8u d2 = Some (frg, d3)" "18 \<le> length d3"
    using c8.dec_more [of d2] by auto
  then obtain wnd d4 where 4: "ikcp_decode16u d3 = Some (wnd, d4)" "16 \<le> length d4"
    using c16.dec_more [of d3] by auto
  then obtain ts d5 where 5: "ikcp_decode32u d4 = Some (ts, d5)" "12 \<le> length d5"
    using c32.dec_more [of d4] by auto
  then obtain sn d6 where 6: "ikcp_decode32u d5 = Some (sn, d6)" "8 \<le> length d6"
    using c32.dec_more [of d5] by auto
  then obtain una d7 where 7: "ikcp_decode32u d6 = Some (una, d7)" "4 \<le> length d7"
    using c32.dec_more [of d6] by auto
  then obtain ln d8 where 8: "ikcp_decode32u d7 = Some (ln, d8)"
    using c32.dec_more [of d7] by auto
  show ?thesis
    unfolding decode_header_def using 1 2 3 4 5 6 7 8 by simp
qed

interpretation hdr: codec encode_header decode_header 24
proof unfold_locales
  fix p bs rest :: "u8 list" and x :: header
  show "encode_header p x = p @ encode_header [] x"
    by (simp add: encode_header_def)
  show l: "length (encode_header [] x) = 24" for x
    by (simp add: encode_header_def c8.enc_length c16.enc_length c32.enc_length)
  show "decode_header (encode_header [] x @ rest) = Some (x, rest)"
    by (simp add: encode_header_def decode_header_def c8.dec_enc c16.dec_enc c32.dec_enc)
  show "decode_header bs = Some (x, rest) \<Longrightarrow> bs = encode_header [] x @ rest"
    by (rule enc_dec_header)
  show "decode_header bs = None \<longleftrightarrow> length bs < 24"
    using decode_header_total [of bs] enc_dec_header [of bs] l
    by (cases "decode_header bs") fastforce+
qed

lemma length_encode_seg: "length (ikcp_encode_seg p seg) = length p + 24"
  by (simp add: encode_seg_header hdr.length_enc)

lemma encode_seg_append: "ikcp_encode_seg p seg = p @ ikcp_encode_seg [] seg"
  by (simp add: encode_seg_header hdr.enc_append [of p])

text \<open>
  What \<open>ikcp_encode_seg\<close> writes for a segment, \<open>ikcp_input\<close> reads back: the header
  fields (the command, the fragment number and the window truncated to 8, 8 and 16 bits)
  and the position behind the header.
\<close>

theorem header_roundtrip:
  "decode_header (ikcp_encode_seg [] seg @ rest) = Some (header_of seg, rest)"
  by (simp add: encode_seg_header hdr.dec_enc)

text \<open>
  Decoding loses nothing: the header read from a datagram encodes to exactly the
  bytes it was read from, and decoding fails on fewer than 24 bytes only.
\<close>

theorem header_decode_exact:
  "(case decode_header bs of
      None \<Rightarrow> length bs < 24
    | Some (h, rest) \<Rightarrow> 24 \<le> length bs \<and> encode_header [] h = take 24 bs \<and> rest = drop 24 bs)"
  using hdr.dec_None_iff [of bs] hdr.enc_dec [of bs] hdr.enc_length
  by (auto split: option.split)

end
