(* ===== verification/Control.thy ===== *)
theory Control
  imports Segment
begin

text \<open>
  The control block (\<open>ikcp.h: struct IKCPCB\<close>), its creation and release, the setters
  (\<open>ikcp_setmtu\<close>, \<open>ikcp_interval\<close>, \<open>ikcp_nodelay\<close>, \<open>ikcp_wndsize\<close>), the small
  observers (\<open>ikcp_waitsnd\<close>, \<open>ikcp_wnd_unused\<close>), and the invariant of a control block
  that every operation of the protocol keeps.
\<close>

section \<open>The control block\<close>

text \<open>
  The four queues are lists, first element first.  \<open>acklist\<close> is the block of pairs
  (\<open>None\<close> for the null pointer), of which the first \<open>ackcount\<close> are in use.  \<open>buffer\<close> is
  the number of bytes allocated for the output buffer, \<open>output_cb\<close> whether the output
  callback is set.  The opaque \<open>user\<close> pointer and the log callback with its mask have no
  influence on the protocol and are left out.  \<open>mem\<close> is the allocator the block lives in.
\<close>

record ikcpcb =
  conv :: u32
  mtu :: u32
  mss :: u32
  state :: u32
  snd_una :: u32
  snd_nxt :: u32
  rcv_nxt :: u32
  ts_recent :: u32
  ts_lastack :: u32
  ssthresh :: u32
  rx_rttval :: int
  rx_srtt :: int
  rx_rto :: int
  rx_minrto :: int
  snd_wnd :: u32
  rcv_wnd :: u32
  rmt_wnd :: u32
  cwnd :: u32
  probe :: u32
  current :: u32
  interval :: u32
  ts_flush :: u32
  xmit :: u32
  nrcv_buf :: u32
  nsnd_buf :: u32
  nrcv_que :: u32
  nsnd_que :: u32
  nodelay :: u32
  updated :: u32
  ts_probe :: u32
  probe_wait :: u32
  dead_link :: u32
  incr :: u32
  snd_queue :: "ikcpseg list"
  rcv_queue :: "ikcpseg list"
  snd_buf :: "ikcpseg list"
  rcv_buf :: "ikcpseg list"
  acklist :: "(u32 \<times> u32) list option"
  ackcount :: u32
  ackblock :: u32
  buffer :: nat
  fastresend :: int
  nocwnd :: int
  output_cb :: bool
  mem :: memory

section \<open>Creation and release\<close>

text \<open>
  \<open>ikcp_create\<close>: the null result is \<open>Inl\<close> with the allocator afterwards.
\<close>

definition new_kcpcb :: "u32 \<Rightarrow> nat \<Rightarrow> memory \<Rightarrow> ikcpcb" where
  "new_kcpcb c buf m =
     \<lparr>conv = c, mtu = IKCP_MTU_DEF, mss = IKCP_MTU_DEF - IKCP_OVERHEAD, state = 0,
      snd_una = 0, snd_nxt = 0, rcv_nxt = 0,
      ts_recent = 0, ts_lastack = 0, ssthresh = IKCP_THRESH_INIT,
      rx_rttval = 0, rx_srtt = 0, rx_rto = uint IKCP_RTO_DEF, rx_minrto = uint IKCP_RTO_MIN,
      snd_wnd = IKCP_WND_SND, rcv_wnd = IKCP_WND_RCV, rmt_wnd = IKCP_WND_RCV,
      cwnd = 0, probe = 0,
      current = 0, interval = IKCP_INTERVAL, ts_flush = IKCP_INTERVAL, xmit = 0,
      nrcv_buf = 0, nsnd_buf = 0, nrcv_que = 0, nsnd_que = 0,
      nodelay = 0, updated = 0, ts_probe = 0, probe_wait = 0,
      dead_link = IKCP_DEADLINK, incr = 0,
      snd_queue = [], rcv_queue = [], snd_buf = [], rcv_buf = [],
      acklist = None, ackcount = 0, ackblock = 0, buffer = buf,
      fastresend = 0, nocwnd = 0, output_cb = False, mem = m\<rparr>"

definition ikcp_create :: "memory \<Rightarrow> u32 \<Rightarrow> memory + ikcpcb" where
  "ikcp_create m c =
     (let (ok, m) = ikcp_malloc m in
      if \<not> ok then Inl m
      else let (ok, m) = ikcp_malloc m in
        if \<not> ok then Inl (ikcp_free m)
        else Inr (new_kcpcb c (unat ((IKCP_MTU_DEF + IKCP_OVERHEAD) * 3)) m))"

text \<open>
  \<open>ikcp_release\<close>: the four queues are emptied from the front, then the output buffer,
  the acknowledge list and the block itself are freed.
\<close>

fun release_queue :: "ikcpseg list \<Rightarrow> memory \<Rightarrow> memory" where
  "release_queue [] m = m"
| "release_queue (seg # rest) m = release_queue rest (ikcp_segment_delete m)"

definition ikcp_release :: "ikcpcb \<Rightarrow> memory" where
  "ikcp_release k =
     (let m = release_queue (snd_buf k) (mem k);
          m = release_queue (rcv_buf k) m;
          m = release_queue (snd_queue k) m;
          m = release_queue (rcv_queue k) m;
          m = ikcp_free m;
          m = (if acklist k \<noteq> None then ikcp_free m else m)
      in ikcp_free m)"

section \<open>Setters and observers\<close>

definition ikcp_setmtu :: "ikcpcb \<Rightarrow> int \<Rightarrow> int \<times> ikcpcb" where
  "ikcp_setmtu k m =
     (if m < 50 \<or> m < sint IKCP_OVERHEAD then (-1, k)
      else let (ok, me) = ikcp_malloc (mem k) in
        if \<not> ok then (-2, k\<lparr>mem := me\<rparr>)
        else (0, k\<lparr>mtu := word_of_int m, mss := word_of_int m - IKCP_OVERHEAD,
                   buffer := unat ((word_of_int m + IKCP_OVERHEAD) * 3),
                   mem := ikcp_free me\<rparr>))"

definition clamp_interval :: "int \<Rightarrow> int" where
  "clamp_interval i = (if i > 5000 then 5000 else if i < 10 then 10 else i)"

definition ikcp_interval :: "ikcpcb \<Rightarrow> int \<Rightarrow> int \<times> ikcpcb" where
  "ikcp_interval k i = (0, k\<lparr>interval := word_of_int (clamp_interval i)\<rparr>)"

definition ikcp_nodelay :: "ikcpcb \<Rightarrow> int \<Rightarrow> int \<Rightarrow> int \<Rightarrow> int \<Rightarrow> int \<times> ikcpcb" where
  "ikcp_nodelay k nd i resend nc =
     (let k = (if nd \<ge> 0 then
                 k\<lparr>nodelay := word_of_int nd,
                   rx_minrto := (if nd \<noteq> 0 then uint IKCP_RTO_NDL else uint IKCP_RTO_MIN)\<rparr>
               else k);
          k = (if i \<ge> 0 then k\<lparr>interval := word_of_int (clamp_interval i)\<rparr> else k);
          k = (if resend \<ge> 0 then k\<lparr>fastresend := resend\<rparr> else k);
          k = (if nc \<ge> 0 then k\<lparr>nocwnd := nc\<rparr> else k)
      in (0, k))"

definition ikcp_wndsize :: "ikcpcb \<Rightarrow> int \<Rightarrow> int \<Rightarrow> int \<times> ikcpcb" where
  "ikcp_wndsize k sndwnd rcvwnd =
     (let k = (if sndwnd > 0 then k\<lparr>snd_wnd := word_of_int sndwnd\<rparr> else k);
          k = (if rcvwnd > 0 then k\<lparr>rcv_wnd := word_of_int rcvwnd\<rparr> else k)
      in (0, k))"

definition ikcp_waitsnd :: "ikcpcb \<Rightarrow> int" where
  "ikcp_waitsnd k = sint (nsnd_buf k + nsnd_que k)"

definition ikcp_wnd_unused :: "ikcpcb \<Rightarrow> int" where
  "ikcp_wnd_unused k =
     (if nrcv_que k < rcv_wnd k then sint (rcv_wnd k - nrcv_que k) else 0)"

section \<open>The invariant\<close>

text \<open>Distances of the sequence numbers of a queue from a base.\<close>

definition offsets :: "u32 \<Rightarrow> ikcpseg list \<Rightarrow> nat list" where
  "offsets b segs = map (\<lambda>s. unat (seg_sn s - b)) segs"

definition seg_fits :: "u32 \<Rightarrow> ikcpseg \<Rightarrow> bool" where
  "seg_fits m seg \<longleftrightarrow> seg_sound seg \<and> seg_len seg \<le> m"

definition seg_received :: "ikcpseg \<Rightarrow> bool" where
  "seg_received seg \<longleftrightarrow> seg_sound seg \<and> seg_frg seg < 256"

definition wf_buffer :: "ikcpcb \<Rightarrow> bool" where
  "wf_buffer k \<longleftrightarrow> 50 \<le> mtu k \<and> unat (mtu k) < 2 ^ 30 \<and> mtu k - IKCP_OVERHEAD = mss k \<and>
     (unat (mtu k) + 24) * 3 \<le> buffer k"

text \<open>The first sequence number of a queue, with a default for the empty one.\<close>

fun first_sn :: "u32 \<Rightarrow> ikcpseg list \<Rightarrow> u32" where
  "first_sn d [] = d"
| "first_sn d (s # _) = seg_sn s"

definition wf_snd :: "ikcpcb \<Rightarrow> bool" where
  "wf_snd k \<longleftrightarrow>
     nsnd_que k = of_nat (length (snd_queue k)) \<and> nsnd_buf k = of_nat (length (snd_buf k)) \<and>
     (\<forall>s \<in> set (snd_queue k) \<union> set (snd_buf k). seg_fits (mss k) s) \<and>
     sorted_wrt (<) (offsets (snd_una k) (snd_buf k) @ [unat (snd_nxt k - snd_una k)]) \<and>
     first_sn (snd_nxt k) (snd_buf k) = snd_una k \<and>
     unat (snd_nxt k - snd_una k) < 65536 \<and> rmt_wnd k < 65536"

definition wf_rcv :: "ikcpcb \<Rightarrow> bool" where
  "wf_rcv k \<longleftrightarrow>
     nrcv_que k = of_nat (length (rcv_queue k)) \<and> nrcv_buf k = of_nat (length (rcv_buf k)) \<and>
     length (rcv_queue k) < 2 ^ 32 \<and>
     (\<forall>s \<in> set (rcv_queue k) \<union> set (rcv_buf k). seg_received s) \<and>
     sorted_wrt (<) (offsets (rcv_nxt k) (rcv_buf k) @ [2 ^ 31])"

text \<open>The block of pairs behind \<open>acklist\<close> has room for \<open>ackblock\<close> and holds \<open>ackcount\<close>.\<close>

fun ack_room :: "(u32 \<times> u32) list option \<Rightarrow> u32 \<Rightarrow> u32 \<Rightarrow> bool" where
  "ack_room None block cnt \<longleftrightarrow> block = 0 \<and> cnt = 0"
| "ack_room (Some a) block cnt \<longleftrightarrow>
     unat block \<le> length a \<and> unat cnt \<le> length a \<and> even (length a)"

definition wf_ack :: "ikcpcb \<Rightarrow> bool" where
  "wf_ack k \<longleftrightarrow> ack_room (acklist k) (ackblock k) (ackcount k)"

definition wf_time :: "ikcpcb \<Rightarrow> bool" where
  "wf_time k \<longleftrightarrow> 10 \<le> interval k \<and> interval k \<le> 5000 \<and>
     rx_minrto k \<in> {30, 100} \<and> 30 \<le> rx_rto k \<and> rx_rto k \<le> 60000"

definition kcp_wf :: "ikcpcb \<Rightarrow> bool" where
  "kcp_wf k \<longleftrightarrow> wf_buffer k \<and> wf_snd k \<and> wf_rcv k \<and> wf_ack k \<and> wf_time k"

text \<open>Every block obtained since the allocator had \<open>b\<close> live blocks is accounted for.\<close>

definition owned :: "ikcpcb \<Rightarrow> int" where
  "owned k = 2 + (if acklist k = None then 0 else 1) +
     int (length (snd_queue k) + length (snd_buf k) + length (rcv_queue k) + length (rcv_buf k))"

definition accounted :: "int \<Rightarrow> ikcpcb \<Rightarrow> bool" where
  "accounted b k \<longleftrightarrow> live (mem k) = b + owned k"

section \<open>Lemmas\<close>

lemmas wf_defs = kcp_wf_def wf_buffer_def wf_snd_def wf_rcv_def wf_ack_def wf_time_def

lemma offsets_simps [simp]:
  "offsets b [] = []"
  "offsets b (s # ss) = unat (seg_sn s - b) # offsets b ss"
  "offsets b (ss @ ts) = offsets b ss @ offsets b ts"
  "length (offsets b ss) = length ss"
  by (simp_all add: offsets_def)

lemma set_offsets: "set (offsets b ss) = (\<lambda>s. unat (seg_sn s - b)) ` set ss"
  by (simp add: offsets_def)

text \<open>The parts of the invariant depend on few fields each.\<close>

lemma wf_buffer_cong:
  "mtu k' = mtu k \<Longrightarrow> mss k' = mss k \<Longrightarrow> buffer k' = buffer k \<Longrightarrow> wf_buffer k' = wf_buffer k"
  by (simp add: wf_buffer_def)

lemma wf_snd_cong:
  "nsnd_que k' = nsnd_que k \<Longrightarrow> nsnd_buf k' = nsnd_buf k \<Longrightarrow> snd_queue k' = snd_queue k \<Longrightarrow>
   snd_buf k' = snd_buf k \<Longrightarrow> mss k' = mss k \<Longrightarrow> snd_una k' = snd_una k \<Longrightarrow>
   snd_nxt k' = snd_nxt k \<Longrightarrow> rmt_wnd k' = rmt_wnd k \<Longrightarrow> wf_snd k' = wf_snd k"
  by (simp add: wf_snd_def)

lemma wf_rcv_cong:
  "nrcv_que k' = nrcv_que k \<Longrightarrow> nrcv_buf k' = nrcv_buf k \<Longrightarrow> rcv_queue k' = rcv_queue k \<Longrightarrow>
   rcv_buf k' = rcv_buf k \<Longrightarrow> rcv_nxt k' = rcv_nxt k \<Longrightarrow> wf_rcv k' = wf_rcv k"
  by (simp add: wf_rcv_def)

lemma wf_ack_cong:
  "acklist k' = acklist k \<Longrightarrow> ackblock k' = ackblock k \<Longrightarrow> ackcount k' = ackcount k \<Longrightarrow>
   wf_ack k' = wf_ack k"
  by (simp add: wf_ack_def)

lemma wf_time_cong:
  "interval k' = interval k \<Longrightarrow> rx_minrto k' = rx_minrto k \<Longrightarrow> rx_rto k' = rx_rto k \<Longrightarrow>
   wf_time k' = wf_time k"
  by (simp add: wf_time_def)

lemmas wf_congs = wf_buffer_cong wf_snd_cong wf_rcv_cong wf_ack_cong wf_time_cong

lemma clamp_interval_range: "10 \<le> clamp_interval i" "clamp_interval i \<le> 5000"
  by (simp_all add: clamp_interval_def)

lemma clamp_interval_word:
  "10 \<le> (word_of_int (clamp_interval i) :: u32)" "(word_of_int (clamp_interval i) :: u32) \<le> 5000"
  using clamp_interval_range [of i]
  by (simp_all add: word_le_def uint_word_of_int)

subsection \<open>Creation and release\<close>

lemma new_kcpcb_wf: "4272 \<le> buf \<Longrightarrow> kcp_wf (new_kcpcb c buf m)"
  by (simp add: wf_defs new_kcpcb_def)

text \<open>
  \<open>ikcp_create\<close> returns a control block that satisfies the invariant and owns exactly
  the two blocks it allocated, or the null pointer, and then nothing stays allocated.
\<close>

theorem create_result:
  "case ikcp_create m c of
     Inl m' \<Rightarrow> live m' = live m
   | Inr k \<Rightarrow> kcp_wf k \<and> accounted (live m) k \<and> conv k = c"
  by (auto simp: ikcp_create_def ikcp_malloc_def ikcp_free_def accounted_def owned_def
      new_kcpcb_wf) (auto simp: new_kcpcb_def)

lemma release_queue_live: "live (release_queue q m) = live m - int (length q)"
  by (induction q m rule: release_queue.induct) (simp_all add: ikcp_segment_delete_def)

lemma release_live:
  assumes "accounted b k"
  shows "live (ikcp_release k) = b"
  using assms
  by (auto simp: ikcp_release_def Let_def release_queue_live accounted_def owned_def)

text \<open>
  \<open>ikcp_release\<close> frees every block the control block owns, once: the number of live
  blocks returns to what it was when the block was created.
\<close>

theorem release_frees_all:
  assumes "accounted b k"
  shows "live (ikcp_release k) = b"
  using assms by (rule release_live)

subsection \<open>Setters\<close>

lemma interval_wf [wf_rules]: "kcp_wf k \<Longrightarrow> kcp_wf (snd (ikcp_interval k i))"
  by (simp add: ikcp_interval_def wf_defs clamp_interval_word)

lemma nodelay_wf [wf_rules]: "kcp_wf k \<Longrightarrow> kcp_wf (snd (ikcp_nodelay k nd i resend nc))"
  by (simp add: ikcp_nodelay_def wf_defs clamp_interval_word Let_def)

lemma wndsize_wf [wf_rules]: "kcp_wf k \<Longrightarrow> kcp_wf (snd (ikcp_wndsize k sw rw))"
  by (simp add: ikcp_wndsize_def wf_defs Let_def)

text \<open>
  \<open>ikcp_setmtu\<close> keeps the invariant when no segment waiting to be sent is longer than the
  new maximum, and when the size of the new output buffer does not wrap around.
\<close>

lemma setmtu_error:
  "m < 50 \<Longrightarrow> ikcp_setmtu k m = (-1, k)"
  by (simp add: ikcp_setmtu_def)

lemma setmtu_nomem:
  "50 \<le> m \<Longrightarrow> \<not> fst (ikcp_malloc (mem k)) \<Longrightarrow>
   ikcp_setmtu k m = (-2, k\<lparr>mem := snd (ikcp_malloc (mem k))\<rparr>)"
  by (cases "ikcp_malloc (mem k)") (simp add: ikcp_setmtu_def)

lemma mtu_word:
  assumes "50 \<le> m" "m \<le> 1431655741"
  shows "unat (word_of_int m :: u32) = nat m"
    and "unat ((word_of_int m + 24) * 3 :: u32) = (nat m + 24) * 3"
    and "unat (word_of_int m - 24 :: u32) = nat m - 24"
proof -
  have u: "uint (word_of_int m :: u32) = m" using assms by (simp add: uint_word_of_int)
  then show n: "unat (word_of_int m :: u32) = nat m" by (simp add: unat_eq_nat_uint)
  have "(word_of_int m + 24) * 3 = (word_of_int ((m + 24) * 3) :: u32)" by simp
  moreover have "uint (word_of_int ((m + 24) * 3) :: u32) = (m + 24) * 3"
    using assms by (subst uint_word_of_int) (simp add: mod_pos_pos_trivial)
  ultimately show "unat ((word_of_int m + 24) * 3 :: u32) = (nat m + 24) * 3"
    using assms by (simp add: unat_eq_nat_uint nat_mult_distrib nat_add_distrib)
  have "(24 :: u32) \<le> word_of_int m" using u assms by (simp add: word_le_def)
  then show "unat (word_of_int m - 24 :: u32) = nat m - 24" using n by (simp add: unat_sub)
qed

lemma setmtu_wf:
  assumes "kcp_wf k" and "m < 2 ^ 30"
    and "\<forall>s \<in> set (snd_queue k) \<union> set (snd_buf k). int (unat (seg_len s)) \<le> m - 24"
  shows "kcp_wf (snd (ikcp_setmtu k m))"
proof (cases "50 \<le> m \<and> fst (ikcp_malloc (mem k))")
  case False
  then consider "m < 50" | "50 \<le> m" "\<not> fst (ikcp_malloc (mem k))" by linarith
  then show ?thesis
  proof cases
    case 1
    then show ?thesis using assms(1) by (simp add: setmtu_error)
  next
    case 2
    from setmtu_nomem [OF this] show ?thesis using assms(1) by (simp add: wf_defs)
  qed
next
  case True
  then have m: "50 \<le> m" by simp
  have m2: "m \<le> 1431655741" using assms(2) by simp
  note w = mtu_word [OF m m2]
  define m2 where "m2 = ikcp_free (snd (ikcp_malloc (mem k)))"
  define k2 where "k2 = k\<lparr>mtu := word_of_int m, mss := word_of_int m - 24,
    buffer := unat ((word_of_int m + 24) * 3 :: u32), mem := m2\<rparr>"
  have "ikcp_setmtu k m = (0, k2)"
    using True by (cases "ikcp_malloc (mem k)") (simp add: ikcp_setmtu_def k2_def m2_def)
  moreover have "50 \<le> nat m" "nat m < 1073741824" using m assms(2) by auto
  then have "wf_buffer k2"
    using w by (simp add: wf_buffer_def k2_def word_le_nat_alt)
  moreover have "seg_fits (word_of_int m - 24) s" if "seg_fits (mss k) s"
    and "int (unat (seg_len s)) \<le> m - 24" for s
    using that w(3) m unfolding word_le_nat_alt seg_fits_def by linarith
  then have "wf_snd k2"
    using assms(1,3) by (auto simp: kcp_wf_def wf_snd_def k2_def)
  ultimately show ?thesis
    using assms(1) by (simp add: kcp_wf_def k2_def wf_rcv_def wf_ack_def wf_time_def)
qed

end
