(* ===== verification/Send.thy ===== *)
theory Send
  imports Control
begin

text \<open>
  The upper-level send (\<open>ikcp.c: ikcp_send\<close>): a message is cut into fragments of at most
  \<open>mss\<close> bytes that are appended to the send queue, numbered downwards to zero.
\<close>

section \<open>The operation\<close>

text \<open>
  The loop over the fragments.  The first argument is \<open>count - i\<close>; a null \<open>buffer\<close> is
  \<open>None\<close>, and a \<open>memcpy\<close> that reads past its end is a fault.
\<close>

fun send_loop :: "nat \<Rightarrow> int \<Rightarrow> u8 list option \<Rightarrow> ikcpcb \<Rightarrow> (int \<times> ikcpcb) outcome" where
  "send_loop 0 len buf k = Inr (0, k)"
| "send_loop (Suc n) len buf k =
     (let size = (if len > sint (mss k) then sint (mss k) else len);
          (seg, m) = ikcp_segment_new (mem k) (nat size);
          k = k\<lparr>mem := m\<rparr>
      in case seg of
           None \<Rightarrow> Inr (-2, k)
         | Some seg \<Rightarrow>
             bindE
               (case buf of
                  Some b \<Rightarrow>
                    if len > 0
                    then guardE (nat size \<le> length b) Out_Of_Bounds
                           (Inr (seg\<lparr>seg_data := take (nat size) b\<rparr>))
                    else Inr seg
                | None \<Rightarrow> Inr seg)
               (\<lambda>seg.
                  let seg = seg\<lparr>seg_len := word_of_int size, seg_frg := of_nat n\<rparr>;
                      k = k\<lparr>snd_queue := snd_queue k @ [seg], nsnd_que := nsnd_que k + 1\<rparr>;
                      buf = map_option (drop (nat size)) buf
                  in send_loop n (len - size) buf k))"

definition ikcp_send :: "ikcpcb \<Rightarrow> u8 list option \<Rightarrow> int \<Rightarrow> (int \<times> ikcpcb) outcome" where
  "ikcp_send k buf len =
     (if len < 0 then Inr (-1, k)
      else bindE
        (if len \<le> sint (mss k) then Inr 1
         else guardE (mss k \<noteq> 0) Division_By_Zero
                (Inr (sint ((word_of_int len + mss k - 1) div mss k))))
        (\<lambda>count.
           if count > 255 then Inr (-2, k)
           else let count = (if count = 0 then 1 else count)
                in send_loop (nat count) len buf k))"

section \<open>Specification\<close>

text \<open>The fragments of a message, and the segments that carry them.\<close>

function chunks :: "nat \<Rightarrow> 'a list \<Rightarrow> 'a list list" where
  "chunks m xs =
     (if m = 0 \<or> length xs \<le> m then [xs] else take m xs # chunks m (drop m xs))"
  by pat_completeness auto
termination
  by (relation "measure (\<lambda>(m, xs). length xs)") auto

declare chunks.simps [simp del]

definition data_segment :: "nat \<Rightarrow> u8 list \<Rightarrow> ikcpseg" where
  "data_segment frg chunk =
     (fresh_segment (length chunk))
       \<lparr>seg_data := chunk, seg_len := of_nat (length chunk), seg_frg := of_nat frg\<rparr>"

fun fragments :: "u8 list list \<Rightarrow> ikcpseg list" where
  "fragments [] = []"
| "fragments (c # cs) = data_segment (length cs) c # fragments cs"

text \<open>The allocator after \<open>n\<close> granted requests.\<close>

definition granted :: "nat \<Rightarrow> memory \<Rightarrow> memory" where
  "granted n m = \<lparr>answers = (\<lambda>i. answers m (n + i)), live = live m + int n\<rparr>"

definition enqueue :: "ikcpseg list \<Rightarrow> ikcpcb \<Rightarrow> ikcpcb" where
  "enqueue segs k =
     k\<lparr>mem := granted (length segs) (mem k),
       snd_queue := snd_queue k @ segs, nsnd_que := nsnd_que k + of_nat (length segs)\<rparr>"

lemma chunks_ne [simp]: "chunks m xs \<noteq> []"
  by (subst chunks.simps) simp

lemma chunks_0 [simp]: "length xs \<le> m \<Longrightarrow> chunks m xs = [xs]"
  by (subst chunks.simps) simp

lemma chunks_rec: "0 < m \<Longrightarrow> m < length xs \<Longrightarrow> chunks m xs = take m xs # chunks m (drop m xs)"
  by (subst chunks.simps) simp

lemma concat_chunks [simp]: "concat (chunks m xs) = xs"
proof (induction m xs rule: chunks.induct)
  case (1 m xs)
  then show ?case by (subst chunks.simps) auto
qed

lemma chunks_length: "0 < m \<Longrightarrow> c \<in> set (chunks m xs) \<Longrightarrow> length c \<le> m"
proof (induction m xs rule: chunks.induct)
  case (1 m xs)
  then show ?case by (subst (asm) (2) chunks.simps) (auto split: if_splits)
qed

lemma length_chunks: "0 < m \<Longrightarrow> m < length xs \<Longrightarrow> length (chunks m xs) = (length xs + m - 1) div m"
proof (induction m xs rule: chunks.induct)
  case (1 m xs)
  have "length xs + m - 1 = (length xs - 1) + m" using "1.prems" by simp
  moreover have "((length xs - 1) + m) div m = Suc ((length xs - 1) div m)"
    using "1.prems" by (simp only: div_add_self2)
  ultimately have "(length xs + m - 1) div m = Suc ((length xs - 1) div m)" by (simp only:)
  moreover have "(length xs - 1) div m = 1" if "length xs - m \<le> m"
    using that "1.prems" by (intro div_nat_eqI) auto
  ultimately show ?case
    using 1 by (cases "m < length xs - m") (auto simp: chunks_rec)
qed

lemma length_fragments [simp]: "length (fragments cs) = length cs"
  by (induction cs) auto

lemma fragments_data: "map seg_data (fragments cs) = cs"
  by (induction cs) (simp_all add: data_segment_def)

lemma granted_simps [simp]:
  "granted 0 m = m"
  "granted n (granted k m) = granted (k + n) m"
  "answers (granted n m) i = answers m (n + i)"
  "live (granted n m) = live m + int n"
  by (simp_all add: granted_def add.assoc)

section \<open>Lemmas\<close>

lemma wf_mss:
  assumes "kcp_wf k"
  shows "26 \<le> unat (mss k)" and "unat (mss k) < 2147483648"
    and "sint (mss k) = int (unat (mss k))" and "unat (mtu k) = unat (mss k) + 24"
proof -
  have m: "50 \<le> mtu k" "unat (mtu k) < 1073741824" "mtu k - 24 = mss k"
    using assms by (auto simp: kcp_wf_def wf_buffer_def)
  have "(24 :: u32) \<le> mtu k" using m(1) by (simp add: word_le_nat_alt)
  then have u: "unat (mss k) = unat (mtu k) - 24" by (simp add: unat_sub flip: m(3))
  show *: "26 \<le> unat (mss k)" "unat (mss k) < 2147483648" "unat (mtu k) = unat (mss k) + 24"
    using m u by (simp_all add: word_le_nat_alt)
  show "sint (mss k) = int (unat (mss k))" using *(2) by (rule sint_small)
qed

lemma segment_new_granted:
  "answers m 0 \<Longrightarrow> ikcp_segment_new m n = (Some (fresh_segment n), granted 1 m)"
  by (simp add: ikcp_segment_new_def ikcp_malloc_def granted_def)

lemma segment_new_refused:
  "\<not> answers m 0 \<Longrightarrow>
   ikcp_segment_new m n = (None, \<lparr>answers = (\<lambda>i. answers m (Suc i)), live = live m\<rparr>)"
  by (simp add: ikcp_segment_new_def ikcp_malloc_def)

text \<open>One turn of the loop on a chunk that the buffer starts with.\<close>

lemma send_loop_step:
  assumes a: "answers (mem k) 0" and ms: "sint (mss k) = int ms"
    and c: "length c = min ms (length data)" "take (length c) data = c"
  shows "send_loop (Suc n) (int (length data)) (Some data) k =
    send_loop n (int (length data) - int (length c)) (Some (drop (length c) data))
      (enqueue [data_segment n c] k)"
proof -
  have size: "(if int (length data) > sint (mss k) then sint (mss k) else int (length data)) =
      int (length c)"
    using ms c(1) by auto
  have le: "length c \<le> length data" using c(1) by simp
  have copy: "bindE (if 0 < int (length data)
      then guardE (nat (int (length c)) \<le> length data) Out_Of_Bounds
        (Inr (fresh_segment (nat (int (length c)))\<lparr>seg_data := take (nat (int (length c))) data\<rparr>))
      else Inr (fresh_segment (nat (int (length c))))) f =
      f (fresh_segment (length c)\<lparr>seg_data := c\<rparr>)" for f :: "ikcpseg \<Rightarrow> (int \<times> ikcpcb) outcome"
    using le c(2) by (auto simp: fresh_segment_def)
  show ?thesis
    unfolding send_loop.simps Let_def size segment_new_granted [OF a] prod.case option.case copy
    by (simp add: enqueue_def data_segment_def)
qed

lemma enqueue_simps [simp]:
  "enqueue t (enqueue s k) = enqueue (s @ t) k"
  "mss (enqueue s k) = mss k"
  "mem (enqueue s k) = granted (length s) (mem k)"
  by (simp_all add: enqueue_def)

lemma send_loop_enqueues:
  assumes "0 < ms" and "sint (mss k) = int ms"
    and "\<forall>j < length (chunks ms data). answers (mem k) j"
  shows "send_loop (length (chunks ms data)) (int (length data)) (Some data) k =
    Inr (0, enqueue (fragments (chunks ms data)) k)"
  using assms
proof (induction ms data arbitrary: k rule: chunks.induct)
  case (1 ms data)
  show ?case
  proof (cases "length data \<le> ms")
    case True
    then show ?thesis
      using send_loop_step [of k ms data data 0] "1.prems" by simp
  next
    case False
    then have ne: "ms < length data" by simp
    note c = chunks_rec [OF "1.prems"(1) ne]
    let ?k = "enqueue [data_segment (length (chunks ms (drop ms data))) (take ms data)] k"
    have "send_loop (length (chunks ms (drop ms data))) (int (length (drop ms data)))
        (Some (drop ms data)) ?k = Inr (0, enqueue (fragments (chunks ms (drop ms data))) ?k)"
      using "1.prems" False by (intro "1.IH") (auto simp: c)
    then show ?thesis
      using send_loop_step [of k ms "take ms data" data "length (chunks ms (drop ms data))"]
        "1.prems" ne by (simp add: c of_nat_diff)
  qed
qed

lemma count_chunks:
  fixes m :: u32 and data :: "u8 list"
  assumes "26 \<le> unat m" and "unat m < 2147483648"
    and "length data < 2147483648" and "unat m < length data"
  shows "sint ((word_of_int (int (length data)) + m - 1) div m) = int (length (chunks (unat m) data))"
proof -
  let ?x = "of_nat (length data) + m :: u32"
  have x: "unat ?x = length data + unat m"
    using assms by (subst unat_add32) (simp_all add: unat_of_nat32)
  then have "?x \<noteq> 0" using assms by (metis add_eq_0_iff_both_eq_0 not_numeral_le_zero unat_0)
  then have "unat (?x - 1) = length data + unat m - 1" using x by (simp add: unat_pred32)
  then have u: "unat ((?x - 1) div m) = length (chunks (unat m) data)"
    using assms by (simp only: unat_div) (simp add: length_chunks)
  have "length (chunks (unat m) data) \<le> (length data + unat m - 1) div 26"
    using assms by (simp add: length_chunks div_le_mono2)
  also have "\<dots> < 2147483648" using assms by (simp add: div_less_iff_less_mult)
  finally have "sint ((?x - 1) div m) = int (unat ((?x - 1) div m))"
    using u by (intro sint_small) simp
  then show ?thesis using u by simp
qed

lemma send_enters_loop:
  fixes data :: "u8 list"
  assumes "kcp_wf k" and "length data < 2 ^ 31"
    and "length (chunks (unat (mss k)) data) \<le> 255"
  shows "ikcp_send k buf (int (length data)) =
    send_loop (length (chunks (unat (mss k)) data)) (int (length data)) buf k"
proof (cases "length data \<le> unat (mss k)")
  note m = wf_mss [OF assms(1)]
  case True
  then have "int (length data) \<le> sint (mss k)" unfolding m(3) by (simp only: of_nat_le_iff)
  then show ?thesis using True by (simp add: ikcp_send_def)
next
  note m = wf_mss [OF assms(1)]
  case False
  then have "\<not> int (length data) \<le> sint (mss k)" unfolding m(3) by linarith
  moreover have "mss k \<noteq> 0" using m(1) by auto
  ultimately show ?thesis
    using count_chunks [OF m(1,2), of data] assms(2,3) False by (simp add: ikcp_send_def)
qed

lemma send_enqueues:
  assumes "kcp_wf k" and "length data < 2 ^ 31"
    and "length (chunks (unat (mss k)) data) \<le> 255"
    and "\<forall>j < length (chunks (unat (mss k)) data). answers (mem k) j"
  shows "ikcp_send k (Some data) (int (length data)) =
    Inr (0, enqueue (fragments (chunks (unat (mss k)) data)) k)"
  unfolding send_enters_loop [OF assms(1-3)]
  using wf_mss [OF assms(1)] assms(4) by (intro send_loop_enqueues) auto

text \<open>
  A message of at most 255 fragments is queued whole: the send queue grows by exactly
  the fragments of the message, in order and numbered down to zero, and nothing else of
  the control block changes.
\<close>

theorem send_queues_fragments:
  assumes "kcp_wf k" and "length data < 2 ^ 31"
    and "length (chunks (unat (mss k)) data) \<le> 255"
    and "\<forall>j < length (chunks (unat (mss k)) data). answers (mem k) j"
  shows "ikcp_send k (Some data) (int (length data)) =
    Inr (0, enqueue (fragments (chunks (unat (mss k)) data)) k)"
  by (rule send_enqueues [OF assms])

subsection \<open>Every call, whatever the allocator answers\<close>

text \<open>What any call of \<open>ikcp_send\<close> may have done to the control block.\<close>

definition grown :: "ikcpseg list \<Rightarrow> memory \<Rightarrow> ikcpcb \<Rightarrow> ikcpcb" where
  "grown segs m k =
     k\<lparr>mem := m, snd_queue := snd_queue k @ segs, nsnd_que := nsnd_que k + of_nat (length segs)\<rparr>"

definition grows_to :: "ikcpcb \<Rightarrow> ikcpcb \<Rightarrow> bool" where
  "grows_to k k' \<longleftrightarrow>
     (\<exists>segs m. k' = grown segs m k \<and> live m = live (mem k) + int (length segs) \<and>
        (\<forall>s \<in> set segs. seg_fits (mss k) s))"

lemma grown_nil: "k = grown [] (mem k) k"
  by (simp add: grown_def)

lemma grows_to_refl: "grows_to k k"
  unfolding grows_to_def by (rule exI [of _ "[]"], rule exI [of _ "mem k"]) (simp add: grown_def)

lemma grows_to_mem: "live m = live (mem k) \<Longrightarrow> grows_to k (k\<lparr>mem := m\<rparr>)"
  unfolding grows_to_def by (rule exI [of _ "[]"], rule exI [of _ m]) (simp add: grown_def)

lemma grows_to_step:
  assumes "grows_to (grown [seg] m k) k'" and "seg_fits (mss k) seg"
    and "live m = live (mem k) + 1"
  shows "grows_to k k'"
proof -
  from assms(1) obtain segs m' where
    "k' = grown segs m' (grown [seg] m k)" "live m' = live m + int (length segs)"
    "\<forall>s \<in> set segs. seg_fits (mss k) s"
    unfolding grows_to_def by (auto simp: grown_def)
  then have "k' = grown (seg # segs) m' k" "live m' = live (mem k) + int (length (seg # segs))"
    "\<forall>s \<in> set (seg # segs). seg_fits (mss k) s"
    using assms(2,3) by (simp_all add: grown_def)
  then show ?thesis unfolding grows_to_def by blast
qed

lemma sent_segment_fits:
  assumes "0 \<le> sz" "sz \<le> int (unat m)" "unat m < 2147483648" "length d = nat sz"
  shows "seg_fits m (seg\<lparr>seg_data := d, seg_len := word_of_int sz, seg_frg := f\<rparr>)"
proof -
  have "word_of_int sz = (of_nat (nat sz) :: u32)" using assms(1) by simp
  then have "unat (word_of_int sz :: u32) = nat sz"
    using assms by (simp only:) (rule unat_of_nat32, linarith)
  then show ?thesis
    using assms by (simp add: seg_fits_def seg_sound_def word_le_nat_alt nat_le_iff)
qed

lemma send_loop_Suc:
  assumes "send_loop (Suc n) len buf k = Inr x" and "answers (mem k) 0"
    and "sz = (if len > sint (mss k) then sint (mss k) else len)"
  obtains seg d where "length d = nat sz"
    and "send_loop n (len - sz) (map_option (drop (nat sz)) buf)
      (grown [seg\<lparr>seg_data := d, seg_len := word_of_int sz, seg_frg := of_nat n\<rparr>]
        (granted 1 (mem k)) k) = Inr x"
proof -
  let ?next = "\<lambda>seg. send_loop n (len - sz) (map_option (drop (nat sz)) buf)
      (grown [seg\<lparr>seg_len := word_of_int sz, seg_frg := of_nat n\<rparr>] (granted 1 (mem k)) k)"
  define d where "d = (case buf of
      Some b \<Rightarrow> if 0 < len then take (nat sz) b else replicate (nat sz) 0
    | None \<Rightarrow> replicate (nat sz) 0)"
  have "length d = nat sz \<and> ?next (fresh_segment (nat sz)\<lparr>seg_data := d\<rparr>) = Inr x"
    using assms(1)
    unfolding send_loop.simps Let_def segment_new_granted [OF assms(2)] prod.case option.case
      assms(3) [symmetric] d_def
    by (auto simp: grown_def fresh_segment_def split: option.splits if_splits)
  then show ?thesis using that by auto
qed

lemma send_loop_grows:
  assumes "send_loop n len buf k = Inr (r, k')" and "0 \<le> len"
    and "sint (mss k) = int (unat (mss k))" and "unat (mss k) < 2147483648"
  shows "grows_to k k' \<and> (r = 0 \<or> r = -2)"
  using assms
proof (induction n arbitrary: len buf k)
  case 0
  then show ?case by (auto intro: grows_to_refl)
next
  case (Suc n)
  define sz where "sz = (if len > sint (mss k) then sint (mss k) else len)"
  have sz: "0 \<le> sz" "sz \<le> int (unat (mss k))" "sz \<le> len"
    using Suc.prems by (auto simp: sz_def)
  show ?case
  proof (cases "answers (mem k) 0")
    case False
    then show ?thesis
      using Suc.prems by (auto simp: segment_new_refused Let_def intro: grows_to_mem)
  next
    case True
    from send_loop_Suc [OF Suc.prems(1) True sz_def] obtain seg d where
      d: "length d = nat sz" and
      rest: "send_loop n (len - sz) (map_option (drop (nat sz)) buf)
        (grown [seg\<lparr>seg_data := d, seg_len := word_of_int sz, seg_frg := of_nat n\<rparr>]
          (granted 1 (mem k)) k) = Inr (r, k')" .
    from Suc.IH [OF rest] sz Suc.prems
    have "grows_to (grown [seg\<lparr>seg_data := d, seg_len := word_of_int sz, seg_frg := of_nat n\<rparr>]
          (granted 1 (mem k)) k) k' \<and> (r = 0 \<or> r = -2)"
      by (simp add: grown_def)
    then show ?thesis
      using sent_segment_fits [OF sz(1,2) Suc.prems(4) d] by (auto intro: grows_to_step)
  qed
qed

declare send_loop.simps [simp del]

lemma send_cases:
  assumes "ikcp_send k buf len = Inr (r, k')"
  obtains (rejected) "k' = k" and "r \<in> {-1, -2}"
    | (queued) n where "0 \<le> len" and "send_loop n len buf k = Inr (r, k')"
  using assms by (fastforce simp: ikcp_send_def Let_def split: if_splits)

lemma send_grows:
  assumes "ikcp_send k buf len = Inr (r, k')" and "kcp_wf k"
  shows "grows_to k k' \<and> r \<in> {0, -1, -2}"
  using assms(1)
proof (cases rule: send_cases)
  case rejected
  then show ?thesis by (auto simp: grows_to_refl)
next
  case (queued n)
  then show ?thesis using send_loop_grows wf_mss [OF assms(2)] by blast
qed

lemma grows_to_wf: "grows_to k k' \<Longrightarrow> kcp_wf k \<Longrightarrow> kcp_wf k'"
  by (auto simp: grows_to_def grown_def wf_defs)

lemma grows_to_accounted: "grows_to k k' \<Longrightarrow> accounted b k \<Longrightarrow> accounted b k'"
  by (auto simp: grows_to_def grown_def accounted_def owned_def)

lemma send_wf [wf_rules]: "ikcp_send k buf len = Inr (r, k') \<Longrightarrow> kcp_wf k \<Longrightarrow> kcp_wf k'"
  using send_grows grows_to_wf by blast

lemma send_accounted:
  "ikcp_send k buf len = Inr (r, k') \<Longrightarrow> kcp_wf k \<Longrightarrow> accounted b k \<Longrightarrow> accounted b k'"
  using send_grows grows_to_accounted by blast

lemma too_many_chunks:
  assumes "0 < m" and "255 * m < length xs"
  shows "255 < length (chunks m xs)"
proof -
  have "m < length xs" using assms by linarith
  moreover have "256 * m \<le> length xs + m - 1" using assms by simp
  then have "256 \<le> (length xs + m - 1) div m"
    using assms(1) by (simp add: less_eq_div_iff_mult_less_eq)
  ultimately show ?thesis using assms(1) by (simp add: length_chunks)
qed

lemma send_too_many:
  fixes data :: "u8 list"
  assumes "kcp_wf k" and "length data < 2 ^ 31" and "255 < length (chunks (unat (mss k)) data)"
  shows "ikcp_send k buf (int (length data)) = Inr (-2, k)"
proof -
  note m = wf_mss [OF assms(1)]
  have big: "unat (mss k) < length data"
    using assms(3) by (cases "length data \<le> unat (mss k)") simp_all
  then have "\<not> int (length data) \<le> sint (mss k)" unfolding m(3) by linarith
  moreover have "mss k \<noteq> 0" using m(1) by auto
  ultimately show ?thesis
    using count_chunks [OF m(1,2), of data] assms(2,3) big by (simp add: ikcp_send_def)
qed

text \<open>
  A negative length is refused with -1, a message that needs more than 255 fragments
  with -2; in both cases the control block is as before.
\<close>

theorem send_rejects:
  assumes "kcp_wf k" and "len < 0 \<or> int (255 * unat (mss k)) < len" and "len < 2 ^ 31"
  shows "ikcp_send k buf len = Inr (if len < 0 then -1 else -2, k)"
proof (cases "len < 0")
  case True
  then show ?thesis by (simp add: ikcp_send_def)
next
  case False
  note m = wf_mss [OF assms(1)]
  obtain n where n: "len = int n" using False by (metis not_less zero_le_imp_eq_int)
  have "255 * unat (mss k) < n" using assms(2) False n by linarith
  then have "255 < length (chunks (unat (mss k)) (replicate n (0 :: u8)))"
    using m(1) by (intro too_many_chunks) simp_all
  from send_too_many [OF assms(1) _ this, of buf] show ?thesis using n assms(3) False by simp
qed

lemma send_loop_refused:
  assumes "0 < ms" and "sint (mss k) = int ms" and "i < length (chunks ms data)"
    and "\<forall>j < i. answers (mem k) j" and "\<not> answers (mem k) i"
  shows "\<exists>m. send_loop (length (chunks ms data)) (int (length data)) (Some data) k =
    Inr (-2, grown (take i (fragments (chunks ms data))) m k)"
  using assms
proof (induction ms data arbitrary: k i rule: chunks.induct)
  case (1 ms data)
  obtain n where n: "length (chunks ms data) = Suc n" by (cases "chunks ms data") auto
  show ?case
  proof (cases i)
    case 0
    then have "\<not> answers (mem k) 0" using "1.prems"(5) by simp
    then have "send_loop (Suc n) (int (length data)) (Some data) k =
        Inr (-2, grown [] \<lparr>answers = (\<lambda>i. answers (mem k) (Suc i)), live = live (mem k)\<rparr> k)"
      by (simp add: send_loop.simps segment_new_refused grown_def)
    then show ?thesis unfolding 0 n take_0 by blast
  next
    case (Suc j)
    then have ne: "ms < length data" using "1.prems"(3) by (cases "length data \<le> ms") auto
    note c = chunks_rec [OF "1.prems"(1) ne]
    let ?k = "enqueue [data_segment (length (chunks ms (drop ms data))) (take ms data)] k"
    obtain m where m: "send_loop (length (chunks ms (drop ms data))) (int (length (drop ms data)))
        (Some (drop ms data)) ?k = Inr (-2, grown (take j (fragments (chunks ms (drop ms data)))) m ?k)"
      using "1.IH" [of ?k j] "1.prems" ne Suc by (auto simp: c)
    have len: "int (length data) - int (length (take ms data)) = int (length (drop ms data))"
      using ne by simp
    have "answers (mem k) 0" using "1.prems"(4) Suc by simp
    from send_loop_step [OF this "1.prems"(2), of "take ms data" data "length (chunks ms (drop ms data))"] ne
    have "send_loop (length (chunks ms data)) (int (length data)) (Some data) k =
        Inr (-2, grown (take j (fragments (chunks ms (drop ms data)))) m ?k)"
      unfolding len using m by (simp add: c)
    moreover have "grown t m (enqueue [x] k) = grown (x # t) m k" for t x
      by (simp add: grown_def enqueue_def add.assoc)
    ultimately show ?thesis by (auto simp: c Suc)
  qed
qed

text \<open>
  C30: when the allocator refuses the segment of fragment \<open>i\<close>, the call fails with -2 and the
  \<open>i\<close> fragments queued before stay in the send queue (a later message is then sent behind a
  truncated one).
\<close>

theorem send_out_of_memory:
  assumes "kcp_wf k" and "length data < 2 ^ 31"
    and "length (chunks (unat (mss k)) data) \<le> 255"
    and "i < length (chunks (unat (mss k)) data)"
    and "\<forall>j < i. answers (mem k) j" and "\<not> answers (mem k) i"
  shows "\<exists>k'. ikcp_send k (Some data) (int (length data)) = Inr (-2, k') \<and>
    snd_queue k' = snd_queue k @ take i (fragments (chunks (unat (mss k)) data))"
proof -
  note m = wf_mss [OF assms(1)]
  obtain me where "send_loop (length (chunks (unat (mss k)) data)) (int (length data))
      (Some data) k = Inr (-2, grown (take i (fragments (chunks (unat (mss k)) data))) me k)"
    using send_loop_refused [of "unat (mss k)" k i data] m assms by auto
  then show ?thesis by (simp add: send_enters_loop [OF assms(1-3)] grown_def)
qed

text \<open>Memory that is not refused stays so.\<close>

lemma segment_new_plentiful: "plentiful m \<Longrightarrow> plentiful (snd (ikcp_segment_new m n))"
  by (cases "ikcp_malloc m") (auto simp: ikcp_segment_new_def plentiful_malloc Let_def plentiful_def)

lemma send_loop_plentiful:
  "send_loop n len buf k = Inr (r, k') \<Longrightarrow> plentiful (mem k) \<Longrightarrow> plentiful (mem k')"
proof (induction n arbitrary: len buf k)
  case 0
  then show ?case by (simp add: send_loop.simps)
next
  case (Suc n)
  then have a: "answers (mem k) 0" by (simp add: plentiful_def)
  have "plentiful (granted 1 (mem k))" using Suc.prems(2) by (simp add: plentiful_def granted_def)
  then have "plentiful (mem k')"
    if "send_loop n l b (grown [s] (granted 1 (mem k)) k) = Inr (r, k')" for l b s
    using Suc.IH [OF that] by (simp add: grown_def)
  then show ?case
    using Suc.prems(1)
    unfolding send_loop.simps Let_def segment_new_granted [OF a] prod.case option.case
    by (auto simp: grown_def)
qed

lemma send_plentiful: "ikcp_send k buf len = Inr (r, k') \<Longrightarrow> plentiful (mem k) \<Longrightarrow> plentiful (mem k')"
  using send_loop_plentiful by (auto simp: ikcp_send_def Let_def split: if_splits)

end
