(* ===== verification/Recv.thy ===== *)
theory Recv
  imports Send
begin

text \<open>
  The upper-level receive (\<open>ikcp.c: ikcp_peeksize, ikcp_recv\<close>): the fragments at the
  front of the receive queue are merged into one message, and segments that have become
  deliverable move from the receive buffer to the queue.  The move is also the last step of
  \<open>ikcp_parse_data\<close>.
\<close>

section \<open>The operations\<close>

text \<open>\<open>length += seg->len\<close> for an \<open>int\<close> and an unsigned length\<close>

definition add_len :: "int \<Rightarrow> u32 \<Rightarrow> int" where
  "add_len l n = sint (word_of_int l + n)"

fun peek_length :: "ikcpseg list \<Rightarrow> int \<Rightarrow> int" where
  "peek_length [] len = len"
| "peek_length (seg # ps) len =
     (let len = add_len len (seg_len seg)
      in if seg_frg seg = 0 then len else peek_length ps len)"

definition ikcp_peeksize :: "ikcpcb \<Rightarrow> int" where
  "ikcp_peeksize k =
     (case rcv_queue k of
        [] \<Rightarrow> -1
      | seg # _ \<Rightarrow>
          if seg_frg seg = 0 then sint (seg_len seg)
          else if nrcv_que k < seg_frg seg + 1 then -1
          else peek_length (rcv_queue k) 0)"

text \<open>"move available data from rcv_buf -> rcv_queue"\<close>

function move_rcv_buf :: "ikcpcb \<Rightarrow> ikcpcb" where
  "move_rcv_buf k =
     (case rcv_buf k of
        [] \<Rightarrow> k
      | seg # rest \<Rightarrow>
          if seg_sn seg = rcv_nxt k \<and> nrcv_que k < rcv_wnd k
          then move_rcv_buf
            (k\<lparr>rcv_buf := rest, nrcv_buf := nrcv_buf k - 1,
               rcv_queue := rcv_queue k @ [seg], nrcv_que := nrcv_que k + 1,
               rcv_nxt := rcv_nxt k + 1\<rparr>)
          else k)"
  by pat_completeness auto
termination
  by (relation "measure (\<lambda>k. length (rcv_buf k))") auto

declare move_rcv_buf.simps [simp del]

text \<open>
  "merge fragment": the loop over the receive queue.  It returns the length, the bytes
  copied to the caller's buffer (none when the buffer is null) and the control block.
\<close>

fun recv_merge ::
  "bool \<Rightarrow> bool \<Rightarrow> ikcpseg list \<Rightarrow> int \<Rightarrow> u8 list \<Rightarrow> ikcpcb \<Rightarrow> int \<times> u8 list \<times> ikcpcb" where
  "recv_merge ispeek buf [] len out k = (len, out, k)"
| "recv_merge ispeek buf (seg # ps) len out k =
     (let out = (if buf then out @ seg_bytes seg else out);
          len = add_len len (seg_len seg);
          fragment = seg_frg seg;
          k = (if ispeek then k
               else k\<lparr>rcv_queue := tl (rcv_queue k), mem := ikcp_segment_delete (mem k),
                      nrcv_que := nrcv_que k - 1\<rparr>)
      in if fragment = 0 then (len, out, k)
         else recv_merge ispeek buf ps len out k)"

text \<open>The second argument is whether \<open>buffer\<close> is not null.\<close>

definition ikcp_recv :: "ikcpcb \<Rightarrow> bool \<Rightarrow> int \<Rightarrow> int \<times> u8 list \<times> ikcpcb" where
  "ikcp_recv k buf len =
     (let ispeek = (len < 0) in
      if rcv_queue k = [] then (-1, [], k)
      else let len = (if len < 0 then s32 (- len) else len);
               peeksize = ikcp_peeksize k in
      if peeksize < 0 then (-2, [], k)
      else if peeksize > len then (-3, [], k)
      else let recover = (nrcv_que k \<ge> rcv_wnd k);
               (len, out, k) = recv_merge ispeek buf (rcv_queue k) 0 [] k;
               k = move_rcv_buf k;
               k = (if nrcv_que k < rcv_wnd k \<and> recover
                    then k\<lparr>probe := probe k OR IKCP_ASK_TELL\<rparr> else k)
           in (len, out, k))"

section \<open>Moving segments\<close>

text \<open>How far the segments of a buffer continue from a sequence number.\<close>

fun run_length :: "u32 \<Rightarrow> ikcpseg list \<Rightarrow> nat" where
  "run_length nxt [] = 0"
| "run_length nxt (s # ss) = (if seg_sn s = nxt then Suc (run_length (nxt + 1) ss) else 0)"

definition moved :: "nat \<Rightarrow> ikcpcb \<Rightarrow> ikcpcb" where
  "moved n k =
     k\<lparr>rcv_buf := drop n (rcv_buf k), nrcv_buf := nrcv_buf k - of_nat n,
       rcv_queue := rcv_queue k @ take n (rcv_buf k), nrcv_que := nrcv_que k + of_nat n,
       rcv_nxt := rcv_nxt k + of_nat n\<rparr>"

lemma moved_0 [simp]: "moved 0 k = k"
  by (simp add: moved_def)

text \<open>The loop moves as long a run as the window of the queue allows.\<close>

lemma move_eq_moved:
  "move_rcv_buf k =
     moved (min (run_length (rcv_nxt k) (rcv_buf k)) (unat (rcv_wnd k) - unat (nrcv_que k))) k"
proof (induction k rule: move_rcv_buf.induct)
  case (1 k)
  show ?case
  proof (cases "rcv_buf k")
    case Nil
    then show ?thesis by (simp add: move_rcv_buf.simps)
  next
    case (Cons seg rest)
    show ?thesis
    proof (cases "seg_sn seg = rcv_nxt k \<and> nrcv_que k < rcv_wnd k")
      case False
      then show ?thesis
        using Cons by (auto simp: move_rcv_buf.simps [of k] word_less_nat_alt)
    next
      case True
      let ?k = "k\<lparr>rcv_buf := rest, nrcv_buf := nrcv_buf k - 1,
               rcv_queue := rcv_queue k @ [seg], nrcv_que := nrcv_que k + 1,
               rcv_nxt := rcv_nxt k + 1\<rparr>"
      have lt: "unat (nrcv_que k) < unat (rcv_wnd k)" using True by (simp add: word_less_nat_alt)
      then have u: "unat (nrcv_que k + 1) = unat (nrcv_que k) + 1"
        using unat32_less [of "rcv_wnd k"] by (subst unat_add32) auto
      have "moved n ?k = moved (Suc n) k" for n
        using Cons by (simp add: moved_def algebra_simps)
      moreover have "move_rcv_buf k = move_rcv_buf ?k"
        using True Cons by (simp add: move_rcv_buf.simps [of k])
      moreover have "Suc (min a (unat (rcv_wnd k) - unat (nrcv_que k + 1))) =
          min (Suc a) (unat (rcv_wnd k) - unat (nrcv_que k))" for a
        using lt u by simp
      ultimately show ?thesis
        using "1.IH" [OF Cons True] True Cons by simp
    qed
  qed
qed

lemma run_length_le: "run_length nxt ss \<le> length ss"
  by (induction nxt ss rule: run_length.induct) auto

lemma run_length_sn:
  "i < run_length nxt ss \<Longrightarrow> seg_sn (ss ! i) = nxt + of_nat i"
proof (induction nxt ss arbitrary: i rule: run_length.induct)
  case (2 nxt s ss)
  then show ?case by (cases i) (auto split: if_splits)
qed simp

lemma offsets_shift:
  "\<forall>s \<in> set ss. seg_sn s \<noteq> r \<Longrightarrow> offsets (r + 1) ss = map (\<lambda>x. x - 1) (offsets r ss)"
  by (auto simp: offsets_def offset_step)

text \<open>Taking the next segment off the front keeps the rest of the buffer in order.\<close>

definition rcv_ordered :: "u32 \<Rightarrow> ikcpseg list \<Rightarrow> bool" where
  "rcv_ordered r ss \<longleftrightarrow> sorted_wrt (<) (offsets r ss @ [2 ^ 31])"

lemma rcv_ordered_Cons:
  "rcv_ordered r (s # ss) \<longleftrightarrow>
     rcv_ordered r ss \<and> unat (seg_sn s - r) < 2 ^ 31 \<and>
     (\<forall>t \<in> set ss. unat (seg_sn s - r) < unat (seg_sn t - r))"
  by (auto simp: rcv_ordered_def set_offsets)

lemma rcv_ordered_next:
  assumes "rcv_ordered (seg_sn s) (s # ss)"
  shows "rcv_ordered (seg_sn s + 1) ss"
proof -
  let ?r = "seg_sn s"
  have pos: "0 < unat (seg_sn t - ?r)" if "t \<in> set ss" for t
    using assms that unfolding rcv_ordered_Cons by auto
  then have ne: "\<forall>t \<in> set ss. seg_sn t \<noteq> ?r" by fastforce
  have "sorted_wrt (\<lambda>a b. a - 1 < b - (1::nat)) (offsets ?r ss)"
  proof (rule sorted_wrt_mono_rel)
    show "sorted_wrt (<) (offsets ?r ss)"
      using assms unfolding rcv_ordered_Cons by (simp add: rcv_ordered_def sorted_wrt_append)
    fix a b assume "a \<in> set (offsets ?r ss)" "a < b"
    then have "0 < a" using pos by (auto simp: set_offsets)
    then show "a - 1 < b - 1" using \<open>a < b\<close> by simp
  qed
  then have "sorted_wrt (<) (offsets (?r + 1) ss)"
    by (simp add: offsets_shift [OF ne] sorted_wrt_map)
  moreover have "\<forall>x \<in> set (offsets (?r + 1) ss). x < 2 ^ 31"
    using assms unfolding rcv_ordered_Cons offsets_shift [OF ne]
    by (auto simp: rcv_ordered_def sorted_wrt_append set_offsets)
  ultimately show ?thesis by (simp add: rcv_ordered_def sorted_wrt_append)
qed

lemma wf_rcv_alt:
  "wf_rcv k \<longleftrightarrow>
     nrcv_que k = of_nat (length (rcv_queue k)) \<and> nrcv_buf k = of_nat (length (rcv_buf k)) \<and>
     length (rcv_queue k) < 2 ^ 32 \<and>
     (\<forall>s \<in> set (rcv_queue k) \<union> set (rcv_buf k). seg_received s) \<and>
     rcv_ordered (rcv_nxt k) (rcv_buf k)"
  by (simp add: wf_rcv_def rcv_ordered_def)

lemma move_wf_rcv: "wf_rcv k \<Longrightarrow> wf_rcv (move_rcv_buf k)"
proof (induction k rule: move_rcv_buf.induct)
  case (1 k)
  show ?case
  proof (cases "rcv_buf k")
    case Nil
    then show ?thesis using "1.prems" by (simp add: move_rcv_buf.simps)
  next
    case (Cons seg rest)
    show ?thesis
    proof (cases "seg_sn seg = rcv_nxt k \<and> nrcv_que k < rcv_wnd k")
      case False
      then show ?thesis
        using Cons "1.prems" by (auto simp: move_rcv_buf.simps [of k])
    next
      case True
      let ?k = "k\<lparr>rcv_buf := rest, nrcv_buf := nrcv_buf k - 1,
               rcv_queue := rcv_queue k @ [seg], nrcv_que := nrcv_que k + 1,
               rcv_nxt := rcv_nxt k + 1\<rparr>"
      have "unat (nrcv_que k) < unat (rcv_wnd k)" using True by (simp add: word_less_nat_alt)
      then have "length (rcv_queue k) + 1 < 2 ^ 32"
        using "1.prems" unat32_less [of "rcv_wnd k"] by (simp add: wf_rcv_alt unat_of_nat32)
      then have "wf_rcv ?k"
        using "1.prems" Cons True rcv_ordered_next [of seg rest]
        by (auto simp: wf_rcv_alt)
      then have "wf_rcv (move_rcv_buf ?k)" by (rule "1.IH" [OF Cons True])
      then show ?thesis
        using True Cons by (simp add: move_rcv_buf.simps [of k])
    qed
  qed
qed

section \<open>Merging fragments\<close>

text \<open>The first message of a queue: up to and including the first fragment numbered 0.\<close>

fun message_of :: "ikcpseg list \<Rightarrow> ikcpseg list \<times> ikcpseg list" where
  "message_of [] = ([], [])"
| "message_of (s # ss) =
     (if seg_frg s = 0 then ([s], ss)
      else (s # fst (message_of ss), snd (message_of ss)))"

definition merged_len :: "int \<Rightarrow> ikcpseg list \<Rightarrow> int" where
  "merged_len len m = foldl add_len len (map seg_len m)"

definition taken :: "ikcpseg list \<Rightarrow> ikcpseg list \<Rightarrow> ikcpcb \<Rightarrow> ikcpcb" where
  "taken m rest k =
     k\<lparr>rcv_queue := rest, mem := freed (length m) (mem k),
       nrcv_que := nrcv_que k - of_nat (length m)\<rparr>"

lemma message_of_append: "fst (message_of q) @ snd (message_of q) = q"
  by (induction q rule: message_of.induct) auto

lemma message_of_set: "set (snd (message_of q)) \<subseteq> set q" "set (fst (message_of q)) \<subseteq> set q"
  using message_of_append [of q] by (metis set_append sup_ge1 sup_ge2)+

lemma peek_length_merged: "peek_length q len = merged_len len (fst (message_of q))"
  by (induction q len rule: peek_length.induct) (auto simp: merged_len_def Let_def)

lemma recv_merge_peek:
  "recv_merge True buf q len out k =
     (merged_len len (fst (message_of q)),
      out @ (if buf then concat (map seg_bytes (fst (message_of q))) else []), k)"
  by (induction q arbitrary: len out) (auto simp: merged_len_def Let_def)

lemma recv_merge_take:
  "rcv_queue k = q \<Longrightarrow>
   recv_merge False buf q len out k =
     (merged_len len (fst (message_of q)),
      out @ (if buf then concat (map seg_bytes (fst (message_of q))) else []),
      taken (fst (message_of q)) (snd (message_of q)) k)"
proof (induction q arbitrary: len out k)
  case Nil
  then show ?case by (simp add: merged_len_def taken_def freed_def)
next
  case (Cons s q)
  let ?k = "k\<lparr>rcv_queue := q, mem := ikcp_segment_delete (mem k), nrcv_que := nrcv_que k - 1\<rparr>"
  have "taken m r ?k = taken (s # m) r k" for m r
    by (simp add: taken_def freed_def ikcp_segment_delete_def ikcp_free_def algebra_simps)
  moreover have "taken [s] q k = ?k"
    by (simp add: taken_def freed_def ikcp_segment_delete_def ikcp_free_def)
  moreover note Cons.IH [of ?k]
  ultimately show ?case
    using Cons.prems by (auto simp: merged_len_def Let_def)
qed

lemma recv_assert_holds_aux:
  assumes "rcv_queue k \<noteq> []" and "0 \<le> ikcp_peeksize k"
  shows "fst (recv_merge ispeek buf (rcv_queue k) 0 [] k) = ikcp_peeksize k"
proof -
  have "fst (recv_merge ispeek buf (rcv_queue k) 0 [] k) =
      merged_len 0 (fst (message_of (rcv_queue k)))"
    by (cases ispeek) (simp_all add: recv_merge_peek recv_merge_take)
  then show ?thesis
    using assms
    by (auto simp: ikcp_peeksize_def peek_length_merged merged_len_def add_len_def
        split: list.splits if_splits)
qed

text \<open>The two ways a call can end.\<close>

definition recv_done :: "bool \<Rightarrow> ikcpcb \<Rightarrow> ikcpcb" where
  "recv_done recover k =
     (let k = move_rcv_buf k
      in if nrcv_que k < rcv_wnd k \<and> recover
         then k\<lparr>probe := probe k OR IKCP_ASK_TELL\<rparr> else k)"

definition recv_taken :: "bool \<Rightarrow> ikcpcb \<Rightarrow> ikcpcb" where
  "recv_taken ispeek k =
     (if ispeek then k
      else taken (fst (message_of (rcv_queue k))) (snd (message_of (rcv_queue k))) k)"

definition recv_room :: "int \<Rightarrow> int" where
  "recv_room len = (if len < 0 then s32 (- len) else len)"

lemma recv_accepts:
  assumes "rcv_queue k \<noteq> []" and "0 \<le> ikcp_peeksize k" and "ikcp_peeksize k \<le> recv_room len"
  shows "ikcp_recv k buf len =
    (ikcp_peeksize k,
     (if buf then concat (map seg_bytes (fst (message_of (rcv_queue k)))) else []),
     recv_done (nrcv_que k \<ge> rcv_wnd k) (recv_taken (len < 0) k))"
proof -
  obtain n out k' where m: "recv_merge (len < 0) buf (rcv_queue k) 0 [] k = (n, out, k')"
    by (metis prod.exhaust)
  have "n = ikcp_peeksize k"
    using recv_assert_holds_aux [OF assms(1,2), of "len < 0" buf] m by simp
  moreover have "out = (if buf then concat (map seg_bytes (fst (message_of (rcv_queue k)))) else [])"
    and "k' = recv_taken (len < 0) k"
    using m by (cases "len < 0"; auto simp: recv_taken_def recv_merge_peek recv_merge_take)+
  ultimately show ?thesis
    using assms m unfolding ikcp_recv_def recv_room_def recv_done_def
    by (simp add: Let_def)
qed

lemma recv_rejects:
  assumes "rcv_queue k = [] \<or> ikcp_peeksize k < 0 \<or> recv_room len < ikcp_peeksize k"
  shows "\<exists>r \<in> {-1, -2, -3}. ikcp_recv k buf len = (r, [], k)"
proof -
  consider "rcv_queue k = []" | "rcv_queue k \<noteq> []" "ikcp_peeksize k < 0"
    | "rcv_queue k \<noteq> []" "\<not> ikcp_peeksize k < 0" "recv_room len < ikcp_peeksize k"
    using assms by blast
  then show ?thesis
    by cases (simp_all add: ikcp_recv_def recv_room_def)
qed

lemma recv_cases:
  obtains (rejected) r where "ikcp_recv k buf len = (r, [], k)" and "r \<in> {-1, -2, -3}"
    | (accepted) out where "ikcp_recv k buf len =
        (ikcp_peeksize k, out, recv_done (nrcv_que k \<ge> rcv_wnd k) (recv_taken (len < 0) k))"
      and "rcv_queue k \<noteq> []"
proof (cases "rcv_queue k = [] \<or> ikcp_peeksize k < 0 \<or> recv_room len < ikcp_peeksize k")
  case True
  then show ?thesis using recv_rejects rejected by blast
next
  case False
  then show ?thesis using recv_accepts accepted by (metis not_less)
qed

lemma taken_accounted: "accounted b k \<Longrightarrow> accounted b (recv_taken ispeek k)"
proof -
  have "length (fst (message_of q)) + length (snd (message_of q)) = length q" for q
    by (metis length_append message_of_append)
  from this [of "rcv_queue k"] show "accounted b k \<Longrightarrow> accounted b (recv_taken ispeek k)"
    by (simp add: accounted_def owned_def recv_taken_def taken_def freed_def)
qed

lemma move_accounted: "accounted b k \<Longrightarrow> accounted b (move_rcv_buf k)"
  using run_length_le [of "rcv_nxt k" "rcv_buf k"]
  unfolding move_eq_moved by (simp add: accounted_def owned_def moved_def)

lemma done_accounted: "accounted b k \<Longrightarrow> accounted b (recv_done rec k)"
  using move_accounted [of b k] by (simp add: recv_done_def Let_def accounted_def owned_def)

lemma recv_accounted: "accounted b k \<Longrightarrow> accounted b (snd (snd (ikcp_recv k buf len)))"
  by (cases rule: recv_cases [of k buf len]) (simp_all add: done_accounted taken_accounted)

lemma taken_wf: "kcp_wf k \<Longrightarrow> kcp_wf (recv_taken ispeek k)"
proof -
  assume wf: "kcp_wf k"
  have len: "length (fst (message_of (rcv_queue k))) + length (snd (message_of (rcv_queue k))) =
      length (rcv_queue k)"
    by (metis length_append message_of_append)
  have "nrcv_que k = of_nat (length (rcv_queue k))"
    using wf by (simp add: kcp_wf_def wf_rcv_def)
  then have "nrcv_que k - of_nat (length (fst (message_of (rcv_queue k)))) =
      of_nat (length (snd (message_of (rcv_queue k))))"
    by (simp flip: len)
  moreover have "length (snd (message_of (rcv_queue k))) \<le> length (rcv_queue k)"
    using len by simp
  ultimately show ?thesis
    using wf message_of_set(1) [of "rcv_queue k"]
    by (auto simp: recv_taken_def taken_def kcp_wf_def wf_buffer_def wf_snd_def wf_rcv_def
        wf_ack_def wf_time_def)
qed

lemma move_frame [frame_rules]:
  "mtu (move_rcv_buf k) = mtu k" "mss (move_rcv_buf k) = mss k"
  "buffer (move_rcv_buf k) = buffer k" "snd_queue (move_rcv_buf k) = snd_queue k"
  "snd_buf (move_rcv_buf k) = snd_buf k" "nsnd_que (move_rcv_buf k) = nsnd_que k"
  "nsnd_buf (move_rcv_buf k) = nsnd_buf k" "snd_una (move_rcv_buf k) = snd_una k"
  "snd_nxt (move_rcv_buf k) = snd_nxt k" "rmt_wnd (move_rcv_buf k) = rmt_wnd k"
  "acklist (move_rcv_buf k) = acklist k" "ackblock (move_rcv_buf k) = ackblock k"
  "ackcount (move_rcv_buf k) = ackcount k" "interval (move_rcv_buf k) = interval k"
  "rx_minrto (move_rcv_buf k) = rx_minrto k" "rx_rto (move_rcv_buf k) = rx_rto k"
  "rcv_wnd (move_rcv_buf k) = rcv_wnd k" "mem (move_rcv_buf k) = mem k"
  "conv (move_rcv_buf k) = conv k" "output_cb (move_rcv_buf k) = output_cb k"
  unfolding move_eq_moved moved_def by simp_all

lemma move_wf: "kcp_wf k \<Longrightarrow> kcp_wf (move_rcv_buf k)"
  using move_wf_rcv [of k]
  by (simp add: kcp_wf_def wf_buffer_def wf_snd_def wf_ack_def wf_time_def frame_rules)

lemma done_wf: "kcp_wf k \<Longrightarrow> kcp_wf (recv_done rec k)"
  using move_wf [of k] by (auto simp: recv_done_def Let_def wf_defs)

lemma recv_wf [wf_rules]: "kcp_wf k \<Longrightarrow> kcp_wf (snd (snd (ikcp_recv k buf len)))"
  by (cases rule: recv_cases [of k buf len]) (simp_all add: done_wf taken_wf)

section \<open>What a call delivers\<close>

lemma merged_len_sum:
  "merged_len (sint (word_of_int l :: u32)) m =
     sint (word_of_int l + sum_list (map seg_len m))"
proof (induction m arbitrary: l)
  case (Cons s m)
  have "add_len (sint (word_of_int l :: u32)) (seg_len s) = sint (word_of_int (l + uint (seg_len s)) :: u32)"
    by (simp add: add_len_def)
  then have "merged_len (sint (word_of_int l :: u32)) (s # m) =
      merged_len (sint (word_of_int (l + uint (seg_len s)) :: u32)) m"
    by (simp add: merged_len_def)
  then show ?case using Cons.IH [of "l + uint (seg_len s)"] by (simp add: add.assoc)
qed (simp add: merged_len_def)

lemma sound_len: "seg_sound s \<Longrightarrow> seg_len s = of_nat (length (seg_data s))"
  by (metis of_nat_unat seg_sound_def ucast_id)

lemma sum_seg_len:
  assumes "\<forall>s \<in> set m. seg_sound s"
  shows "sum_list (map seg_len m) = of_nat (length (concat (map seg_data m)))"
  using assms
proof (induction m)
  case (Cons s m)
  then show ?case by (simp add: sound_len)
qed simp

lemma merged_len_data:
  assumes "\<forall>s \<in> set m. seg_sound s" and "length (concat (map seg_data m)) < 2147483648"
  shows "merged_len 0 m = int (length (concat (map seg_data m)))"
  using merged_len_sum [of 0 m] sum_seg_len [OF assms(1)] assms(2)
    sint_small [of "of_nat (length (concat (map seg_data m)))"]
  by (simp add: unat_of_nat32)

lemma peeksize_merged:
  assumes "rcv_queue k = s # q" and "seg_frg s = 0 \<or> seg_frg s + 1 \<le> nrcv_que k"
  shows "ikcp_peeksize k = merged_len 0 (fst (message_of (rcv_queue k)))"
  using assms
  by (auto simp: ikcp_peeksize_def peek_length_merged merged_len_def add_len_def)

lemma sound_bytes: "\<forall>s \<in> set m. seg_sound s \<Longrightarrow> concat (map seg_bytes m) = concat (map seg_data m)"
  by (induction m) auto

lemma recv_message:
  fixes k :: ikcpcb
  defines "msg \<equiv> fst (message_of (rcv_queue k))"
    and "n \<equiv> min (run_length (rcv_nxt k) (rcv_buf k))
                (unat (rcv_wnd k) - length (snd (message_of (rcv_queue k))))"
  assumes "kcp_wf k" and "rcv_queue k = s # q"
    and "seg_frg s = 0 \<or> seg_frg s + 1 \<le> nrcv_que k"
    and "length (concat (map seg_data msg)) < 2 ^ 31"
    and "int (length (concat (map seg_data msg))) \<le> len"
  shows "\<exists>k'. ikcp_recv k True len =
      (int (length (concat (map seg_data msg))), concat (map seg_data msg), k') \<and>
    rcv_queue k' = snd (message_of (rcv_queue k)) @ take n (rcv_buf k) \<and>
    rcv_buf k' = drop n (rcv_buf k) \<and> rcv_nxt k' = rcv_nxt k + of_nat n"
proof -
  have sound: "\<forall>t \<in> set msg. seg_sound t"
    using assms(3) message_of_set(2) [of "rcv_queue k"]
    by (auto simp: kcp_wf_def wf_rcv_def seg_received_def msg_def)
  have peek: "ikcp_peeksize k = int (length (concat (map seg_data msg)))"
    using peeksize_merged [OF assms(4,5)] merged_len_data [OF sound] assms(6)
    by (simp add: msg_def)
  have "0 \<le> len" using assms(7) by linarith
  then have res: "ikcp_recv k True len = (int (length (concat (map seg_data msg))),
      concat (map seg_data msg),
      recv_done (nrcv_que k \<ge> rcv_wnd k) (recv_taken False k))"
    using recv_accepts [of k len True] assms(4,7) peek sound_bytes [OF sound]
    by (simp add: recv_room_def msg_def)
  have wf': "kcp_wf (recv_taken False k)" using assms(3) by (rule taken_wf)
  have "unat (nrcv_que (recv_taken False k)) = length (snd (message_of (rcv_queue k)))"
    using wf' by (simp add: kcp_wf_def wf_rcv_def unat_of_nat32)
      (simp add: recv_taken_def taken_def unat_of_nat32)
  then have "move_rcv_buf (recv_taken False k) = moved n (recv_taken False k)"
    unfolding move_eq_moved n_def by (simp add: recv_taken_def taken_def)
  then show ?thesis
    using res by (simp add: recv_done_def Let_def moved_def recv_taken_def taken_def)
qed

text \<open>
  C26: when all fragments of the first message are in the queue and the caller's buffer is
  large enough, \<open>ikcp_recv\<close> returns the length of the message and its bytes, removes
  exactly its segments, and refills the queue with the segments of the receive buffer that
  continue the sequence, as far as the receive window allows.
\<close>

theorem recv_delivers_message:
  fixes k :: ikcpcb
  defines "msg \<equiv> fst (message_of (rcv_queue k))"
    and "n \<equiv> min (run_length (rcv_nxt k) (rcv_buf k))
                (unat (rcv_wnd k) - length (snd (message_of (rcv_queue k))))"
  assumes "kcp_wf k" and "rcv_queue k = s # q"
    and "seg_frg s = 0 \<or> seg_frg s + 1 \<le> nrcv_que k"
    and "length (concat (map seg_data msg)) < 2 ^ 31"
    and "int (length (concat (map seg_data msg))) \<le> len"
  shows "\<exists>k'. ikcp_recv k True len =
      (int (length (concat (map seg_data msg))), concat (map seg_data msg), k') \<and>
    rcv_queue k' = snd (message_of (rcv_queue k)) @ take n (rcv_buf k) \<and>
    rcv_buf k' = drop n (rcv_buf k) \<and> rcv_nxt k' = rcv_nxt k + of_nat n"
  unfolding msg_def n_def
  using assms(3-7) unfolding msg_def by (rule recv_message)

text \<open>The fragments of one message at the front of a queue are what \<open>message_of\<close> finds.\<close>

lemma message_of_fragments:
  assumes "map seg_frg m = map seg_frg (fragments cs)" and "cs \<noteq> []" and "length cs \<le> 256"
  shows "message_of (m @ rest) = (m, rest)"
  using assms
proof (induction cs arbitrary: m)
  case (Cons c cs)
  then obtain s m' where m: "m = s # m'" "seg_frg s = of_nat (length cs)"
    "map seg_frg m' = map seg_frg (fragments cs)"
    by (cases m) (auto simp: data_segment_def)
  have "unat (of_nat (length cs) :: u32) = length cs"
    using Cons.prems(3) by (intro unat_of_nat32) simp
  then have "seg_frg s = 0 \<longleftrightarrow> cs = []" using m(2) by (metis length_0_conv unat_eq_0)
  then show ?case using m Cons by (cases "cs = []") auto
qed simp


end
