(* ===== verification/Ack.thy ===== *)
theory Ack
  imports Send
begin

text \<open>
  Acknowledgements (\<open>ikcp.c: ikcp_update_ack, ikcp_shrink_buf, ikcp_parse_ack,
  ikcp_parse_una, ikcp_ack_push, ikcp_ack_get\<close>): the estimate of the round-trip time, the
  removal of acknowledged segments from the send buffer, and the list of acknowledgements
  to be sent with the next flush.
\<close>

section \<open>Round-trip time\<close>

text \<open>
  \<open>rtt\<close> and the estimates are \<open>IINT32\<close>; \<open>delta\<close> is a \<open>long\<close> of 64 bits, so that only
  the results of \<open>int\<close> operations and the stores wrap at 32 bits.  C divides towards zero.
\<close>

definition ikcp_update_ack :: "ikcpcb \<Rightarrow> int \<Rightarrow> ikcpcb" where
  "ikcp_update_ack k rtt =
     (let k =
        (if rx_srtt k = 0 then k\<lparr>rx_srtt := rtt, rx_rttval := rtt sdiv 2\<rparr>
         else let delta = s32 (rtt - rx_srtt k);
                  delta = (if delta < 0 then - delta else delta);
                  k = k\<lparr>rx_rttval := s32 ((s32 (3 * rx_rttval k) + delta) sdiv 4)\<rparr>;
                  k = k\<lparr>rx_srtt := s32 (s32 (7 * rx_srtt k) + rtt) sdiv 8\<rparr>
              in if rx_srtt k < 1 then k\<lparr>rx_srtt := 1\<rparr> else k);
          rto = sint (word_of_int (rx_srtt k) + imax 1 (word_of_int (s32 (4 * rx_rttval k))))
      in k\<lparr>rx_rto := sint (ibound (word_of_int (rx_minrto k)) (word_of_int rto) IKCP_RTO_MAX)\<rparr>)"

section \<open>Removal from the send buffer\<close>

definition ikcp_shrink_buf :: "ikcpcb \<Rightarrow> ikcpcb" where
  "ikcp_shrink_buf k =
     (case snd_buf k of
        seg # _ \<Rightarrow> k\<lparr>snd_una := seg_sn seg\<rparr>
      | [] \<Rightarrow> k\<lparr>snd_una := snd_nxt k\<rparr>)"

text \<open>
  The loop of \<open>ikcp_parse_ack\<close>: the segments it passes count one more fast
  acknowledgement; the result says whether it found (and deleted) the segment.
\<close>

fun ack_scan :: "u32 \<Rightarrow> ikcpseg list \<Rightarrow> ikcpseg list \<times> bool" where
  "ack_scan sn [] = ([], False)"
| "ack_scan sn (seg # ps) =
     (if sn = seg_sn seg then (ps, True)
      else let (ps, found) = ack_scan sn ps
           in (seg\<lparr>seg_fastack := seg_fastack seg + 1\<rparr> # ps, found))"

definition ikcp_parse_ack :: "ikcpcb \<Rightarrow> u32 \<Rightarrow> ikcpcb" where
  "ikcp_parse_ack k sn =
     (if itimediff sn (snd_una k) < 0 \<or> itimediff sn (snd_nxt k) \<ge> 0 then k
      else let (segs, found) = ack_scan sn (snd_buf k);
               k = k\<lparr>snd_buf := segs\<rparr>
           in if found
              then k\<lparr>mem := ikcp_segment_delete (mem k), nsnd_buf := nsnd_buf k - 1\<rparr>
              else k)"

function ikcp_parse_una :: "ikcpcb \<Rightarrow> u32 \<Rightarrow> ikcpcb" where
  "ikcp_parse_una k una =
     (case snd_buf k of
        [] \<Rightarrow> k
      | seg # next \<Rightarrow>
          if itimediff una (seg_sn seg) > 0
          then ikcp_parse_una
            (k\<lparr>snd_buf := next, mem := ikcp_segment_delete (mem k),
               nsnd_buf := nsnd_buf k - 1\<rparr>) una
          else k)"
  by pat_completeness auto
termination
  by (relation "measure (\<lambda>(k, una). length (snd_buf k))") auto

declare ikcp_parse_una.simps [simp del]

section \<open>The acknowledge list\<close>

text \<open>\<open>for (newblock = 8; newblock < newsize; newblock <<= 1);\<close>\<close>

function grow_block :: "nat \<Rightarrow> nat \<Rightarrow> nat" where
  "grow_block newblock newsize =
     (if 0 < newblock \<and> newblock < newsize then grow_block (newblock * 2) newsize
      else newblock)"
  by pat_completeness auto
termination
  by (relation "measure (\<lambda>(b, n). n - b)") auto

declare grow_block.simps [simp del]

text \<open>
  The pairs of the old block that are in use are copied to the new one; fresh memory
  reads as zero.
\<close>

definition copy_acks :: "(u32 \<times> u32) list \<Rightarrow> nat \<Rightarrow> nat \<Rightarrow> (u32 \<times> u32) list" where
  "copy_acks old cnt newblock =
     map (\<lambda>x. if x < cnt then old ! x else (0, 0)) [0..<newblock]"

definition ack_grow :: "ikcpcb \<Rightarrow> nat \<Rightarrow> ikcpcb outcome" where
  "ack_grow k newsize =
     (let newblock = grow_block 8 newsize;
          (ok, m) = ikcp_malloc (mem k);
          k = k\<lparr>mem := m\<rparr>
      in if \<not> ok then Inl Aborted
         else bindE
           (case acklist k of
              None \<Rightarrow> Inr (copy_acks [] 0 newblock, mem k)
            | Some old \<Rightarrow>
                guardE (unat (ackcount k) \<le> length old \<and> unat (ackcount k) \<le> newblock)
                  Out_Of_Bounds
                  (Inr (copy_acks old (unat (ackcount k)) newblock, ikcp_free (mem k))))
           (\<lambda>(new, m). Inr (k\<lparr>mem := m, acklist := Some new, ackblock := of_nat newblock\<rparr>)))"

definition ikcp_ack_push :: "ikcpcb \<Rightarrow> u32 \<Rightarrow> u32 \<Rightarrow> ikcpcb outcome" where
  "ikcp_ack_push k sn ts =
     (let newsize = unat (ackcount k + 1) in
      bindE (if newsize > unat (ackblock k) then ack_grow k newsize else Inr k)
        (\<lambda>k. case acklist k of
               None \<Rightarrow> Inl Null_Deref
             | Some a \<Rightarrow>
                 guardE (unat (ackcount k) < length a) Out_Of_Bounds
                   (Inr (k\<lparr>acklist := Some (a[unat (ackcount k) := (sn, ts)]),
                           ackcount := ackcount k + 1\<rparr>))))"

definition ikcp_ack_get :: "ikcpcb \<Rightarrow> nat \<Rightarrow> (u32 \<times> u32) outcome" where
  "ikcp_ack_get k p =
     (case acklist k of
        None \<Rightarrow> Inl Null_Deref
      | Some a \<Rightarrow> guardE (p < length a) Out_Of_Bounds (Inr (a ! p)))"

text \<open>The acknowledgements waiting to be sent.\<close>

definition pending_acks :: "ikcpcb \<Rightarrow> (u32 \<times> u32) list" where
  "pending_acks k = (case acklist k of None \<Rightarrow> [] | Some a \<Rightarrow> take (unat (ackcount k)) a)"

section \<open>The acknowledge list is a growing array\<close>

lemma grow_block_props:
  assumes "0 < b" and "even b"
  shows "n \<le> grow_block b n" and "even (grow_block b n)" and "b \<le> grow_block b n"
  using assms
proof (induction b n rule: grow_block.induct)
  case (1 b n)
  {
    case 1
    then show ?case using "1.IH"(1) by (subst grow_block.simps) auto
  next
    case 2
    then show ?case using "1.IH"(2) by (subst grow_block.simps) auto
  next
    case 3
    then show ?case using "1.IH"(3) by (subst grow_block.simps) force
  }
qed

lemma copy_acks_props:
  "length (copy_acks old n b) = b"
  "n \<le> length old \<Longrightarrow> n \<le> b \<Longrightarrow> take n (copy_acks old n b) = take n old"
  by (auto simp: copy_acks_def intro: nth_equalityI)

text \<open>Which fields a push may change.\<close>

definition acks_set :: "(u32 \<times> u32) list \<Rightarrow> u32 \<Rightarrow> memory \<Rightarrow> ikcpcb \<Rightarrow> ikcpcb" where
  "acks_set a block m k = k\<lparr>mem := m, acklist := Some a, ackblock := block\<rparr>"

lemma acks_set_id: "acklist k = Some a \<Longrightarrow> acks_set a (ackblock k) (mem k) k = k"
  by (simp add: acks_set_def)

lemma ack_grow_result:
  assumes "wf_ack k" and "answers (mem k) 0" and "unat (ackcount k) < newsize"
  shows "\<exists>a block m. ack_grow k newsize = Inr (acks_set a block m k) \<and>
    newsize \<le> length a \<and> even (length a) \<and> unat block \<le> length a \<and>
    take (unat (ackcount k)) a = pending_acks k \<and>
    live m - (if acklist k = None then 1 else 0) = live (mem k) \<and>
    (plentiful (mem k) \<longrightarrow> plentiful m)"
proof -
  let ?b = "grow_block 8 newsize"
  have b: "newsize \<le> ?b" "even ?b" using grow_block_props [of 8 newsize] by auto
  have blk: "unat (of_nat ?b :: u32) \<le> ?b" by (simp add: unsigned_of_nat take_bit_eq_mod)
  show ?thesis
  proof (cases "acklist k")
    case None
    then have "ackcount k = 0" using assms(1) by (simp add: wf_ack_def)
    then show ?thesis
      using None b blk assms(2)
      by (intro exI [of _ "copy_acks [] 0 ?b"] exI [of _ "of_nat ?b"]
          exI [of _ "snd (ikcp_malloc (mem k))"])
        (simp add: ack_grow_def ikcp_malloc_def acks_set_def copy_acks_props pending_acks_def
          Let_def plentiful_def)
  next
    case (Some old)
    then have "unat (ackcount k) \<le> length old" using assms(1) by (simp add: wf_ack_def)
    then show ?thesis
      using Some b blk assms(2,3)
      by (intro exI [of _ "copy_acks old (unat (ackcount k)) ?b"] exI [of _ "of_nat ?b"]
          exI [of _ "ikcp_free (snd (ikcp_malloc (mem k)))"])
        (simp add: ack_grow_def ikcp_malloc_def acks_set_def copy_acks_props pending_acks_def
          Let_def plentiful_def)
  qed
qed

lemma ack_grow_refused:
  "\<not> answers (mem k) 0 \<Longrightarrow> ack_grow k newsize = Inl Aborted"
  by (simp add: ack_grow_def ikcp_malloc_def)

lemma ackcount_not_max:
  assumes "wf_ack k" and "\<not> unat (ackcount k + 1) > unat (ackblock k)"
  shows "\<exists>a. acklist k = Some a \<and> unat (ackcount k) < length a"
proof (cases "acklist k")
  case None
  then show ?thesis using assms by (simp add: wf_ack_def)
next
  case (Some a)
  then have a: "unat (ackblock k) \<le> length a" "unat (ackcount k) \<le> length a" "even (length a)"
    using assms(1) by (simp_all add: wf_ack_def)
  show ?thesis
  proof (cases "unat (ackcount k) + 1 < 4294967296")
    case True
    then have "unat (ackcount k + 1) = unat (ackcount k) + 1" by (subst unat_add32) auto
    then show ?thesis using a assms(2) Some by simp
  next
    case False
    then have "odd (unat (ackcount k))" using unat32_less [of "ackcount k"]
      by (metis (no_types) One_nat_def Suc_eq_plus1 even_Suc even_numeral linorder_neqE_nat not_less_eq)
    then show ?thesis using a Some by (metis le_neq_implies_less)
  qed
qed

text \<open>What a push does to the control block when it returns.\<close>

lemma ack_push_cases [consumes 1]:
  assumes "wf_ack k"
  obtains (refused) "ikcp_ack_push k sn ts = Inl Aborted" and "\<not> answers (mem k) 0"
      and "unat (ackblock k) < unat (ackcount k + 1)"
    | (pushed) a block m where "ikcp_ack_push k sn ts =
        Inr (acks_set (a[unat (ackcount k) := (sn, ts)]) block m k\<lparr>ackcount := ackcount k + 1\<rparr>)"
      and "unat (ackcount k) < length a" and "even (length a)" and "unat block \<le> length a"
      and "take (unat (ackcount k)) a = pending_acks k"
      and "live m - (if acklist k = None then 1 else 0) = live (mem k)"
      and "plentiful (mem k) \<longrightarrow> plentiful m"
proof (cases "unat (ackcount k + 1) > unat (ackblock k)")
  case grow: True
  show ?thesis
  proof (cases "answers (mem k) 0")
    case False
    then show ?thesis
      using grow refused by (simp add: ikcp_ack_push_def ack_grow_refused)
  next
    case True
    have "ackcount k + 1 \<noteq> 0" using grow by auto
    then have "unat (ackcount k) < unat (ackcount k + 1)"
      using unat_pred32 [of "ackcount k + 1"] by (simp add: unat_gt_0)
    from ack_grow_result [OF assms True this] obtain a block m where
      "ack_grow k (unat (ackcount k + 1)) = Inr (acks_set a block m k)"
      "unat (ackcount k + 1) \<le> length a" "even (length a)" "unat block \<le> length a"
      "take (unat (ackcount k)) a = pending_acks k"
      "live m - (if acklist k = None then 1 else 0) = live (mem k)"
      "plentiful (mem k) \<longrightarrow> plentiful m" by blast
    then show ?thesis
      using grow pushed [of a block m] \<open>unat (ackcount k) < unat (ackcount k + 1)\<close>
      by (simp add: ikcp_ack_push_def acks_set_def)
  qed
next
  case False
  from ackcount_not_max [OF assms False] obtain a where
    a: "acklist k = Some a" "unat (ackcount k) < length a" by blast
  then show ?thesis
    using False pushed [of a "ackblock k" "mem k"] assms
    by (simp add: ikcp_ack_push_def wf_ack_def acks_set_def pending_acks_def)
qed

lemma unat_add_le: "unat (x + 1 :: u32) \<le> unat x + 1"
  using unat_plus_if' [of x 1] by auto

lemma ack_push_wf_ack:
  assumes "wf_ack k" and "ikcp_ack_push k sn ts = Inr k'"
  shows "wf_ack k'"
  using assms(1)
proof (cases rule: ack_push_cases [of k sn ts])
  case (pushed a block m)
  have "unat (ackcount k + 1) \<le> length a"
    using pushed(2) unat_add_le [of "ackcount k"] by linarith
  then show ?thesis using pushed assms(2) by (auto simp: wf_ack_def acks_set_def)
qed (use assms in simp)

lemma ack_push_result:
  assumes "wf_ack k" and "unat (ackcount k) + 1 < 2 ^ 32"
  shows "case ikcp_ack_push k sn ts of
      Inl e \<Rightarrow> e = Aborted \<and> \<not> answers (mem k) 0 \<and> unat (ackblock k) < unat (ackcount k) + 1
    | Inr k' \<Rightarrow> pending_acks k' = pending_acks k @ [(sn, ts)] \<and> wf_ack k' \<and>
        (accounted b k \<longrightarrow> accounted b k')"
proof -
  have c: "unat (ackcount k + 1) = unat (ackcount k) + 1"
    using assms(2) by (subst unat_add32) auto
  from assms(1) show ?thesis
  proof (cases rule: ack_push_cases [of k sn ts])
    case refused
    then show ?thesis by (simp add: c)
  next
    case (pushed a block m)
    have "take (unat (ackcount k) + 1) (a[unat (ackcount k) := (sn, ts)]) =
        pending_acks k @ [(sn, ts)]"
      using pushed(2,5) by (simp add: take_Suc_conv_app_nth)
    then show ?thesis
      using pushed ack_push_wf_ack [OF assms(1) pushed(1)]
      by (auto simp: pending_acks_def acks_set_def accounted_def owned_def c)
  qed
qed

text \<open>
  \<open>ikcp_ack_push\<close> never writes outside its block: the pair is appended to the
  acknowledgements waiting to be sent, the earlier ones survive a reallocation, and the
  block that is replaced is freed.  It aborts exactly when a larger block is needed and the
  allocator refuses it.
\<close>

theorem ack_push_appends:
  assumes "wf_ack k" and "unat (ackcount k) + 1 < 2 ^ 32"
  shows "case ikcp_ack_push k sn ts of
      Inl e \<Rightarrow> e = Aborted \<and> \<not> answers (mem k) 0 \<and> unat (ackblock k) < unat (ackcount k) + 1
    | Inr k' \<Rightarrow> pending_acks k' = pending_acks k @ [(sn, ts)] \<and> wf_ack k' \<and>
        (accounted b k \<longrightarrow> accounted b k')"
  using assms by (rule ack_push_result)

section \<open>The send buffer stays in order\<close>

text \<open>The send buffer between \<open>snd_una\<close> and \<open>snd_nxt\<close>.\<close>

definition snd_ordered :: "u32 \<Rightarrow> ikcpseg list \<Rightarrow> u32 \<Rightarrow> bool" where
  "snd_ordered una ss nxt \<longleftrightarrow> sorted_wrt (<) (offsets una ss @ [unat (nxt - una)])"

lemma wf_snd_alt:
  "wf_snd k \<longleftrightarrow>
     nsnd_que k = of_nat (length (snd_queue k)) \<and> nsnd_buf k = of_nat (length (snd_buf k)) \<and>
     (\<forall>s \<in> set (snd_queue k) \<union> set (snd_buf k). seg_fits (mss k) s) \<and>
     snd_ordered (snd_una k) (snd_buf k) (snd_nxt k) \<and>
     first_sn (snd_nxt k) (snd_buf k) = snd_una k \<and>
     unat (snd_nxt k - snd_una k) < 65536 \<and> rmt_wnd k < 65536"
  by (simp add: wf_snd_def snd_ordered_def)

lemma snd_ordered_Cons:
  "snd_ordered una (s # ss) nxt \<longleftrightarrow>
     snd_ordered una ss nxt \<and> unat (seg_sn s - una) < unat (nxt - una) \<and>
     (\<forall>t \<in> set ss. unat (seg_sn s - una) < unat (seg_sn t - una))"
  by (auto simp: snd_ordered_def set_offsets)

lemma snd_ordered_Nil [simp]: "snd_ordered una [] nxt"
  by (simp add: snd_ordered_def)

lemma offsets_sn: "offsets una ss = map (\<lambda>x. unat (x - una)) (map seg_sn ss)"
  by (simp add: offsets_def)

lemma snd_ordered_sn:
  "map seg_sn ss = map seg_sn ts \<Longrightarrow> snd_ordered una ss nxt = snd_ordered una ts nxt"
  by (simp only: snd_ordered_def offsets_sn)

lemma snd_ordered_later:
  assumes "snd_ordered una ss nxt" and "unat (v - una) \<le> unat (nxt - una)"
    and "\<forall>t \<in> set ss. unat (v - una) \<le> unat (seg_sn t - una)"
  shows "snd_ordered v ss nxt"
  using assms
proof (induction ss)
  case (Cons s ss)
  have n: "unat (nxt - v) = unat (nxt - una) - unat (v - una)"
    using Cons.prems(2) by (rule offset_diff)
  have d: "unat (seg_sn t - v) = unat (seg_sn t - una) - unat (v - una)" if "t \<in> set (s # ss)" for t
    using Cons.prems(3) that by (intro offset_diff) blast
  have o: "snd_ordered una ss nxt" "unat (seg_sn s - una) < unat (nxt - una)"
    "\<forall>t \<in> set ss. unat (seg_sn s - una) < unat (seg_sn t - una)"
    using Cons.prems(1) by (simp_all add: snd_ordered_Cons)
  have v: "unat (v - una) \<le> unat (seg_sn s - una)" using Cons.prems(3) by simp
  show ?case
    unfolding snd_ordered_Cons
  proof (intro conjI ballI)
    show "snd_ordered v ss nxt" using Cons o by simp
    have ds: "unat (seg_sn s - v) = unat (seg_sn s - una) - unat (v - una)" by (rule d) simp
    show "unat (seg_sn s - v) < unat (nxt - v)" unfolding ds n using o(2) v by linarith
    fix t assume t: "t \<in> set ss"
    then have "unat (seg_sn s - una) < unat (seg_sn t - una)" using o(3) by blast
    moreover have "unat (seg_sn t - v) = unat (seg_sn t - una) - unat (v - una)"
      using t by (intro d) simp
    ultimately show "unat (seg_sn s - v) < unat (seg_sn t - v)" unfolding ds using v by linarith
  qed
qed simp

lemma snd_ordered_head:
  assumes "snd_ordered una (s # ss) nxt"
  shows "snd_ordered (seg_sn s) (s # ss) nxt"
    and "unat (nxt - seg_sn s) \<le> unat (nxt - una)"
proof -
  have o: "unat (seg_sn s - una) < unat (nxt - una)"
    "\<forall>t \<in> set ss. unat (seg_sn s - una) < unat (seg_sn t - una)"
    using assms by (simp_all add: snd_ordered_Cons)
  show "snd_ordered (seg_sn s) (s # ss) nxt"
  proof (rule snd_ordered_later [OF assms])
    show "unat (seg_sn s - una) \<le> unat (nxt - una)" using o(1) by (rule less_imp_le)
    show "\<forall>t \<in> set (s # ss). unat (seg_sn s - una) \<le> unat (seg_sn t - una)"
      using o(2) less_imp_le by (simp only: list.set ball_simps) blast
  qed
  have "unat (nxt - seg_sn s) = unat (nxt - una) - unat (seg_sn s - una)"
    using o(1) by (intro offset_diff) (rule less_imp_le)
  then show "unat (nxt - seg_sn s) \<le> unat (nxt - una)" by linarith
qed

text \<open>
  The invariant of the sender in the middle of \<open>ikcp_input\<close>, after acknowledged segments
  have been removed and before \<open>ikcp_shrink_buf\<close> has moved \<open>snd_una\<close>.
\<close>

definition wf_snd_open :: "ikcpcb \<Rightarrow> bool" where
  "wf_snd_open k \<longleftrightarrow>
     nsnd_que k = of_nat (length (snd_queue k)) \<and> nsnd_buf k = of_nat (length (snd_buf k)) \<and>
     (\<forall>s \<in> set (snd_queue k) \<union> set (snd_buf k). seg_fits (mss k) s) \<and>
     snd_ordered (snd_una k) (snd_buf k) (snd_nxt k) \<and>
     unat (snd_nxt k - snd_una k) < 65536 \<and> rmt_wnd k < 65536"

lemma wf_snd_open: "wf_snd k \<Longrightarrow> wf_snd_open k"
  by (simp add: wf_snd_alt wf_snd_open_def)

lemma shrink_wf_snd:
  assumes "wf_snd_open k"
  shows "wf_snd (ikcp_shrink_buf k)"
proof (cases "snd_buf k")
  case Nil
  then show ?thesis
    using assms by (simp add: ikcp_shrink_buf_def wf_snd_open_def wf_snd_alt)
next
  case (Cons s ss)
  then show ?thesis
    using assms snd_ordered_head [of "snd_una k" s ss "snd_nxt k"]
    by (simp add: ikcp_shrink_buf_def wf_snd_open_def wf_snd_alt)
qed

lemma parse_una_open: "wf_snd_open k \<Longrightarrow> wf_snd_open (ikcp_parse_una k una)"
proof (induction k una rule: ikcp_parse_una.induct)
  case (1 k una)
  show ?case
  proof (cases "snd_buf k")
    case Nil
    then show ?thesis using "1.prems" by (simp add: ikcp_parse_una.simps)
  next
    case (Cons seg rest)
    show ?thesis
    proof (cases "itimediff una (seg_sn seg) > 0")
      case True
      have "wf_snd_open (k\<lparr>snd_buf := rest, mem := ikcp_segment_delete (mem k),
          nsnd_buf := nsnd_buf k - 1\<rparr>)"
        using "1.prems" Cons by (auto simp: wf_snd_open_def snd_ordered_Cons)
      then show ?thesis
        using "1.IH" [OF Cons True] Cons True by (simp add: ikcp_parse_una.simps [of k])
    qed (use Cons "1.prems" in \<open>simp add: ikcp_parse_una.simps [of k]\<close>)
  qed
qed

subsection \<open>Cumulative acknowledgement\<close>

definition dropped :: "nat \<Rightarrow> ikcpcb \<Rightarrow> ikcpcb" where
  "dropped n k =
     k\<lparr>snd_buf := drop n (snd_buf k), mem := freed n (mem k),
       nsnd_buf := nsnd_buf k - of_nat n\<rparr>"

lemma parse_una_dropped:
  "ikcp_parse_una k una =
     dropped (length (takeWhile (\<lambda>s. itimediff una (seg_sn s) > 0) (snd_buf k))) k"
proof (induction k una rule: ikcp_parse_una.induct)
  case (1 k una)
  show ?case
  proof (cases "snd_buf k")
    case Nil
    then show ?thesis by (simp add: ikcp_parse_una.simps dropped_def)
  next
    case (Cons seg rest)
    let ?k = "k\<lparr>snd_buf := rest, mem := ikcp_segment_delete (mem k), nsnd_buf := nsnd_buf k - 1\<rparr>"
    have "dropped n ?k = dropped (Suc n) k" for n
      using Cons by (simp add: dropped_def ikcp_segment_delete_def algebra_simps)
    moreover have "dropped 0 k = k" by (simp add: dropped_def)
    ultimately show ?thesis
      using "1.IH" [OF Cons] Cons by (simp add: ikcp_parse_una.simps [of k])
  qed
qed

lemma dropWhile_sorted:
  fixes f :: "'a \<Rightarrow> nat"
  assumes "sorted_wrt (<) (map f xs)"
  shows "dropWhile (\<lambda>x. f x < c) xs = filter (\<lambda>x. c \<le> f x) xs"
  using assms
proof (induction xs)
  case (Cons x xs)
  show ?case
  proof (cases "f x < c")
    case False
    then have "\<forall>y \<in> set xs. c \<le> f y" using Cons.prems by auto
    then show ?thesis using False by simp
  qed (use Cons in simp)
qed simp

lemma snd_ordered_window:
  assumes "snd_ordered una ss nxt" and "s \<in> set ss"
  shows "unat (seg_sn s - una) < unat (nxt - una)"
  using assms by (induction ss) (auto simp: snd_ordered_Cons)

text \<open>
  For a cumulative acknowledgement between \<open>snd_una\<close> and \<open>snd_nxt\<close>,
  \<open>ikcp_parse_una\<close> removes from the send buffer exactly the segments before it, across a
  wrap-around of the sequence numbers too.
\<close>

theorem parse_una_exact:
  assumes "wf_snd k" and "unat (una - snd_una k) \<le> unat (snd_nxt k - snd_una k)"
  shows "snd_buf (ikcp_parse_una k una) =
    filter (\<lambda>s. unat (una - snd_una k) \<le> unat (seg_sn s - snd_una k)) (snd_buf k)"
proof -
  have o: "snd_ordered (snd_una k) (snd_buf k) (snd_nxt k)"
    and w: "unat (snd_nxt k - snd_una k) < 65536"
    using assms(1) by (simp_all add: wf_snd_alt)
  have cmp: "itimediff una (seg_sn s) > 0 \<longleftrightarrow>
      unat (seg_sn s - snd_una k) < unat (una - snd_una k)" if "s \<in> set (snd_buf k)" for s
    using snd_ordered_window [OF o that] assms(2) w by (intro itimediff_offsets) linarith+
  have "snd_buf (ikcp_parse_una k una) =
      dropWhile (\<lambda>s. itimediff una (seg_sn s) > 0) (snd_buf k)"
    by (simp add: parse_una_dropped dropped_def dropWhile_eq_drop)
  also have "\<dots> = dropWhile (\<lambda>s. unat (seg_sn s - snd_una k) < unat (una - snd_una k)) (snd_buf k)"
    using cmp by (intro dropWhile_cong) auto
  also have "sorted_wrt (<) (map (\<lambda>s. unat (seg_sn s - snd_una k)) (snd_buf k))"
    using o by (simp add: snd_ordered_def sorted_wrt_append offsets_def)
  note dropWhile_sorted [OF this, of "unat (una - snd_una k)"]
  finally show ?thesis .
qed

subsection \<open>Selective acknowledgement\<close>

definition bump :: "ikcpseg \<Rightarrow> ikcpseg" where
  "bump s = s\<lparr>seg_fastack := seg_fastack s + 1\<rparr>"

lemma bump_simps [simp]:
  "seg_sn (bump s) = seg_sn s" "seg_len (bump s) = seg_len s" "seg_data (bump s) = seg_data s"
  "seg_frg (bump s) = seg_frg s" "seg_fits m (bump s) = seg_fits m s"
  by (simp_all add: bump_def seg_fits_def seg_sound_def)

lemma ack_scan_split:
  "ack_scan sn ss =
     (let pre = takeWhile (\<lambda>s. seg_sn s \<noteq> sn) ss
      in (map bump pre @ drop (Suc (length pre)) ss, sn \<in> seg_sn ` set ss))"
  by (induction ss) (auto simp: Let_def bump_def)

text \<open>
  An acknowledgement of a number in the window removes exactly that segment; the
  segments in front of it count one more fast acknowledgement.  When no segment of that
  number is in the buffer (it was acknowledged before), every segment of the buffer counts
  one more, those sent later included.  A number outside the window changes nothing.
\<close>

lemma parse_ack_exact:
  "snd_buf (ikcp_parse_ack k sn) =
     (if itimediff sn (snd_una k) < 0 \<or> itimediff sn (snd_nxt k) \<ge> 0 then snd_buf k
      else let pre = takeWhile (\<lambda>s. seg_sn s \<noteq> sn) (snd_buf k)
           in map bump pre @ drop (Suc (length pre)) (snd_buf k))"
  by (auto simp: ikcp_parse_ack_def ack_scan_split Let_def)

lemma ack_scan_ordered:
  "snd_ordered una ss nxt \<Longrightarrow> snd_ordered una (fst (ack_scan sn ss)) nxt \<and>
   seg_sn ` set (fst (ack_scan sn ss)) \<subseteq> seg_sn ` set ss"
proof (induction ss)
  case (Cons s ss)
  obtain ps found where ps: "ack_scan sn ss = (ps, found)" by (cases "ack_scan sn ss")
  have o: "snd_ordered una ss nxt" "unat (seg_sn s - una) < unat (nxt - una)"
    "\<forall>t \<in> set ss. unat (seg_sn s - una) < unat (seg_sn t - una)"
    using Cons.prems by (simp_all add: snd_ordered_Cons)
  have IH: "snd_ordered una ps nxt" "seg_sn ` set ps \<subseteq> seg_sn ` set ss"
    using Cons.IH [OF o(1)] ps by simp_all
  have "unat (seg_sn s - una) < unat (seg_sn t - una)" if "t \<in> set ps" for t
  proof -
    obtain u where u: "u \<in> set ss" "seg_sn t = seg_sn u" using IH(2) \<open>t \<in> set ps\<close> by blast
    show ?thesis unfolding u(2) using o(3) u(1) by blast
  qed
  moreover have "fst (ack_scan sn (s # ss)) =
      (if sn = seg_sn s then ss else s\<lparr>seg_fastack := seg_fastack s + 1\<rparr> # ps)"
    using ps by simp
  ultimately show ?case
    using o(1,2) IH by (simp add: snd_ordered_Cons) blast
qed simp

lemma seg_fits_fastack [simp]: "seg_fits m (s\<lparr>seg_fastack := x\<rparr>) = seg_fits m s"
  by (simp add: seg_fits_def seg_sound_def)

lemma ack_scan_fits:
  "\<forall>s \<in> set ss. seg_fits m s \<Longrightarrow> \<forall>s \<in> set (fst (ack_scan sn ss)). seg_fits m s"
proof (induction ss)
  case (Cons s ss)
  then show ?case by (cases "ack_scan sn ss") simp
qed simp

lemma ack_scan_length:
  "length ss = length (fst (ack_scan sn ss)) + (if snd (ack_scan sn ss) then 1 else 0)"
  by (induction ss) (auto simp: Let_def split: prod.split)

lemma parse_ack_fields:
  "\<exists>segs found. ack_scan sn (snd_buf k) = (segs, found) \<and>
     (ikcp_parse_ack k sn = k \<or>
      ikcp_parse_ack k sn = k\<lparr>snd_buf := segs\<rparr> \<and> \<not> found \<or>
      ikcp_parse_ack k sn = k\<lparr>snd_buf := segs, mem := ikcp_free (mem k),
        nsnd_buf := nsnd_buf k - 1\<rparr> \<and> found)"
  by (cases "ack_scan sn (snd_buf k)"; cases "snd (ack_scan sn (snd_buf k))")
    (auto simp: ikcp_parse_ack_def ikcp_segment_delete_def)

lemma parse_ack_open:
  assumes "wf_snd_open k"
  shows "wf_snd_open (ikcp_parse_ack k sn)"
proof -
  from parse_ack_fields obtain segs found where
    scan: "ack_scan sn (snd_buf k) = (segs, found)" and
    res: "ikcp_parse_ack k sn = k \<or>
      ikcp_parse_ack k sn = k\<lparr>snd_buf := segs\<rparr> \<and> \<not> found \<or>
      ikcp_parse_ack k sn = k\<lparr>snd_buf := segs, mem := ikcp_free (mem k),
        nsnd_buf := nsnd_buf k - 1\<rparr> \<and> found" by blast
  have "snd_ordered (snd_una k) segs (snd_nxt k)" "\<forall>s \<in> set segs. seg_fits (mss k) s"
    using assms scan ack_scan_ordered [of "snd_una k" "snd_buf k" "snd_nxt k" sn]
      ack_scan_fits [of "snd_buf k" "mss k" sn]
    by (auto simp: wf_snd_open_def)
  then show ?thesis
    using assms res ack_scan_length [of "snd_buf k" sn] scan
    by (auto simp: wf_snd_open_def)
qed

lemma parse_ack_accounted: "accounted b k \<Longrightarrow> accounted b (ikcp_parse_ack k sn)"
  using parse_ack_fields [of sn k] ack_scan_length [of "snd_buf k" sn]
  by (auto simp: accounted_def owned_def)

lemma dropped_accounted:
  "accounted b k \<Longrightarrow> n \<le> length (snd_buf k) \<Longrightarrow> accounted b (dropped n k)"
  by (simp add: dropped_def accounted_def owned_def of_nat_diff)

lemma parse_una_accounted: "accounted b k \<Longrightarrow> accounted b (ikcp_parse_una k una)"
  unfolding parse_una_dropped by (intro dropped_accounted length_takeWhile_le)

lemma shrink_accounted: "accounted b k \<Longrightarrow> accounted b (ikcp_shrink_buf k)"
  by (simp add: ikcp_shrink_buf_def accounted_def owned_def split: list.split)

section \<open>The estimate of the round-trip time\<close>

lemma ibound_range:
  "l \<le> u \<Longrightarrow> l \<le> ibound l x u \<and> ibound l x u \<le> u"
  by (auto simp: ibound_def imin_def imax_def)

lemma update_ack_rto_range:
  assumes "0 \<le> rx_minrto k" and "rx_minrto k \<le> 60000"
  shows "rx_minrto k \<le> rx_rto (ikcp_update_ack k rtt) \<and> rx_rto (ikcp_update_ack k rtt) \<le> 60000"
proof -
  have m: "uint (word_of_int (rx_minrto k) :: u32) = rx_minrto k"
    using assms by (simp add: uint_word_of_int)
  define r where "r = (\<lambda>x :: u32. ibound (word_of_int (rx_minrto k)) x 60000)"
  have r: "rx_minrto k \<le> uint (r x) \<and> uint (r x) \<le> 60000" for x
    using ibound_range [of "word_of_int (rx_minrto k)" 60000 x] m assms
    by (simp add: r_def word_le_def)
  have "sint (r x) = uint (r x)" for x
  proof -
    have "uint (r x) < 2147483648" using r [of x] by linarith
    then show ?thesis by (simp add: sint_uint_cases)
  qed
  then have "rx_minrto k \<le> sint (r x) \<and> sint (r x) \<le> 60000" for x using r by simp
  then show ?thesis by (simp add: ikcp_update_ack_def Let_def r_def)
qed

text \<open>
  Whatever round-trip time an acknowledgement yields, the retransmission timeout stays
  between the configured minimum and 60 seconds.
\<close>

theorem update_ack_rto_bounds:
  assumes "0 \<le> rx_minrto k" and "rx_minrto k \<le> 60000"
  shows "rx_minrto k \<le> rx_rto (ikcp_update_ack k rtt) \<and> rx_rto (ikcp_update_ack k rtt) \<le> 60000"
  using assms by (rule update_ack_rto_range)

lemma update_ack_frame [frame_rules]:
  "mtu (ikcp_update_ack k rtt) = mtu k" "mss (ikcp_update_ack k rtt) = mss k"
  "buffer (ikcp_update_ack k rtt) = buffer k" "snd_queue (ikcp_update_ack k rtt) = snd_queue k"
  "snd_buf (ikcp_update_ack k rtt) = snd_buf k" "nsnd_que (ikcp_update_ack k rtt) = nsnd_que k"
  "nsnd_buf (ikcp_update_ack k rtt) = nsnd_buf k" "snd_una (ikcp_update_ack k rtt) = snd_una k"
  "snd_nxt (ikcp_update_ack k rtt) = snd_nxt k" "rmt_wnd (ikcp_update_ack k rtt) = rmt_wnd k"
  "rcv_queue (ikcp_update_ack k rtt) = rcv_queue k" "rcv_buf (ikcp_update_ack k rtt) = rcv_buf k"
  "nrcv_que (ikcp_update_ack k rtt) = nrcv_que k" "nrcv_buf (ikcp_update_ack k rtt) = nrcv_buf k"
  "rcv_nxt (ikcp_update_ack k rtt) = rcv_nxt k" "rcv_wnd (ikcp_update_ack k rtt) = rcv_wnd k"
  "acklist (ikcp_update_ack k rtt) = acklist k" "ackblock (ikcp_update_ack k rtt) = ackblock k"
  "ackcount (ikcp_update_ack k rtt) = ackcount k" "interval (ikcp_update_ack k rtt) = interval k"
  "rx_minrto (ikcp_update_ack k rtt) = rx_minrto k" "mem (ikcp_update_ack k rtt) = mem k"
  "conv (ikcp_update_ack k rtt) = conv k" "output_cb (ikcp_update_ack k rtt) = output_cb k"
  "current (ikcp_update_ack k rtt) = current k" "updated (ikcp_update_ack k rtt) = updated k"
  "snd_wnd (ikcp_update_ack k rtt) = snd_wnd k" "probe (ikcp_update_ack k rtt) = probe k"
  by (simp_all add: ikcp_update_ack_def Let_def)

lemma rx_rto_update_ack:
  "rx_rto (ikcp_update_ack k rtt) =
     sint (ibound (word_of_int (rx_minrto k))
       (word_of_int (sint (word_of_int (rx_srtt (ikcp_update_ack k rtt)) +
          imax 1 (word_of_int (s32 (4 * rx_rttval (ikcp_update_ack k rtt)))))))
       IKCP_RTO_MAX)"
  by (simp add: ikcp_update_ack_def Let_def)

lemma sdiv_pos: "0 \<le> a \<Longrightarrow> 0 < b \<Longrightarrow> a sdiv b = a div b" for a b :: int
  by (cases "a = 0") (simp_all add: signed_divide_int_def)

lemma ibound_sint:
  assumes "0 \<le> l" "l \<le> 60000" "0 \<le> x" "x < 2147483648"
  shows "sint (ibound (word_of_int l) (word_of_int x) 60000) = min (max l x) 60000"
proof -
  have u: "uint (word_of_int l :: u32) = l" "uint (word_of_int x :: u32) = x"
    using assms by (simp_all add: uint_word_of_int)
  then have "uint (ibound (word_of_int l) (word_of_int x) 60000) = min (max l x) 60000"
    by (auto simp: ibound_def imin_def imax_def word_le_def)
  then show ?thesis unfolding sint_uint_cases using assms by simp
qed

lemma imax_one:
  assumes "0 \<le> x" "x < 2147483648"
  shows "imax 1 (word_of_int x) = word_of_int (max 1 x)"
proof -
  have "uint (word_of_int x :: u32) = x" using assms by (simp add: uint_word_of_int)
  then show ?thesis by (auto simp: imax_def word_le_def)
qed

lemma rto_of:
  assumes "0 \<le> l" "l \<le> 60000" "1 \<le> s" "s < 268435456" "0 \<le> v" "v < 268435456"
  shows "sint (ibound (word_of_int l)
      (word_of_int (sint (word_of_int s + imax 1 (word_of_int (s32 (4 * v)))))) 60000) =
    min (max l (s + max 1 (4 * v))) 60000"
proof -
  have "s32 (4 * v) = 4 * v" using assms by (intro s32_id) auto
  moreover have "imax 1 (word_of_int (4 * v)) = word_of_int (max 1 (4 * v))"
    using assms by (intro imax_one) auto
  moreover have "(word_of_int s + word_of_int (max 1 (4 * v)) :: u32) =
      word_of_int (s + max 1 (4 * v))" by simp
  ultimately have "(word_of_int (sint (word_of_int s + imax 1 (word_of_int (s32 (4 * v))))) :: u32) =
      word_of_int (s + max 1 (4 * v))" by simp
  then show ?thesis using assms by (simp only:) (rule ibound_sint, auto)
qed

text \<open>
  C29: while the samples and the estimates stay below \<open>2^28\<close> milliseconds no step of the
  computation overflows, and the update is the exponential smoothing of the round-trip time
  and of its deviation, with the timeout clamped to its bounds.
\<close>

theorem update_ack_smooths:
  assumes "0 \<le> rtt" "rtt < 2 ^ 28" "0 < rx_srtt k" "rx_srtt k < 2 ^ 28"
    "0 \<le> rx_rttval k" "rx_rttval k < 2 ^ 28" "0 \<le> rx_minrto k" "rx_minrto k \<le> 60000"
  defines "srtt \<equiv> max 1 ((7 * rx_srtt k + rtt) div 8)"
    and "rttval \<equiv> (3 * rx_rttval k + \<bar>rtt - rx_srtt k\<bar>) div 4"
  shows "rx_srtt (ikcp_update_ack k rtt) = srtt \<and> rx_rttval (ikcp_update_ack k rtt) = rttval \<and>
    rx_rto (ikcp_update_ack k rtt) = min (max (rx_minrto k) (srtt + max 1 (4 * rttval))) 60000 \<and>
    srtt < 2 ^ 28 \<and> rttval < 2 ^ 28"
proof -
  have d: "s32 (rtt - rx_srtt k) = rtt - rx_srtt k" using assms by (intro s32_id) auto
  have dv: "(if rtt - rx_srtt k < 0 then - (rtt - rx_srtt k) else rtt - rx_srtt k) =
      \<bar>rtt - rx_srtt k\<bar>" by simp
  have v1: "s32 (3 * rx_rttval k) = 3 * rx_rttval k" using assms by (intro s32_id) auto
  have v2: "(3 * rx_rttval k + \<bar>rtt - rx_srtt k\<bar>) sdiv 4 = rttval"
    using assms by (simp add: sdiv_pos)
  have rv: "0 \<le> rttval" "rttval < 2 ^ 28" using assms unfolding rttval_def by auto
  have v3: "s32 rttval = rttval" using rv by (intro s32_id) auto
  have s1: "s32 (7 * rx_srtt k) = 7 * rx_srtt k" "s32 (7 * rx_srtt k + rtt) = 7 * rx_srtt k + rtt"
    using assms by (auto intro!: s32_id)
  have s2: "(7 * rx_srtt k + rtt) sdiv 8 = (7 * rx_srtt k + rtt) div 8"
    using assms by (simp add: sdiv_pos)
  have sr: "1 \<le> srtt" "srtt < 2 ^ 28" using assms unfolding srtt_def by auto
  have ne: "rx_srtt k \<noteq> 0" using assms by simp
  have srtt': "rx_srtt (ikcp_update_ack k rtt) = srtt"
    using ne by (simp add: ikcp_update_ack_def Let_def s1 s2 srtt_def)
  have rttval': "rx_rttval (ikcp_update_ack k rtt) = rttval"
  proof (cases "rtt - rx_srtt k < 0")
    case True
    then have "(3 * rx_rttval k + - (rtt - rx_srtt k)) sdiv 4 = rttval" using v2 by simp
    then show ?thesis using ne True v3 by (simp add: ikcp_update_ack_def Let_def d v1)
  next
    case False
    then have "(3 * rx_rttval k + (rtt - rx_srtt k)) sdiv 4 = rttval" using v2 by simp
    then show ?thesis using ne False v3 by (simp add: ikcp_update_ack_def Let_def d v1)
  qed
  have "rx_rto (ikcp_update_ack k rtt) =
      min (max (rx_minrto k) (srtt + max 1 (4 * rttval))) 60000"
    using rto_of [of "rx_minrto k" srtt rttval] sr rv assms(7,8) srtt' rttval'
    by (simp add: rx_rto_update_ack)
  then show ?thesis using srtt' rttval' sr rv by simp
qed

end
