(* ===== verification/Input.thy ===== *)
theory Input
  imports Recv Ack
begin

text \<open>
  Incoming datagrams (\<open>ikcp.c: ikcp_parse_data, ikcp_input\<close>): a datagram is a sequence of
  segments, each a header with its payload; every segment updates the sender (remote window,
  acknowledgements) and, by its command, the receive buffer, the acknowledge list or the
  probe flags.  When the whole datagram has been read the congestion window grows.
\<close>

section \<open>The operations\<close>

text \<open>
  The search of \<open>ikcp_parse_data\<close> for the place of a new segment runs from the end of the
  receive buffer; the list is in reverse.  \<open>None\<close> is a segment already in the buffer.
\<close>

fun insert_back :: "ikcpseg \<Rightarrow> ikcpseg list \<Rightarrow> ikcpseg list option" where
  "insert_back newseg [] = Some [newseg]"
| "insert_back newseg (seg # prev) =
     (if seg_sn seg = seg_sn newseg then None
      else if itimediff (seg_sn newseg) (seg_sn seg) > 0 then Some (newseg # seg # prev)
      else map_option ((#) seg) (insert_back newseg prev))"

definition ikcp_parse_data :: "ikcpcb \<Rightarrow> ikcpseg \<Rightarrow> ikcpcb" where
  "ikcp_parse_data k newseg =
     (let sn = seg_sn newseg in
      if itimediff sn (rcv_nxt k + rcv_wnd k) \<ge> 0 \<or> itimediff sn (rcv_nxt k) < 0
      then k\<lparr>mem := ikcp_segment_delete (mem k)\<rparr>
      else let k = (case insert_back newseg (rev (rcv_buf k)) of
                      Some buf \<Rightarrow> k\<lparr>rcv_buf := rev buf, nrcv_buf := nrcv_buf k + 1\<rparr>
                    | None \<Rightarrow> k\<lparr>mem := ikcp_segment_delete (mem k)\<rparr>)
           in move_rcv_buf k)"

text \<open>The segment \<open>ikcp_input\<close> builds from a header and its payload.\<close>

definition received_segment :: "header \<Rightarrow> u8 list \<Rightarrow> ikcpseg \<Rightarrow> ikcpseg" where
  "received_segment h payload seg =
     seg\<lparr>seg_conv := h_conv h, seg_cmd := ucast (h_cmd h), seg_frg := ucast (h_frg h),
         seg_wnd := ucast (h_wnd h), seg_ts := h_ts h, seg_sn := h_sn h, seg_una := h_una h,
         seg_len := h_len h,
         seg_data := (if h_len h > 0 then payload else seg_data seg)\<rparr>"

text \<open>\<open>IKCP_CMD_PUSH\<close>; the segment is used without a check for the null pointer.\<close>

definition input_push :: "ikcpcb \<Rightarrow> header \<Rightarrow> u8 list \<Rightarrow> ikcpcb outcome" where
  "input_push k h payload =
     (if itimediff (h_sn h) (rcv_nxt k + rcv_wnd k) < 0
      then bindE (ikcp_ack_push k (h_sn h) (h_ts h)) (\<lambda>k.
        if itimediff (h_sn h) (rcv_nxt k) \<ge> 0
        then let (seg, m) = ikcp_segment_new (mem k) (unat (h_len h));
                 k = k\<lparr>mem := m\<rparr>
             in case seg of
                  None \<Rightarrow> Inl Null_Deref
                | Some seg \<Rightarrow> Inr (ikcp_parse_data k (received_segment h payload seg))
        else Inr k)
      else Inr k)"

text \<open>\<open>IKCP_CMD_ACK\<close>\<close>

definition input_ack :: "ikcpcb \<Rightarrow> header \<Rightarrow> ikcpcb" where
  "input_ack k h =
     (let k = (if itimediff (current k) (h_ts h) \<ge> 0
               then ikcp_update_ack k (itimediff (current k) (h_ts h)) else k);
          k = ikcp_parse_ack k (h_sn h)
      in ikcp_shrink_buf k)"

text \<open>One segment of a datagram, its command known to be valid.\<close>

definition input_segment :: "ikcpcb \<Rightarrow> header \<Rightarrow> u8 list \<Rightarrow> ikcpcb outcome" where
  "input_segment k h payload =
     (let k = k\<lparr>rmt_wnd := ucast (h_wnd h)\<rparr>;
          k = ikcp_parse_una k (h_una h);
          k = ikcp_shrink_buf k;
          cmd = ucast (h_cmd h)
      in if cmd = IKCP_CMD_ACK then Inr (input_ack k h)
         else if cmd = IKCP_CMD_PUSH then input_push k h payload
         else if cmd = IKCP_CMD_WASK then Inr (k\<lparr>probe := probe k OR IKCP_ASK_TELL\<rparr>)
         else Inr k)"

definition valid_cmd :: "u8 \<Rightarrow> bool" where
  "valid_cmd c \<longleftrightarrow> (let cmd = ucast c in
     cmd = IKCP_CMD_PUSH \<or> cmd = IKCP_CMD_ACK \<or> cmd = IKCP_CMD_WASK \<or> cmd = IKCP_CMD_WINS)"

lemma decode_header_rest: "decode_header bs = Some (h, rest) \<Longrightarrow> length bs = length rest + 24"
  using hdr.dec_Some_length [of bs h rest] by simp

text \<open>
  The loop of \<open>ikcp_input\<close>; \<open>size\<close> is the length of the rest of the datagram.  A result
  of 0 is the \<open>break\<close>, the others are the early returns.
\<close>

function input_loop :: "u8 list \<Rightarrow> ikcpcb \<Rightarrow> (int \<times> ikcpcb) outcome" where
  "input_loop data k =
     (if length data < 24 then Inr (0, k)
      else case decode_header data of
        None \<Rightarrow> Inl Out_Of_Bounds
      | Some (h, rest) \<Rightarrow>
          if h_conv h \<noteq> conv k then Inr (-1, k)
          else if length rest < unat (h_len h) then Inr (-2, k)
          else if \<not> valid_cmd (h_cmd h) then Inr (-3, k)
          else bindE (input_segment k h (take (unat (h_len h)) rest))
                 (input_loop (drop (unat (h_len h)) rest)))"
  by pat_completeness auto

termination
  by (relation "measure (\<lambda>(data, k). length data)") (auto dest!: decode_header_rest)

declare input_loop.simps [simp del]

text \<open>The growth of the congestion window after an acknowledgement.\<close>

definition grow_cwnd :: "ikcpcb \<Rightarrow> ikcpcb outcome" where
  "grow_cwnd k =
     (if cwnd k < rmt_wnd k then
        bindE
          (if cwnd k < ssthresh k
           then Inr (k\<lparr>cwnd := cwnd k + 1, incr := incr k + mss k\<rparr>)
           else let k = (if incr k < mss k then k\<lparr>incr := mss k\<rparr> else k)
                in guardE (incr k \<noteq> 0) Division_By_Zero
                  (let k = k\<lparr>incr := incr k + ((mss k * mss k) div incr k + mss k div 16)\<rparr>
                   in Inr (if (cwnd k + 1) * mss k \<ge> incr k
                           then k\<lparr>cwnd := cwnd k + 1\<rparr> else k)))
          (\<lambda>k. Inr (if cwnd k > rmt_wnd k
                    then k\<lparr>cwnd := rmt_wnd k, incr := rmt_wnd k * mss k\<rparr> else k))
      else Inr k)"

text \<open>A null \<open>data\<close> is \<open>None\<close>, otherwise \<open>size\<close> is the length of the buffer.\<close>

definition ikcp_input :: "ikcpcb \<Rightarrow> u8 list option \<Rightarrow> (int \<times> ikcpcb) outcome" where
  "ikcp_input k dat =
     (case dat of
        None \<Rightarrow> Inr (0, k)
      | Some data \<Rightarrow>
          if length data < 24 then Inr (0, k)
          else let una = snd_una k in
            bindE (input_loop data k) (\<lambda>(ret, k).
              if ret \<noteq> 0 then Inr (ret, k)
              else bindE (if itimediff (snd_una k) una > 0 then grow_cwnd k else Inr k)
                     (\<lambda>k. Inr (0, k))))"

section \<open>Received data\<close>

text \<open>The distance of a segment from the next expected number.\<close>

definition ahead :: "u32 \<Rightarrow> ikcpseg \<Rightarrow> nat" where
  "ahead r s = unat (seg_sn s - r)"

definition insert_segment :: "u32 \<Rightarrow> ikcpseg \<Rightarrow> ikcpseg list \<Rightarrow> ikcpseg list" where
  "insert_segment r newseg ss =
     (if seg_sn newseg \<in> seg_sn ` set ss then ss
      else filter (\<lambda>s. ahead r s < ahead r newseg) ss @
        newseg # filter (\<lambda>s. ahead r newseg < ahead r s) ss)"

lemma rcv_ordered_ahead:
  "rcv_ordered r ss \<longleftrightarrow> sorted_wrt (\<lambda>s t. ahead r s < ahead r t) ss \<and> (\<forall>s \<in> set ss. ahead r s < 2 ^ 31)"
  by (simp add: rcv_ordered_def sorted_wrt_append offsets_def sorted_wrt_map ahead_def)

lemma ahead_inj: "ahead r s = ahead r t \<longleftrightarrow> seg_sn s = seg_sn t"
  by (simp add: ahead_def offset_inj)

lemma insert_back_result:
  assumes "rcv_ordered r ss" and "ahead r newseg < 2 ^ 31"
  shows "insert_back newseg (rev ss) =
    (if seg_sn newseg \<in> seg_sn ` set ss then None else Some (rev (insert_segment r newseg ss)))"
  using assms(1)
proof (induction ss rule: rev_induct)
  case Nil
  then show ?case by (simp add: insert_segment_def)
next
  case (snoc s ss)
  then have o: "rcv_ordered r ss" "ahead r s < 2 ^ 31" "\<forall>t \<in> set ss. ahead r t < ahead r s"
    by (auto simp: rcv_ordered_ahead sorted_wrt_append)
  consider (same) "seg_sn s = seg_sn newseg" | (after) "ahead r s < ahead r newseg"
    | (before) "ahead r newseg < ahead r s"
    using ahead_inj [of r s newseg] by linarith
  then show ?case
  proof cases
    case same
    then show ?thesis by simp
  next
    case after
    then have lt: "\<forall>t \<in> set ss. ahead r t < ahead r newseg" using o(3) by auto
    then have "seg_sn newseg \<notin> seg_sn ` set (ss @ [s])"
      using after by (auto simp flip: ahead_inj [of r])
    moreover have "itimediff (seg_sn newseg) (seg_sn s) > 0"
      using itimediff_offsets [of "seg_sn newseg" r "seg_sn s"] after o(2) assms(2)
      by (simp add: ahead_def)
    moreover have "filter (\<lambda>s. ahead r newseg < ahead r s) ss = []"
      "filter (\<lambda>s. ahead r s < ahead r newseg) ss = ss"
      using lt by (auto simp: filter_empty_conv filter_id_conv)
    ultimately show ?thesis using after by (auto simp: insert_segment_def)
  next
    case before
    then have "\<not> itimediff (seg_sn newseg) (seg_sn s) > 0"
      using itimediff_offsets [of "seg_sn newseg" r "seg_sn s"] o(2) assms(2)
      by (simp add: ahead_def)
    moreover have "seg_sn s \<noteq> seg_sn newseg" using before by (auto simp: ahead_def)
    ultimately show ?thesis using snoc.IH [OF o(1)] before by (auto simp: insert_segment_def)
  qed
qed

lemma insert_segment_ordered:
  assumes "rcv_ordered r ss" and "ahead r newseg < 2 ^ 31"
  shows "rcv_ordered r (insert_segment r newseg ss)"
  using assms
  by (auto simp: insert_segment_def rcv_ordered_ahead sorted_wrt_append sorted_wrt_filter)

lemma insert_segment_length:
  assumes "rcv_ordered r ss"
  shows "length (insert_segment r newseg ss) =
    length ss + (if seg_sn newseg \<in> seg_sn ` set ss then 0 else 1)"
proof (cases "seg_sn newseg \<in> seg_sn ` set ss")
  case False
  then have "ahead r newseg < ahead r s \<longleftrightarrow> \<not> ahead r s < ahead r newseg" if "s \<in> set ss" for s
    using ahead_inj [of r s newseg] that by (metis imageI linorder_less_linear order_less_asym)
  then have "filter (\<lambda>s. ahead r newseg < ahead r s) ss = filter (\<lambda>s. \<not> ahead r s < ahead r newseg) ss"
    by (intro filter_cong) auto
  then show ?thesis
    using False sum_length_filter_compl [of "\<lambda>s. ahead r s < ahead r newseg" ss]
    by (simp add: insert_segment_def)
qed (simp add: insert_segment_def)

lemma insert_segment_set: "set (insert_segment r newseg ss) \<subseteq> insert newseg (set ss)"
  by (auto simp: insert_segment_def)

text \<open>The two outcomes of \<open>ikcp_parse_data\<close> for a number inside the receive window.\<close>

definition parsed :: "ikcpcb \<Rightarrow> ikcpseg \<Rightarrow> ikcpcb" where
  "parsed k newseg =
     (if seg_sn newseg \<in> seg_sn ` set (rcv_buf k) then k\<lparr>mem := ikcp_segment_delete (mem k)\<rparr>
      else k\<lparr>rcv_buf := insert_segment (rcv_nxt k) newseg (rcv_buf k),
             nrcv_buf := nrcv_buf k + 1\<rparr>)"

definition in_rcv_window :: "ikcpcb \<Rightarrow> u32 \<Rightarrow> bool" where
  "in_rcv_window k sn \<longleftrightarrow>
     itimediff sn (rcv_nxt k + rcv_wnd k) < 0 \<and> itimediff sn (rcv_nxt k) \<ge> 0"

lemma in_rcv_window_ahead: "in_rcv_window k (seg_sn s) \<Longrightarrow> ahead (rcv_nxt k) s < 2 ^ 31"
  using itimediff_lt0 [of "seg_sn s" "rcv_nxt k"] by (auto simp: in_rcv_window_def ahead_def)

lemma parse_data_eq:
  assumes "wf_rcv k"
  shows "ikcp_parse_data k newseg =
    (if in_rcv_window k (seg_sn newseg) then move_rcv_buf (parsed k newseg)
     else k\<lparr>mem := ikcp_segment_delete (mem k)\<rparr>)"
  using insert_back_result [of "rcv_nxt k" "rcv_buf k" newseg] assms
    in_rcv_window_ahead [of k newseg]
  by (auto simp: ikcp_parse_data_def in_rcv_window_def parsed_def wf_rcv_alt)

lemma parsed_wf_rcv:
  assumes "wf_rcv k" and "seg_received newseg" and "in_rcv_window k (seg_sn newseg)"
  shows "wf_rcv (parsed k newseg)"
  using assms in_rcv_window_ahead [OF assms(3)] insert_segment_set [of "rcv_nxt k" newseg "rcv_buf k"]
    insert_segment_ordered [of "rcv_nxt k" "rcv_buf k" newseg]
    insert_segment_length [of "rcv_nxt k" "rcv_buf k" newseg]
  by (auto simp: wf_rcv_alt parsed_def)

lemma parse_data_wf_rcv:
  assumes "wf_rcv k" and "seg_received newseg"
  shows "wf_rcv (ikcp_parse_data k newseg)"
  using parsed_wf_rcv [OF assms] move_wf_rcv [of "parsed k newseg"] assms(1)
  by (auto simp: parse_data_eq wf_rcv_alt)

lemma parsed_frame:
  "parsed k newseg = k\<lparr>rcv_buf := rcv_buf (parsed k newseg), nrcv_buf := nrcv_buf (parsed k newseg),
     mem := mem (parsed k newseg)\<rparr>"
  by (simp add: parsed_def)

text \<open>After a move the front of the buffer does not continue the queue, or the queue is full.\<close>

lemma move_stops:
  "rcv_buf (move_rcv_buf k) = seg # rest \<Longrightarrow>
   seg_sn seg \<noteq> rcv_nxt (move_rcv_buf k) \<or> rcv_wnd k \<le> nrcv_que (move_rcv_buf k)"
proof (induction k rule: move_rcv_buf.induct)
  case (1 k)
  show ?case
  proof (cases "rcv_buf k")
    case Nil
    then show ?thesis using "1.prems" by (simp add: move_rcv_buf.simps)
  next
    case (Cons s ss)
    then show ?thesis
      using "1.IH" [OF Cons] "1.prems"
      by (cases "seg_sn s = rcv_nxt k \<and> nrcv_que k < rcv_wnd k")
        (auto simp: move_rcv_buf.simps [of k])
  qed
qed

lemma move_moved:
  "\<exists>n \<le> length (rcv_buf k). move_rcv_buf k = moved n k \<and> n \<le> unat (rcv_wnd k) - unat (nrcv_que k)"
  using run_length_le [of "rcv_nxt k" "rcv_buf k"] unfolding move_eq_moved
  by (rule_tac x = "min (run_length (rcv_nxt k) (rcv_buf k)) (unat (rcv_wnd k) - unat (nrcv_que k))"
      in exI) simp

lemma moved_stream: "rcv_queue (moved n k) @ rcv_buf (moved n k) = rcv_queue k @ rcv_buf k"
  by (simp add: moved_def)

text \<open>
  C22: a segment with a number in the receive window that is not in the buffer yet is inserted
  at its place in the sequence, a duplicate is dropped; nothing already received is lost or
  reordered.  Then everything that continues the sequence moves to the receive queue, until
  a number is missing or the queue has reached the window.
\<close>

theorem parse_data_inserts:
  fixes k :: ikcpcb and newseg :: ikcpseg
  defines "k' \<equiv> ikcp_parse_data k newseg"
  assumes "wf_rcv k" and "in_rcv_window k (seg_sn newseg)"
  shows "rcv_queue k' @ rcv_buf k' = rcv_queue k @ insert_segment (rcv_nxt k) newseg (rcv_buf k) \<and>
    rcv_nxt k' = rcv_nxt k + of_nat (length (rcv_queue k') - length (rcv_queue k)) \<and>
    (case rcv_buf k' of [] \<Rightarrow> True
       | seg # _ \<Rightarrow> seg_sn seg \<noteq> rcv_nxt k' \<or> rcv_wnd k' \<le> nrcv_que k')"
proof -
  let ?p = "parsed k newseg"
  have k': "k' = move_rcv_buf ?p" using assms by (simp add: parse_data_eq)
  with move_moved [of ?p] obtain n where n: "k' = moved n ?p" "n \<le> length (rcv_buf ?p)"
    by auto
  have p: "rcv_queue ?p = rcv_queue k" "rcv_nxt ?p = rcv_nxt k" "rcv_wnd ?p = rcv_wnd k"
    "rcv_buf ?p = insert_segment (rcv_nxt k) newseg (rcv_buf k)"
    by (simp_all add: parsed_def insert_segment_def)
  have "rcv_wnd k' = rcv_wnd k" using n(1) p(3) by (simp add: moved_def)
  moreover have "rcv_nxt k' = rcv_nxt k + of_nat (length (rcv_queue k') - length (rcv_queue k))"
    using n p by (simp add: moved_def)
  ultimately show ?thesis
    using moved_stream [of n ?p] move_stops [of ?p] n(1) p k' by (auto split: list.split)
qed

section \<open>The invariant\<close>

text \<open>The invariant between the removal of acknowledged segments and \<open>ikcp_shrink_buf\<close>.\<close>

definition kcp_open :: "ikcpcb \<Rightarrow> bool" where
  "kcp_open k \<longleftrightarrow> wf_buffer k \<and> wf_snd_open k \<and> wf_rcv k \<and> wf_ack k \<and> wf_time k"

lemma ucast16_less: "(ucast (w :: u16) :: u32) < 65536"
proof -
  have w: "unat w < 65536" using unsigned_less [of w, where 'a = nat] by simp
  then have "unat (ucast w :: u32) = unat w" by (simp add: unsigned_ucast_eq take_bit_eq_mod)
  moreover note w
  ultimately show ?thesis by (simp add: word_less_nat_alt)
qed

lemma rmt_wnd_open: "kcp_wf k \<Longrightarrow> w < 65536 \<Longrightarrow> kcp_open (k\<lparr>rmt_wnd := w\<rparr>)"
  by (auto simp: kcp_wf_def kcp_open_def wf_snd_alt wf_snd_open_def wf_buffer_def wf_rcv_def
      wf_ack_def wf_time_def)

lemma wf_open: "kcp_wf k \<Longrightarrow> kcp_open k"
  by (simp add: kcp_wf_def kcp_open_def wf_snd_open)

lemma dropped_frame:
  "wf_buffer (dropped n k) = wf_buffer k" "wf_rcv (dropped n k) = wf_rcv k"
  "wf_ack (dropped n k) = wf_ack k" "wf_time (dropped n k) = wf_time k"
  by (simp_all add: dropped_def wf_buffer_def wf_rcv_def wf_ack_def wf_time_def)

lemma parse_una_kcp_open: "kcp_open k \<Longrightarrow> kcp_open (ikcp_parse_una k una)"
  using parse_una_open [of k una]
  by (simp add: kcp_open_def) (simp add: parse_una_dropped dropped_frame)

lemma shrink_fields:
  "\<exists>una. ikcp_shrink_buf k = k\<lparr>snd_una := una\<rparr>"
  by (cases "snd_buf k") (auto simp: ikcp_shrink_buf_def)

lemma shrink_wf: "kcp_open k \<Longrightarrow> kcp_wf (ikcp_shrink_buf k)"
  using shrink_wf_snd [of k] shrink_fields [of k]
  by (auto simp: kcp_open_def kcp_wf_def wf_buffer_def wf_rcv_def wf_ack_def wf_time_def)

lemma parse_ack_kcp_open: "kcp_open k \<Longrightarrow> kcp_open (ikcp_parse_ack k sn)"
  using parse_ack_open [of k sn] parse_ack_fields [of sn k]
  by (auto simp: kcp_open_def wf_buffer_def wf_rcv_def wf_ack_def wf_time_def)

lemma update_ack_wf: "kcp_wf k \<Longrightarrow> kcp_wf (ikcp_update_ack k rtt)"
  using update_ack_rto_range [of k rtt]
  by (auto simp: wf_defs frame_rules)

lemma ack_push_wf:
  assumes "kcp_wf k" and "ikcp_ack_push k sn ts = Inr k'"
  shows "kcp_wf k'"
proof -
  have a: "wf_ack k" using assms(1) by (simp add: kcp_wf_def)
  then have "wf_ack k'" using assms(2) by (rule ack_push_wf_ack)
  from a show ?thesis
  proof (cases rule: ack_push_cases [of k sn ts])
    case (pushed a block m)
    show ?thesis
      using assms \<open>wf_ack k'\<close> pushed(1)
      by (simp add: kcp_wf_def) (auto simp: wf_buffer_def wf_snd_def wf_rcv_def wf_time_def acks_set_def)
  qed (use assms(2) in simp)
qed

lemma parsed_wf:
  assumes "kcp_wf k" and "seg_received newseg" and "in_rcv_window k (seg_sn newseg)"
  shows "kcp_wf (parsed k newseg)"
  using assms parsed_wf_rcv [of k newseg]
  by (auto simp: kcp_wf_def) (auto simp: parsed_def wf_buffer_def wf_snd_def wf_ack_def wf_time_def)

lemma parse_data_wf:
  assumes "kcp_wf k" and "seg_received newseg"
  shows "kcp_wf (ikcp_parse_data k newseg)"
proof -
  have "wf_rcv k" using assms(1) by (simp add: kcp_wf_def)
  then show ?thesis
    using parsed_wf [OF assms] move_wf [of "parsed k newseg"] assms(1)
    by (auto simp: parse_data_eq wf_defs)
qed

text \<open>The invariant, the account of the allocated blocks and an allocator that always grants.\<close>

lemma received_sound:
  assumes "length payload = unat (h_len h)" and "seg_data seg = replicate (unat (h_len h)) 0"
  shows "seg_received (received_segment h payload seg)"
proof -
  have "unat (ucast (h_frg h) :: u32) < 256"
    using unsigned_less [of "h_frg h", where 'a = nat]
    by (simp add: unsigned_ucast_eq take_bit_eq_mod)
  then show ?thesis
    using assms
    by (simp add: seg_received_def seg_sound_def received_segment_def word_less_nat_alt)
qed

lemma input_push_wf:
  assumes "kcp_wf k" and "input_push k h payload = Inr k'" and "length payload = unat (h_len h)"
  shows "kcp_wf k'"
proof (cases "itimediff (h_sn h) (rcv_nxt k + rcv_wnd k) < 0")
  case True
  then obtain k1 where k1: "ikcp_ack_push k (h_sn h) (h_ts h) = Inr k1"
    using assms(2) by (auto simp: input_push_def)
  have wf1: "kcp_wf k1" using assms(1) k1 by (rule ack_push_wf)
  then have wf2: "kcp_wf (k1\<lparr>mem := m\<rparr>)" for m by (simp add: wf_defs)
  have "seg_received (received_segment h payload (fresh_segment (unat (h_len h))))"
    using assms(3) by (intro received_sound) (simp_all add: fresh_segment_def)
  then show ?thesis
    using assms(2) True k1 wf1 parse_data_wf [OF wf2]
    by (auto simp: input_push_def ikcp_segment_new_def Let_def ikcp_malloc_def split: if_splits)
next
  case False
  then show ?thesis using assms by (simp add: input_push_def)
qed

lemma input_ack_wf: "kcp_wf k \<Longrightarrow> kcp_wf (input_ack k h)"
  unfolding input_ack_def Let_def
  by (intro shrink_wf parse_ack_kcp_open wf_open) (simp add: update_ack_wf)

lemma input_segment_wf:
  assumes "kcp_wf k" and "input_segment k h payload = Inr k'"
    and "length payload = unat (h_len h)"
  shows "kcp_wf k'"
proof -
  define k1 where
    "k1 = ikcp_shrink_buf (ikcp_parse_una (k\<lparr>rmt_wnd := ucast (h_wnd h)\<rparr>) (h_una h))"
  have wf1: "kcp_wf k1"
    unfolding k1_def using assms(1)
    by (intro shrink_wf parse_una_kcp_open rmt_wnd_open ucast16_less)
  then have "kcp_wf (k1\<lparr>probe := p\<rparr>)" for p by (simp add: wf_defs)
  then show ?thesis
    using assms(2,3) wf1 input_push_wf [OF wf1] input_ack_wf [OF wf1, of h]
    unfolding input_segment_def Let_def k1_def [symmetric]
    by (auto split: if_splits)
qed

text \<open>A turn of the loop either ends it or handles one segment.\<close>

lemma input_loop_cases:
  obtains (stop) r where "input_loop data k = Inr (r, k)" and "r \<in> {0, -1, -2, -3}"
    | (turn) h rest where "decode_header data = Some (h, rest)" and "24 \<le> length data"
      and "h_conv h = conv k" and "unat (h_len h) \<le> length rest" and "valid_cmd (h_cmd h)"
      and "input_loop data k = bindE (input_segment k h (take (unat (h_len h)) rest))
        (input_loop (drop (unat (h_len h)) rest))"
proof (cases "length data < 24")
  case True
  then show ?thesis using stop by (simp add: input_loop.simps [of data k])
next
  case False
  then obtain h rest where hr: "decode_header data = Some (h, rest)"
    using decode_header_total [of data] by fastforce
  show ?thesis
  proof (cases "h_conv h \<noteq> conv k \<or> length rest < unat (h_len h) \<or> \<not> valid_cmd (h_cmd h)")
    case True
    then show ?thesis
      using False hr
      by (intro stop [of "if h_conv h \<noteq> conv k then -1 else
            if length rest < unat (h_len h) then -2 else -3"])
        (auto simp: input_loop.simps [of data k])
  next
    case go: False
    then show ?thesis
      using False hr by (intro turn [of h rest]) (auto simp: input_loop.simps [of data k])
  qed
qed

lemma input_loop_induct [consumes 1, case_names stop turn]:
  assumes "input_loop data k = Inr (r, k')"
    and "\<And>k r. r \<in> {0, -1, -2, -3} \<Longrightarrow> P k r k"
    and "\<And>k h payload k1 r k'. input_segment k h payload = Inr k1 \<Longrightarrow>
      length payload = unat (h_len h) \<Longrightarrow> h_conv h = conv k \<Longrightarrow> valid_cmd (h_cmd h) \<Longrightarrow>
      P k1 r k' \<Longrightarrow> P k r k'"
  shows "P k r k'"
  using assms(1)
proof (induction data k rule: input_loop.induct)
  case (1 data k)
  show ?case
  proof (cases rule: input_loop_cases [of data k])
    case stop
    then show ?thesis using "1.prems" assms(2) by auto
  next
    case (turn h rest)
    with "1.prems" have "bindE (input_segment k h (take (unat (h_len h)) rest))
        (input_loop (drop (unat (h_len h)) rest)) = Inr (r, k')" by simp
    then obtain k1 where k1: "input_segment k h (take (unat (h_len h)) rest) = Inr k1"
      "input_loop (drop (unat (h_len h)) rest) k1 = Inr (r, k')" by auto
    then have "P k1 r k'" using turn by (intro "1.IH" [OF _ turn(1) refl]) auto
    then show ?thesis using turn k1(1) by (intro assms(3) [of k h _ k1]) auto
  qed
qed

lemma input_loop_wf:
  "input_loop data k = Inr (r, k') \<Longrightarrow> kcp_wf k \<longrightarrow> kcp_wf k' \<and> r \<in> {0, -1, -2, -3}"
  by (induction rule: input_loop_induct) (auto dest: input_segment_wf)

lemma grow_cwnd_fields:
  "grow_cwnd k = Inr k' \<Longrightarrow> k' = k\<lparr>cwnd := cwnd k', incr := incr k'\<rparr>"
  by (auto simp: grow_cwnd_def Let_def split: if_splits)

lemma input_cases:
  assumes "ikcp_input k dat = Inr (r, k')"
  obtains (ignored) "k' = k" and "r = 0"
    | (looped) data k1 where "dat = Some data" and "input_loop data k = Inr (r, k1)"
      and "k' = k1\<lparr>cwnd := cwnd k', incr := incr k'\<rparr>"
  using assms
  by (fastforce simp: ikcp_input_def split: option.splits if_splits dest: grow_cwnd_fields)

lemma input_wf [wf_rules]:
  assumes "ikcp_input k dat = Inr (r, k')" and "kcp_wf k"
  shows "kcp_wf k' \<and> r \<in> {0, -1, -2, -3}"
  using assms(1)
proof (cases rule: input_cases)
  case (looped data k1)
  have "kcp_wf (k1\<lparr>cwnd := c, incr := i\<rparr>) = kcp_wf k1" for c i by (simp add: wf_defs)
  then show ?thesis using input_loop_wf [OF looped(2)] assms(2) looped(3) by metis
qed (use assms in simp)

section \<open>No fault on any datagram\<close>

text \<open>
  An operation that keeps the account of blocks, and that leaves the defined behaviour only
  when the allocator has refused a request.
\<close>

fun keeps_memory :: "int \<Rightarrow> ikcpcb \<Rightarrow> ikcpcb outcome \<Rightarrow> bool" where
  "keeps_memory b k (Inl e) \<longleftrightarrow> e \<in> {Aborted, Null_Deref} \<and> \<not> plentiful (mem k)"
| "keeps_memory b k (Inr k') \<longleftrightarrow> accounted b k' \<and> (plentiful (mem k) \<longrightarrow> plentiful (mem k'))"

lemma keeps_memory_bind:
  assumes "keeps_memory b k m" and "\<And>k'. m = Inr k' \<Longrightarrow> accounted b k' \<Longrightarrow> keeps_memory b k' (f k')"
  shows "keeps_memory b k (bindE m f)"
proof (cases m)
  case (Inr k')
  then have "keeps_memory b k' (f k')" using assms by simp
  then show ?thesis using Inr assms(1) by (cases "f k'") auto
qed (use assms in simp)

lemma ack_push_keeps:
  assumes "wf_ack k" and "accounted b k"
  shows "keeps_memory b k (ikcp_ack_push k sn ts)"
  using assms(1)
proof (cases rule: ack_push_cases [of k sn ts])
  case refused
  then show ?thesis by (auto simp: plentiful_def)
next
  case (pushed a block m)
  then show ?thesis using assms(2) by (auto simp: accounted_def owned_def acks_set_def split: if_splits)
qed

lemma parse_data_accounted:
  assumes "wf_rcv k" and "live (mem k) = b + owned k + 1"
  shows "accounted b (ikcp_parse_data k newseg)"
proof (cases "in_rcv_window k (seg_sn newseg)")
  case True
  have "accounted b (parsed k newseg)"
    using assms insert_segment_length [of "rcv_nxt k" "rcv_buf k" newseg]
    by (simp add: parsed_def accounted_def owned_def wf_rcv_alt ikcp_segment_delete_def)
  then show ?thesis using assms(1) True by (simp add: parse_data_eq move_accounted)
next
  case False
  then show ?thesis
    using assms by (simp add: parse_data_eq accounted_def owned_def ikcp_segment_delete_def)
qed

lemma parse_data_plentiful:
  "wf_rcv k \<Longrightarrow> plentiful (mem k) \<Longrightarrow> plentiful (mem (ikcp_parse_data k newseg))"
  by (simp add: parse_data_eq move_frame parsed_def ikcp_segment_delete_def)

lemma input_push_keeps:
  assumes "kcp_wf k" and "accounted b k"
  shows "keeps_memory b k (input_push k h payload)"
proof -
  have "keeps_memory b k1
      (if itimediff (h_sn h) (rcv_nxt k1) \<ge> 0
        then let (seg, m) = ikcp_segment_new (mem k1) (unat (h_len h));
                 k = k1\<lparr>mem := m\<rparr>
             in case seg of
                  None \<Rightarrow> Inl Null_Deref
                | Some seg \<Rightarrow> Inr (ikcp_parse_data k (received_segment h payload seg))
        else Inr k1)" if k1: "ikcp_ack_push k (h_sn h) (h_ts h) = Inr k1" and a: "accounted b k1" for k1
  proof -
    have "wf_rcv k1" using ack_push_wf [OF assms(1) k1] by (simp add: kcp_wf_def)
    then have "wf_rcv (k1\<lparr>mem := m\<rparr>)" for m by (simp add: wf_rcv_def)
    then show ?thesis
      using a parse_data_accounted [of "k1\<lparr>mem := snd (ikcp_malloc (mem k1))\<rparr>" b]
        parse_data_plentiful [of "k1\<lparr>mem := snd (ikcp_malloc (mem k1))\<rparr>"]
      by (cases "ikcp_malloc (mem k1)")
        (auto simp: ikcp_segment_new_def Let_def accounted_def owned_def plentiful_malloc
           ikcp_malloc_def plentiful_def)
  qed
  moreover have "keeps_memory b k (ikcp_ack_push k (h_sn h) (h_ts h))"
    using assms by (intro ack_push_keeps) (simp_all add: kcp_wf_def)
  ultimately show ?thesis
    using assms(2) unfolding input_push_def by (auto intro: keeps_memory_bind)
qed

lemma freed_plentiful [simp]: "plentiful (freed n m) = plentiful m"
  by (simp add: plentiful_def)

lemma sender_steps_plentiful [simp]:
  "plentiful (mem (ikcp_parse_una k una)) = plentiful (mem k)"
  "plentiful (mem (ikcp_shrink_buf k)) = plentiful (mem k)"
  "plentiful (mem (ikcp_parse_ack k sn)) = plentiful (mem k)"
  using shrink_fields [of k] parse_ack_fields [of sn k]
  by (auto simp: parse_una_dropped dropped_def)

lemma update_ack_accounted: "accounted b k \<Longrightarrow> accounted b (ikcp_update_ack k rtt)"
  by (simp add: accounted_def owned_def frame_rules)

lemma input_segment_keeps:
  assumes "kcp_wf k" and "accounted b k"
  shows "keeps_memory b k (input_segment k h payload)"
proof -
  define k1 where
    "k1 = ikcp_shrink_buf (ikcp_parse_una (k\<lparr>rmt_wnd := ucast (h_wnd h)\<rparr>) (h_una h))"
  have wf1: "kcp_wf k1"
    unfolding k1_def using assms(1)
    by (intro shrink_wf parse_una_kcp_open rmt_wnd_open ucast16_less)
  have a1: "accounted b k1"
    unfolding k1_def using assms(2)
    by (intro shrink_accounted parse_una_accounted) (simp add: accounted_def owned_def)
  have p1: "plentiful (mem k1) = plentiful (mem k)" by (simp add: k1_def)
  have "accounted b (input_ack k1 h)"
    unfolding input_ack_def Let_def using a1
    by (intro shrink_accounted parse_ack_accounted) (simp add: update_ack_accounted)
  moreover have "plentiful (mem (input_ack k1 h)) = plentiful (mem k1)"
    by (simp add: input_ack_def Let_def update_ack_frame)
  moreover have "keeps_memory b k (input_push k1 h payload)"
    using input_push_keeps [OF wf1 a1, of h payload] p1 by (cases "input_push k1 h payload") auto
  moreover have "accounted b (k1\<lparr>probe := p\<rparr>)" for p
    using a1 by (simp add: accounted_def owned_def)
  ultimately show ?thesis
    using a1 p1 unfolding input_segment_def Let_def k1_def [symmetric] by auto
qed

lemma input_loop_keeps:
  "kcp_wf k \<Longrightarrow> accounted b k \<Longrightarrow> keeps_memory b k (bindE (input_loop data k) (\<lambda>(r, k). Inr k))"
proof (induction data k rule: input_loop.induct)
  case (1 data k)
  show ?case
  proof (cases rule: input_loop_cases [of data k])
    case stop
    then show ?thesis using "1.prems" by simp
  next
    case (turn h rest)
    then show ?thesis
      using "1.prems" input_segment_keeps
      by (auto simp: bindE_assoc intro!: keeps_memory_bind "1.IH" [OF _ turn(1) refl]
          intro: input_segment_wf)
  qed
qed

lemma grow_cwnd_ok: "26 \<le> unat (mss k) \<Longrightarrow> \<exists>c i. grow_cwnd k = Inr (k\<lparr>cwnd := c, incr := i\<rparr>)"
proof -
  assume "26 \<le> unat (mss k)"
  then have m: "mss k \<noteq> 0" by auto
  then have i: "incr k \<noteq> 0" if "\<not> incr k < mss k" using that by (metis word_neq_0_conv)
  have "\<exists>k'. grow_cwnd k = Inr k'"
    using m i by (cases "incr k < mss k") (simp_all add: grow_cwnd_def Let_def)
  then show ?thesis using grow_cwnd_fields by metis
qed

lemma input_keeps:
  assumes "kcp_wf k" and "accounted b k"
  shows "keeps_memory b k (bindE (ikcp_input k dat) (\<lambda>(r, k). Inr k))"
proof (cases "dat = None \<or> (\<exists>data. dat = Some data \<and> length data < 24)")
  case True
  then show ?thesis using assms by (auto simp: ikcp_input_def)
next
  case False
  then obtain data where d: "dat = Some data" "\<not> length data < 24" by auto
  show ?thesis
  proof (cases "input_loop data k")
    case (Inl e)
    then show ?thesis using input_loop_keeps [OF assms, of data] d by (simp add: ikcp_input_def)
  next
    case (Inr x)
    then obtain r k1 where x: "input_loop data k = Inr (r, k1)" by (cases x) auto
    have "kcp_wf k1" using input_loop_wf [OF x] assms(1) by simp
    from grow_cwnd_ok [OF wf_mss(1) [OF this]] obtain c i where
      "grow_cwnd k1 = Inr (k1\<lparr>cwnd := c, incr := i\<rparr>)" by blast
    then show ?thesis
      using input_loop_keeps [OF assms, of data] d x
      by (simp add: ikcp_input_def accounted_def owned_def)
  qed
qed

lemma input_plentiful:
  assumes "kcp_wf k" and "accounted b k" and "ikcp_input k dat = Inr (r, k')" and "plentiful (mem k)"
  shows "plentiful (mem k')"
  using input_keeps [OF assms(1,2), of dat] assms(3,4) by simp

lemma input_returns:
  assumes "kcp_wf k" and "accounted b k" and "plentiful (mem k)"
  shows "\<exists>r k'. ikcp_input k dat = Inr (r, k')"
  using input_keeps [OF assms(1,2), of dat] assms(3) by (cases "ikcp_input k dat") auto


section \<open>A datagram is the sequence of its segments\<close>

text \<open>A datagram of segments, and their processing one after the other.\<close>

definition datagram :: "(header \<times> u8 list) list \<Rightarrow> u8 list" where
  "datagram segs = concat (map (\<lambda>(h, payload). encode_header [] h @ payload) segs)"

fun feed :: "(header \<times> u8 list) list \<Rightarrow> ikcpcb \<Rightarrow> ikcpcb outcome" where
  "feed [] k = Inr k"
| "feed ((h, payload) # segs) k = bindE (input_segment k h payload) (feed segs)"

definition acceptable :: "u32 \<Rightarrow> header \<times> u8 list \<Rightarrow> bool" where
  "acceptable c seg \<longleftrightarrow> h_conv (fst seg) = c \<and> unat (h_len (fst seg)) = length (snd seg) \<and>
     valid_cmd (h_cmd (fst seg))"

lemma acks_set_conv [simp]: "conv (acks_set a block m k) = conv k"
  by (simp add: acks_set_def)

text \<open>What no input changes: the conversation, the MTU, the callback, the clock, the send window.\<close>

definition settings :: "ikcpcb \<Rightarrow> u32 \<times> u32 \<times> bool" where
  "settings k = (conv k, mtu k, output_cb k)"

definition untouched :: "ikcpcb \<Rightarrow> (u32 \<times> u32 \<times> bool) \<times> u32 \<times> u32 \<times> u32" where
  "untouched k = (settings k, updated k, current k, snd_wnd k)"

text \<open>With the window and the probes, which segments do change, though not their payload.\<close>

definition outlook :: "ikcpcb \<Rightarrow> ((u32 \<times> u32 \<times> bool) \<times> u32 \<times> u32 \<times> u32) \<times> u32 \<times> u32" where
  "outlook k = (untouched k, rmt_wnd k, probe k)"

lemmas outlook_defs = outlook_def untouched_def settings_def

lemma untouched_mem: "outlook (k\<lparr>mem := m\<rparr>) = outlook k" "untouched (k\<lparr>probe := p\<rparr>) = untouched k"
  by (simp_all add: outlook_defs)

lemma ack_push_outlook: "ikcp_ack_push k sn ts = Inr k' \<Longrightarrow> outlook k' = outlook k"
  by (auto simp: outlook_defs ikcp_ack_push_def ack_grow_def ikcp_malloc_def Let_def
      split: if_splits option.splits)

lemma parse_data_outlook: "outlook (ikcp_parse_data k newseg) = outlook k"
proof -
  have "outlook (move_rcv_buf j) = outlook j" for j
    unfolding move_eq_moved by (simp add: outlook_defs moved_def)
  then show ?thesis
    by (simp add: ikcp_parse_data_def Let_def split: option.split) (simp add: outlook_defs)
qed

lemma input_push_outlook:
  assumes "input_push k h payload = Inr k'"
  shows "outlook k' = outlook k"
proof (cases "itimediff (h_sn h) (rcv_nxt k + rcv_wnd k) < 0")
  case True
  then obtain k1 where k1: "ikcp_ack_push k (h_sn h) (h_ts h) = Inr k1"
    using assms by (auto simp: input_push_def)
  then have "outlook k' = outlook k1"
    using assms True
    by (cases "itimediff (h_sn h) (rcv_nxt k1) < 0")
      (auto simp: input_push_def Let_def ikcp_segment_new_def ikcp_malloc_def parse_data_outlook untouched_mem
        split: if_splits)
  then show ?thesis using ack_push_outlook [OF k1] by simp
qed (use assms in \<open>simp add: input_push_def\<close>)

lemma ucast_cmd:
  "(ucast (c :: u8) :: u32) = 81 \<longleftrightarrow> c = 81" "(ucast (c :: u8) :: u32) = 82 \<longleftrightarrow> c = 82"
  "(ucast (c :: u8) :: u32) = 83 \<longleftrightarrow> c = 83"
proof -
  have "unat c < 256" using unsigned_less [of c, where 'a = nat] by simp
  then have "unat (ucast c :: u32) = unat c" by (simp add: unsigned_ucast_eq take_bit_eq_mod)
  then show "(ucast c :: u32) = 81 \<longleftrightarrow> c = 81" "(ucast c :: u32) = 82 \<longleftrightarrow> c = 82"
    "(ucast c :: u32) = 83 \<longleftrightarrow> c = 83"
    by (simp_all add: word_unat_eq_iff)
qed

lemma input_segment_outlook:
  assumes "input_segment k h payload = Inr k'"
  shows "outlook k' =
    (untouched k, ucast (h_wnd h), if h_cmd h = 83 then probe k OR IKCP_ASK_TELL else probe k)"
proof -
  define k1 where
    "k1 = ikcp_shrink_buf (ikcp_parse_una (k\<lparr>rmt_wnd := ucast (h_wnd h)\<rparr>) (h_una h))"
  have shrink: "outlook (ikcp_shrink_buf j) = outlook j" for j
    using shrink_fields [of j] by (auto simp: outlook_defs)
  have ack: "outlook (ikcp_parse_ack j sn) = outlook j" for j sn
    using parse_ack_fields [of sn j] by (auto simp: outlook_defs)
  have k1: "outlook k1 = (untouched k, ucast (h_wnd h), probe k)"
    unfolding k1_def shrink by (simp add: parse_una_dropped dropped_def outlook_defs)
  have "outlook (ikcp_update_ack j rtt) = outlook j" for j rtt
    by (simp add: outlook_defs update_ack_frame)
  then have "outlook (input_ack k1 h) = outlook k1" by (simp add: input_ack_def Let_def shrink ack)
  moreover have probe: "outlook (k1\<lparr>probe := p\<rparr>) = (untouched k, ucast (h_wnd h), p)" for p
    using k1 by (simp add: outlook_defs)
  moreover have "probe k1 = probe k" using k1 by (simp add: outlook_def)
  ultimately show ?thesis
    using assms k1 input_push_outlook [of k1 h payload k']
    unfolding input_segment_def Let_def k1_def [symmetric] by (auto simp: ucast_cmd split: if_splits)
qed

lemma input_segment_untouched: "input_segment k h payload = Inr k' \<Longrightarrow> untouched k' = untouched k"
  using input_segment_outlook [of k h payload k'] by (simp add: outlook_def)

lemma input_segment_conv: "input_segment k h payload = Inr k' \<Longrightarrow> conv k' = conv k"
  using input_segment_untouched [of k h payload k'] by (simp add: untouched_def settings_def)

lemma input_loop_datagram:
  assumes "\<forall>seg \<in> set segs. acceptable (conv k) seg"
  shows "input_loop (datagram segs @ rest) k = bindE (feed segs k) (input_loop rest)"
  using assms
proof (induction segs arbitrary: k)
  case Nil
  then show ?case by (simp add: datagram_def)
next
  case (Cons seg segs)
  obtain h payload where seg: "seg = (h, payload)" by (cases seg)
  let ?data = "datagram (seg # segs) @ rest"
  have data: "?data = encode_header [] h @ payload @ datagram segs @ rest"
    by (simp add: datagram_def seg)
  have dec: "decode_header ?data = Some (h, payload @ datagram segs @ rest)"
    unfolding data by (rule hdr.dec_enc)
  have len: "\<not> length ?data < 24" unfolding data by (simp add: hdr.enc_length)
  have a: "h_conv h = conv k" "unat (h_len h) = length payload" "valid_cmd (h_cmd h)"
    using Cons.prems seg by (auto simp: acceptable_def)
  have "input_loop ?data k =
      bindE (input_segment k h payload) (input_loop (datagram segs @ rest))"
    using len by (simp add: input_loop.simps [of ?data k] dec a)
  also have "\<dots> = bindE (input_segment k h payload) (\<lambda>k. bindE (feed segs k) (input_loop rest))"
    using Cons.prems Cons.IH input_segment_conv by (intro bindE_cong refl) auto
  finally show ?case by (simp add: seg bindE_assoc)
qed

text \<open>
  A datagram put together from segments of the right conversation has exactly the effect
  of processing the segments in order, each with its own payload.
\<close>

theorem input_datagram:
  assumes "\<forall>seg \<in> set segs. acceptable (conv k) seg"
  shows "bindE (input_loop (datagram segs) k) (\<lambda>(r, k). Inr k) = feed segs k"
  using input_loop_datagram [OF assms, of "[]"]
  by (cases "feed segs k") (simp_all add: input_loop.simps [of "[]"])

section \<open>What a datagram may change\<close>

text \<open>What is sent and received of a segment.\<close>

definition content :: "ikcpseg \<Rightarrow> u32 \<times> u32 \<times> u32 \<times> u32 \<times> u8 list" where
  "content s = (seg_conv s, seg_cmd s, seg_sn s, seg_frg s, seg_data s)"

definition advances :: "ikcpcb \<Rightarrow> ikcpcb \<Rightarrow> bool" where
  "advances k k' \<longleftrightarrow>
     snd_nxt k' = snd_nxt k \<and> snd_queue k' = snd_queue k \<and>
     content ` set (snd_buf k') \<subseteq> content ` set (snd_buf k) \<and>
     unat (snd_nxt k - snd_una k') \<le> unat (snd_nxt k - snd_una k) \<and>
     (\<exists>new. rcv_queue k' = rcv_queue k @ new \<and> rcv_nxt k' = rcv_nxt k + of_nat (length new)) \<and>
     rcv_wnd k' = rcv_wnd k \<and>
     length (rcv_queue k') \<le> max (length (rcv_queue k)) (unat (rcv_wnd k))"

lemma advances_refl: "advances k k"
  by (simp add: advances_def)

lemma advances_trans:
  assumes "advances k1 k2" and "advances k2 k3"
  shows "advances k1 k3"
proof -
  from assms obtain n1 n2 where
    "rcv_queue k2 = rcv_queue k1 @ n1" "rcv_nxt k2 = rcv_nxt k1 + of_nat (length n1)"
    "rcv_queue k3 = rcv_queue k2 @ n2" "rcv_nxt k3 = rcv_nxt k2 + of_nat (length n2)"
    by (auto simp: advances_def)
  then have "rcv_queue k3 = rcv_queue k1 @ (n1 @ n2) \<and>
      rcv_nxt k3 = rcv_nxt k1 + of_nat (length (n1 @ n2))"
    by (simp add: algebra_simps)
  moreover have "content ` set (snd_buf k3) \<subseteq> content ` set (snd_buf k1)"
    using assms unfolding advances_def by (elim conjE) (rule order_trans)
  moreover have nxt: "snd_nxt k3 = snd_nxt k1" "snd_nxt k2 = snd_nxt k1" "snd_queue k3 = snd_queue k1"
    using assms by (simp_all add: advances_def)
  moreover have "unat (snd_nxt k1 - snd_una k3) \<le> unat (snd_nxt k1 - snd_una k1)"
    using assms unfolding advances_def nxt by (elim conjE) (rule order_trans)
  moreover have wnd: "rcv_wnd k3 = rcv_wnd k1" "rcv_wnd k2 = rcv_wnd k1"
    using assms by (simp_all add: advances_def)
  moreover have "length (rcv_queue k3) \<le> max (length (rcv_queue k1)) (unat (rcv_wnd k1))"
    using assms unfolding advances_def wnd by linarith
  ultimately show ?thesis unfolding advances_def by blast
qed

text \<open>Steps that touch none of the fields.\<close>

lemma advances_same:
  "snd_nxt k' = snd_nxt k \<Longrightarrow> snd_queue k' = snd_queue k \<Longrightarrow> snd_buf k' = snd_buf k \<Longrightarrow>
   snd_una k' = snd_una k \<Longrightarrow> rcv_queue k' = rcv_queue k \<Longrightarrow> rcv_nxt k' = rcv_nxt k \<Longrightarrow>
   rcv_wnd k' = rcv_wnd k \<Longrightarrow> advances k k'"
  by (simp add: advances_def)

lemma shrink_advances:
  assumes "kcp_open k"
  shows "advances k (ikcp_shrink_buf k)"
proof (cases "snd_buf k")
  case (Cons s ss)
  then have "snd_ordered (snd_una k) (s # ss) (snd_nxt k)"
    using assms by (simp add: kcp_open_def wf_snd_open_def)
  then show ?thesis
    using Cons snd_ordered_head(2) by (auto simp: ikcp_shrink_buf_def advances_def)
qed (simp add: ikcp_shrink_buf_def advances_def)

lemma parse_una_advances: "advances k (ikcp_parse_una k una)"
  by (auto simp: parse_una_dropped dropped_def advances_def dest: in_set_dropD)

lemma content_bump [simp]: "content (s\<lparr>seg_fastack := f\<rparr>) = content s"
  by (simp add: content_def)

lemma ack_scan_content: "content ` set (fst (ack_scan sn ss)) \<subseteq> content ` set ss"
proof (induction ss)
  case (Cons s ss)
  then show ?case by (cases "ack_scan sn ss") auto
qed simp

lemma parse_ack_advances: "advances k (ikcp_parse_ack k sn)"
  using parse_ack_fields [of sn k] ack_scan_content [of sn "snd_buf k"]
  by (auto simp: advances_def)

lemma update_ack_advances: "advances k (ikcp_update_ack k rtt)"
  by (rule advances_same) (simp_all add: update_ack_frame)

lemma input_ack_advances:
  assumes "kcp_wf k"
  shows "advances k (input_ack k h)"
proof -
  define k1 where "k1 = (if itimediff (current k) (h_ts h) \<ge> 0
               then ikcp_update_ack k (itimediff (current k) (h_ts h)) else k)"
  have "advances k k1" by (simp add: k1_def update_ack_advances advances_refl)
  moreover have "kcp_wf k1" using assms by (simp add: k1_def update_ack_wf)
  then have "kcp_open (ikcp_parse_ack k1 (h_sn h))" by (intro parse_ack_kcp_open wf_open)
  then have "advances k1 (input_ack k h)"
    unfolding input_ack_def Let_def k1_def [symmetric]
    by (intro advances_trans [OF parse_ack_advances shrink_advances])
  ultimately show ?thesis by (rule advances_trans)
qed

lemma ack_push_advances:
  assumes "wf_ack k" and "ikcp_ack_push k sn ts = Inr k'"
  shows "advances k k'"
  using assms(1)
proof (cases rule: ack_push_cases [of k sn ts])
  case (pushed a block m)
  then show ?thesis using assms(2) by (intro advances_same) (auto simp: acks_set_def)
qed (use assms(2) in simp)

lemma parse_data_advances:
  assumes "wf_rcv k"
  shows "advances k (ikcp_parse_data k newseg)"
proof (cases "in_rcv_window k (seg_sn newseg)")
  case True
  obtain n where n: "ikcp_parse_data k newseg = moved n (parsed k newseg)"
    "n \<le> length (rcv_buf (parsed k newseg))"
    "n \<le> unat (rcv_wnd (parsed k newseg)) - unat (nrcv_que (parsed k newseg))"
    using True assms move_moved [of "parsed k newseg"] by (auto simp: parse_data_eq)
  have "unat (nrcv_que k) = length (rcv_queue k)"
    using assms by (simp add: wf_rcv_def unat_of_nat32)
  then have "n \<le> unat (rcv_wnd k) - length (rcv_queue k)" using n(3) by (simp add: parsed_def split: if_splits)
  then have "length (rcv_queue k) + n \<le> max (length (rcv_queue k)) (unat (rcv_wnd k))" by linarith
  then show ?thesis using n(1,2) by (auto simp: advances_def moved_def parsed_def)
next
  case False
  then show ?thesis using assms by (simp add: parse_data_eq advances_def)
qed

text \<open>The effect of a pushed segment.\<close>

lemma input_push_Inr:
  assumes "kcp_wf k" and "input_push k h payload = Inr k'"
  obtains (beyond) "k' = k" and "0 \<le> itimediff (h_sn h) (rcv_nxt k + rcv_wnd k)"
    | (old) "ikcp_ack_push k (h_sn h) (h_ts h) = Inr k'"
        and "itimediff (h_sn h) (rcv_nxt k + rcv_wnd k) < 0" and "itimediff (h_sn h) (rcv_nxt k) < 0"
    | (data) k1 m where "ikcp_ack_push k (h_sn h) (h_ts h) = Inr k1"
        and "in_rcv_window k (h_sn h)" and "kcp_wf (k1\<lparr>mem := m\<rparr>)"
        and "rcv_nxt k1 = rcv_nxt k" and "rcv_wnd k1 = rcv_wnd k"
        and "rcv_queue k1 = rcv_queue k" and "rcv_buf k1 = rcv_buf k"
        and "k' = ikcp_parse_data (k1\<lparr>mem := m\<rparr>)
          (received_segment h payload (fresh_segment (unat (h_len h))))"
proof (cases "itimediff (h_sn h) (rcv_nxt k + rcv_wnd k) < 0")
  case True
  then obtain k1 where k1: "ikcp_ack_push k (h_sn h) (h_ts h) = Inr k1"
    using assms by (auto simp: input_push_def)
  have "kcp_wf k1" using assms(1) k1 by (rule ack_push_wf)
  then have wf: "kcp_wf (k1\<lparr>mem := m\<rparr>)" for m by (simp add: wf_defs)
  have "wf_ack k" using assms(1) by (simp add: kcp_wf_def)
  then have same: "rcv_nxt k1 = rcv_nxt k" "rcv_wnd k1 = rcv_wnd k"
    "rcv_queue k1 = rcv_queue k" "rcv_buf k1 = rcv_buf k"
    using k1 by (cases rule: ack_push_cases [of k "h_sn h" "h_ts h"]; auto simp: acks_set_def)+
  show ?thesis
  proof (cases "itimediff (h_sn h) (rcv_nxt k) < 0")
    case old': True
    then show ?thesis using old assms(2) True k1 same by (simp add: input_push_def)
  next
    case False
    then obtain m where "k' = ikcp_parse_data (k1\<lparr>mem := m\<rparr>)
        (received_segment h payload (fresh_segment (unat (h_len h))))"
      using assms(2) True k1 same
      by (auto simp: input_push_def ikcp_segment_new_def Let_def ikcp_malloc_def split: if_splits)
    then show ?thesis using data [OF k1 _ wf same] True False by (simp add: in_rcv_window_def)
  qed
next
  case False
  then show ?thesis using beyond assms(2) by (simp add: input_push_def)
qed

lemma input_push_advances:
  assumes "kcp_wf k" and "input_push k h payload = Inr k'"
  shows "advances k k'"
proof -
  have wa: "wf_ack k" using assms(1) by (simp add: kcp_wf_def)
  from assms show ?thesis
  proof (cases rule: input_push_Inr)
    case beyond
    then show ?thesis by (simp add: advances_refl)
  next
    case old
    then show ?thesis using ack_push_advances [OF wa] by blast
  next
    case (data k1 m)
    have "advances k k1" using data(1) by (rule ack_push_advances [OF wa])
    then have "advances k (k1\<lparr>mem := m\<rparr>)" by (simp add: advances_def)
    moreover have "wf_rcv (k1\<lparr>mem := m\<rparr>)" using data(3) by (simp add: kcp_wf_def)
    ultimately show ?thesis
      using parse_data_advances advances_trans unfolding data(8) by blast
  qed
qed

lemma input_segment_advances:
  assumes "kcp_wf k" and "input_segment k h payload = Inr k'"
  shows "advances k k'"
proof -
  let ?k0 = "ikcp_parse_una (k\<lparr>rmt_wnd := ucast (h_wnd h)\<rparr>) (h_una h)"
  define k1 where "k1 = ikcp_shrink_buf ?k0"
  have open0: "kcp_open ?k0" using assms(1) by (intro parse_una_kcp_open rmt_wnd_open ucast16_less)
  then have wf1: "kcp_wf k1" unfolding k1_def by (rule shrink_wf)
  have "advances k (k\<lparr>rmt_wnd := ucast (h_wnd h)\<rparr>)" by (simp add: advances_def)
  then have "advances k ?k0" using parse_una_advances by (rule advances_trans)
  then have a1: "advances k k1"
    unfolding k1_def using shrink_advances [OF open0] by (rule advances_trans)
  have "k' = input_ack k1 h \<or> input_push k1 h payload = Inr k' \<or>
      (\<exists>p. k' = k1\<lparr>probe := p\<rparr>) \<or> k' = k1"
    using assms(2) unfolding input_segment_def Let_def k1_def [symmetric]
    by (simp split: if_splits) metis
  moreover have "advances k1 (k1\<lparr>probe := p\<rparr>)" for p by (simp add: advances_def)
  ultimately have "advances k1 k'"
    using input_ack_advances [OF wf1, of h] input_push_advances [OF wf1, of h payload k']
      advances_refl [of k1] by auto
  then show ?thesis using a1 by (rule advances_trans [rotated])
qed

lemma input_loop_advances:
  "input_loop data k = Inr (r, k') \<Longrightarrow> kcp_wf k \<longrightarrow> advances k k'"
proof (induction rule: input_loop_induct)
  case (turn k h payload k1 r k')
  then show ?case
    using input_segment_advances [of k h payload k1] input_segment_wf [of k h payload k1]
      advances_trans [of k k1 k'] by blast
qed (simp add: advances_refl)

lemma input_advances_aux:
  assumes "kcp_wf k" and "ikcp_input k dat = Inr (r, k')"
  shows "advances k k'"
  using assms(2)
proof (cases rule: input_cases)
  case ignored
  then show ?thesis by (simp add: advances_refl)
next
  case (looped data k1)
  have "advances k1 (k1\<lparr>cwnd := cwnd k', incr := incr k'\<rparr>)" by (simp add: advances_def)
  then show ?thesis
    using input_loop_advances [OF looped(2)] assms(1) looped(3) advances_trans by metis
qed

text \<open>
  C24: a datagram cannot make the control block lose or invent data.  The send queue and the
  next number to send are untouched, what is left in the send buffer was there before with the
  same contents, the unacknowledged window only shrinks, and the receive queue only grows at
  its end, by as many segments as the expected number advances, and not beyond the window.
\<close>

theorem input_advances:
  assumes "kcp_wf k" and "ikcp_input k dat = Inr (r, k')"
  shows "snd_nxt k' = snd_nxt k \<and> snd_queue k' = snd_queue k \<and>
    content ` set (snd_buf k') \<subseteq> content ` set (snd_buf k) \<and>
    unat (snd_nxt k - snd_una k') \<le> unat (snd_nxt k - snd_una k) \<and>
    (\<exists>new. rcv_queue k' = rcv_queue k @ new \<and> rcv_nxt k' = rcv_nxt k + of_nat (length new)) \<and>
    length (rcv_queue k') \<le> max (length (rcv_queue k)) (unat (rcv_wnd k))"
  using input_advances_aux [OF assms] by (simp add: advances_def)

lemma ack_push_pending:
  assumes "wf_ack k" and "unat (ackcount k) + 1 < 2 ^ 32" and "ikcp_ack_push k sn ts = Inr k'"
  shows "pending_acks k' = pending_acks k @ [(sn, ts)]"
  using ack_push_result [OF assms(1,2), of sn ts 0] assms(3) by simp

lemma pending_acks_cong:
  "acklist k' = acklist k \<Longrightarrow> ackcount k' = ackcount k \<Longrightarrow> pending_acks k' = pending_acks k"
  by (cases "acklist k") (simp_all add: pending_acks_def)

lemma parse_data_acks: "pending_acks (ikcp_parse_data k newseg) = pending_acks k"
  by (auto simp: ikcp_parse_data_def Let_def move_frame intro!: pending_acks_cong split: option.split)

lemma parse_data_stream:
  assumes "wf_rcv k" and "in_rcv_window k (seg_sn newseg)"
  shows "rcv_queue (ikcp_parse_data k newseg) @ rcv_buf (ikcp_parse_data k newseg) =
    rcv_queue k @ insert_segment (rcv_nxt k) newseg (rcv_buf k)"
  using assms moved_stream move_moved [of "parsed k newseg"]
  by (auto simp: parse_data_eq) (auto simp: parsed_def insert_segment_def)

text \<open>
  What a data segment does.  Beyond the receive window it is dropped without an answer;
  otherwise it is acknowledged with its own number and timestamp, and its bytes enter the
  receive sequence unless the number is below \<open>rcv_nxt\<close> or already present.
\<close>

lemma push_effect:
  assumes "kcp_wf k" and "unat (ackcount k) + 1 < 2 ^ 32" and "input_push k h payload = Inr k'"
  shows "if 0 \<le> itimediff (h_sn h) (rcv_nxt k + rcv_wnd k) then k' = k
    else pending_acks k' = pending_acks k @ [(h_sn h, h_ts h)] \<and>
      rcv_queue k' @ rcv_buf k' = rcv_queue k @
        (if itimediff (h_sn h) (rcv_nxt k) < 0 then rcv_buf k
         else insert_segment (rcv_nxt k)
           (received_segment h payload (fresh_segment (unat (h_len h)))) (rcv_buf k))"
proof -
  have wa: "wf_ack k" using assms(1) by (simp add: kcp_wf_def)
  from assms(1,3) show ?thesis
  proof (cases rule: input_push_Inr)
    case beyond
    then show ?thesis by simp
  next
    case old
    have "rcv_queue k' = rcv_queue k" "rcv_buf k' = rcv_buf k"
      using wa old(1) by (cases rule: ack_push_cases [of k "h_sn h" "h_ts h"]; auto simp: acks_set_def)+
    then show ?thesis using old ack_push_pending [OF wa assms(2)] by simp
  next
    case (data k1 m)
    let ?k1 = "k1\<lparr>mem := m\<rparr>"
    let ?seg = "received_segment h payload (fresh_segment (unat (h_len h)))"
    have "pending_acks k' = pending_acks ?k1" unfolding data(8) by (rule parse_data_acks)
    also have "\<dots> = pending_acks k @ [(h_sn h, h_ts h)]"
      using ack_push_pending [OF wa assms(2) data(1)] pending_acks_cong [of ?k1 k1] by simp
    finally have acks: "pending_acks k' = pending_acks k @ [(h_sn h, h_ts h)]" .
    have "wf_rcv ?k1" using data(3) by (simp add: kcp_wf_def)
    moreover have "in_rcv_window ?k1 (seg_sn ?seg)"
      using data(2,4,5) by (simp add: in_rcv_window_def received_segment_def)
    ultimately have "rcv_queue k' @ rcv_buf k' =
        rcv_queue k @ insert_segment (rcv_nxt k) ?seg (rcv_buf k)"
      unfolding data(8) using data(4,6,7) by (simp add: parse_data_stream)
    then show ?thesis using acks data(2) by (simp add: in_rcv_window_def)
  qed
qed

lemma input_untouched:
  assumes "ikcp_input k dat = Inr (r, k')"
  shows "untouched k' = untouched k"
  using assms
proof (cases rule: input_cases)
  case (looped data k1)
  have "untouched k1 = untouched k"
    using looped(2) by (induction rule: input_loop_induct) (auto dest: input_segment_untouched)
  moreover have "untouched (k1\<lparr>cwnd := c, incr := i\<rparr>) = untouched k1" for c i
    by (simp add: untouched_def settings_def)
  ultimately show ?thesis using looped(3) by metis
qed simp

lemma input_settings: "ikcp_input k dat = Inr (r, k') \<Longrightarrow> settings k' = settings k"
  using input_untouched [of k dat r k'] by (simp add: untouched_def)

lemma input_conv: "ikcp_input k dat = Inr (r, k') \<Longrightarrow> conv k' = conv k"
  using input_settings [of k dat r k'] by (simp add: settings_def)

end
