(* ===== verification/Flush.thy ===== *)
theory Flush
  imports Input
begin

text \<open>
  Outgoing datagrams (\<open>ikcp.c: ikcp_output, ikcp_flush\<close>): the acknowledgements, the window
  probes and the data segments that are due are packed into the output buffer, which is
  handed to the output callback whenever the next segment would exceed the MTU.
\<close>

section \<open>The operation\<close>

text \<open>
  The bytes between \<open>buffer\<close> and \<open>ptr\<close>, and the datagrams handed to the callback so far.
  The callback is code of the client; what it may do to the control block is not modelled.
\<close>

record flushing =
  filled :: "u8 list"
  outputs :: "u8 list list"

definition ikcp_output :: "ikcpcb \<Rightarrow> flushing \<Rightarrow> flushing outcome" where
  "ikcp_output k out =
     (if filled out = [] then Inr out
      else guardE (output_cb k) Null_Deref (Inr (out\<lparr>outputs := outputs out @ [filled out]\<rparr>)))"

text \<open>
  \<open>size + IKCP_OVERHEAD > (int)kcp->mtu\<close> is a comparison of unsigned values, as the
  overhead is of type \<open>IUINT32\<close>; then the header is written at \<open>ptr\<close>.
\<close>

definition flush_header :: "ikcpcb \<Rightarrow> ikcpseg \<Rightarrow> flushing \<Rightarrow> flushing outcome" where
  "flush_header k seg out =
     bindE
       (if (of_nat (length (filled out)) :: u32) + IKCP_OVERHEAD > mtu k
        then bindE (ikcp_output k out) (\<lambda>out. Inr (out\<lparr>filled := []\<rparr>))
        else Inr out)
       (\<lambda>out. guardE (length (filled out) + 24 \<le> buffer k) Out_Of_Bounds
                (Inr (out\<lparr>filled := ikcp_encode_seg (filled out) seg\<rparr>)))"

text \<open>The loop over the acknowledge list; the first number is \<open>count - i\<close>.\<close>

fun flush_acks :: "ikcpcb \<Rightarrow> nat \<Rightarrow> nat \<Rightarrow> ikcpseg \<Rightarrow> flushing \<Rightarrow> (ikcpseg \<times> flushing) outcome" where
  "flush_acks k 0 i seg out = Inr (seg, out)"
| "flush_acks k (Suc n) i seg out =
     bindE (ikcp_ack_get k i) (\<lambda>(sn, ts).
       let seg = seg\<lparr>seg_sn := sn, seg_ts := ts\<rparr> in
       bindE (flush_header k seg out) (flush_acks k n (i + 1) seg))"

text \<open>"probe window size (if remote window size equals zero)"\<close>

definition probe_timer :: "ikcpcb \<Rightarrow> ikcpcb" where
  "probe_timer k =
     (if rmt_wnd k = 0 then
        if probe_wait k = 0
        then k\<lparr>probe_wait := IKCP_PROBE_INIT, ts_probe := current k + IKCP_PROBE_INIT\<rparr>
        else if itimediff (current k) (ts_probe k) \<ge> 0
        then let w = (if probe_wait k < IKCP_PROBE_INIT then IKCP_PROBE_INIT else probe_wait k);
                 w = w + w div 2;
                 w = (if w > IKCP_PROBE_LIMIT then IKCP_PROBE_LIMIT else w)
             in k\<lparr>probe_wait := w, ts_probe := current k + w, probe := probe k OR IKCP_ASK_SEND\<rparr>
        else k
      else k\<lparr>ts_probe := 0, probe_wait := 0\<rparr>)"

definition flush_probes :: "ikcpcb \<Rightarrow> ikcpseg \<Rightarrow> flushing \<Rightarrow> flushing outcome" where
  "flush_probes k seg out =
     bindE
       (if probe k AND IKCP_ASK_SEND \<noteq> 0
        then flush_header k (seg\<lparr>seg_cmd := IKCP_CMD_WASK\<rparr>) out else Inr out)
       (\<lambda>out. if probe k AND IKCP_ASK_TELL \<noteq> 0
               then flush_header k (seg\<lparr>seg_cmd := IKCP_CMD_WINS\<rparr>) out else Inr out)"

definition flush_cwnd :: "ikcpcb \<Rightarrow> u32" where
  "flush_cwnd k =
     (let w = imin (snd_wnd k) (rmt_wnd k) in if nocwnd k = 0 then imin (cwnd k) w else w)"

text \<open>"move data from snd_queue to snd_buf"; \<open>wnd\<close> is the window field of \<open>seg\<close>\<close>

function move_snd_queue :: "ikcpcb \<Rightarrow> u32 \<Rightarrow> u32 \<Rightarrow> ikcpcb" where
  "move_snd_queue k wnd c =
     (if itimediff (snd_nxt k) (snd_una k + c) < 0 then
        case snd_queue k of
          [] \<Rightarrow> k
        | newseg # rest \<Rightarrow>
            let newseg = newseg\<lparr>seg_conv := conv k, seg_cmd := IKCP_CMD_PUSH, seg_wnd := wnd,
                  seg_ts := current k, seg_sn := snd_nxt k, seg_una := rcv_nxt k,
                  seg_resendts := current k, seg_rto := word_of_int (rx_rto k),
                  seg_fastack := 0, seg_xmit := 0\<rparr>
            in move_snd_queue
              (k\<lparr>snd_queue := rest, snd_buf := snd_buf k @ [newseg], nsnd_que := nsnd_que k - 1,
                 nsnd_buf := nsnd_buf k + 1, snd_nxt := snd_nxt k + 1\<rparr>) wnd c
      else k)"
  by pat_completeness auto
termination
  by (relation "measure (\<lambda>(k, wnd, c). length (snd_queue k))") auto

declare move_snd_queue.simps [simp del]

text \<open>
  Whether a segment of the send buffer has to be sent now, with the changes to the segment,
  to \<open>kcp->xmit\<close> and to the counters \<open>change\<close> and \<open>lost\<close>.
\<close>

definition resend_step ::
  "u32 \<Rightarrow> u32 \<Rightarrow> ikcpcb \<Rightarrow> ikcpseg \<Rightarrow> int \<Rightarrow> int \<Rightarrow> bool \<times> ikcpseg \<times> ikcpcb \<times> int \<times> int" where
  "resend_step resent rtomin k segment change lost =
     (if seg_xmit segment = 0 then
        let segment = segment\<lparr>seg_rto := word_of_int (rx_rto k), seg_xmit := seg_xmit segment + 1\<rparr>;
            segment = segment\<lparr>seg_resendts := current k + seg_rto segment + rtomin\<rparr>
        in (True, segment, k, change, lost)
      else if itimediff (current k) (seg_resendts segment) \<ge> 0 then
        let segment = segment\<lparr>seg_rto := seg_rto segment +
                (if nodelay k = 0 then word_of_int (rx_rto k) else word_of_int (rx_rto k sdiv 2)),
              seg_xmit := seg_xmit segment + 1\<rparr>;
            segment = segment\<lparr>seg_resendts := current k + seg_rto segment\<rparr>
        in (True, segment, k\<lparr>xmit := xmit k + 1\<rparr>, change, 1)
      else if seg_fastack segment \<ge> resent then
        let segment = segment\<lparr>seg_resendts := current k + seg_rto segment, seg_fastack := 0,
              seg_xmit := seg_xmit segment + 1\<rparr>
        in (True, segment, k, change + 1, lost)
      else (False, segment, k, change, lost))"

text \<open>\<open>(int)(ptr - buffer)\<close> and \<open>size + need\<close>, a sum of two \<open>int\<close>s\<close>

definition data_overflow :: "ikcpcb \<Rightarrow> ikcpseg \<Rightarrow> flushing \<Rightarrow> bool" where
  "data_overflow k segment out =
     (let size = s32 (int (length (filled out)));
          need = sint (IKCP_OVERHEAD + seg_len segment)
      in s32 (size + need) > sint (mtu k))"

definition flush_segment :: "ikcpcb \<Rightarrow> u32 \<Rightarrow> ikcpseg \<Rightarrow> flushing \<Rightarrow> (ikcpseg \<times> flushing) outcome" where
  "flush_segment k wnd segment out =
     (let segment = segment\<lparr>seg_wnd := wnd, seg_ts := current k, seg_una := rcv_nxt k\<rparr> in
      bindE
        (if data_overflow k segment out
         then bindE (ikcp_output k out) (\<lambda>out. Inr (out\<lparr>filled := []\<rparr>))
         else Inr out)
        (\<lambda>out.
          guardE (length (filled out) + 24 + unat (seg_len segment) \<le> buffer k \<and>
              unat (seg_len segment) \<le> length (seg_data segment)) Out_Of_Bounds
            (Inr (segment, out\<lparr>filled := ikcp_encode_seg (filled out) segment @
               (if seg_len segment > 0 then seg_bytes segment else [])\<rparr>))))"

text \<open>
  "flush data segments": the loop over the send buffer.  It returns the segments as they
  are left in the buffer.
\<close>

fun flush_data ::
  "u32 \<Rightarrow> u32 \<Rightarrow> u32 \<Rightarrow> ikcpseg list \<Rightarrow> ikcpcb \<Rightarrow> int \<Rightarrow> int \<Rightarrow> flushing \<Rightarrow>
   (ikcpseg list \<times> ikcpcb \<times> int \<times> int \<times> flushing) outcome" where
  "flush_data resent rtomin wnd [] k change lost out = Inr ([], k, change, lost, out)"
| "flush_data resent rtomin wnd (segment # ps) k change lost out =
     (let (needsend, segment, k, change, lost) = resend_step resent rtomin k segment change lost in
      bindE
        (if needsend
         then bindE (flush_segment k wnd segment out) (\<lambda>(segment, out).
           Inr (segment,
                if seg_xmit segment \<ge> dead_link k then k\<lparr>state := -1\<rparr> else k, out))
         else Inr (segment, k, out))
        (\<lambda>(segment, k, out).
          bindE (flush_data resent rtomin wnd ps k change lost out)
            (\<lambda>(segs, k, change, lost, out). Inr (segment # segs, k, change, lost, out))))"

text \<open>"update ssthresh"\<close>

definition update_ssthresh :: "u32 \<Rightarrow> u32 \<Rightarrow> int \<Rightarrow> int \<Rightarrow> ikcpcb \<Rightarrow> ikcpcb" where
  "update_ssthresh resent c change lost k =
     (let k = (if change \<noteq> 0 then
                 let inflight = snd_nxt k - snd_una k;
                     s = (if inflight div 2 < IKCP_THRESH_MIN then IKCP_THRESH_MIN
                          else inflight div 2)
                 in k\<lparr>ssthresh := s, cwnd := s + resent, incr := (s + resent) * mss k\<rparr>
               else k);
          k = (if lost \<noteq> 0 then
                 k\<lparr>ssthresh := (if c div 2 < IKCP_THRESH_MIN then IKCP_THRESH_MIN else c div 2),
                   cwnd := 1, incr := mss k\<rparr>
               else k)
      in if cwnd k < 1 then k\<lparr>cwnd := 1, incr := mss k\<rparr> else k)"

text \<open>The local variable \<open>seg\<close> of \<open>ikcp_flush\<close>\<close>

definition control_segment :: "ikcpcb \<Rightarrow> ikcpseg" where
  "control_segment k =
     (fresh_segment 0)\<lparr>seg_conv := conv k, seg_cmd := IKCP_CMD_ACK,
        seg_wnd := word_of_int (ikcp_wnd_unused k), seg_una := rcv_nxt k\<rparr>"

definition flush_resent :: "ikcpcb \<Rightarrow> u32" where
  "flush_resent k = (if fastresend k > 0 then word_of_int (fastresend k) else 0xffffffff)"

definition flush_rtomin :: "ikcpcb \<Rightarrow> u32" where
  "flush_rtomin k = (if nodelay k = 0 then word_of_int (drop_bit 3 (rx_rto k)) else 0)"

definition ikcp_flush :: "ikcpcb \<Rightarrow> (u8 list list \<times> ikcpcb) outcome" where
  "ikcp_flush k =
     (if updated k = 0 then Inr ([], k)
      else
        let seg = control_segment k in
        bindE (flush_acks k (nat (sint (ackcount k))) 0 seg \<lparr>filled = [], outputs = []\<rparr>)
          (\<lambda>(seg, out).
        let k = k\<lparr>ackcount := 0\<rparr>;
            k = probe_timer k in
        bindE (flush_probes k seg out) (\<lambda>out.
        let k = k\<lparr>probe := 0\<rparr>;
            c = flush_cwnd k;
            k = move_snd_queue k (seg_wnd seg) c;
            resent = flush_resent k;
            rtomin = flush_rtomin k in
        bindE (flush_data resent rtomin (seg_wnd seg) (snd_buf k) k 0 0 out)
          (\<lambda>(segs, k, change, lost, out).
        let k = k\<lparr>snd_buf := segs\<rparr> in
        bindE (ikcp_output k out) (\<lambda>out.
          Inr (outputs out, update_ssthresh resent c change lost k))))))"

section \<open>What a flush should send\<close>

text \<open>
  The segments of a flush in their order, independent of the output buffer: one per waiting
  acknowledgement, the probes, and the data segments that are due, each with its payload.
\<close>

definition wire_length :: "header \<times> u8 list \<Rightarrow> nat" where
  "wire_length seg = 24 + length (snd seg)"

text \<open>\<open>count\<close> is an \<open>int\<close>: from \<open>2^31\<close> acknowledgements on it is negative and none is sent.\<close>

definition flushed_acks :: "ikcpcb \<Rightarrow> (u32 \<times> u32) list" where
  "flushed_acks k = take (nat (sint (ackcount k))) (pending_acks k)"

definition ack_plan :: "ikcpcb \<Rightarrow> (header \<times> u8 list) list" where
  "ack_plan k =
     map (\<lambda>(sn, ts). (header_of (control_segment k\<lparr>seg_sn := sn, seg_ts := ts\<rparr>), []))
       (flushed_acks k)"

text \<open>A probe carries the number and the timestamp of the last acknowledgement.\<close>

definition last_ack :: "ikcpcb \<Rightarrow> u32 \<times> u32" where
  "last_ack k = (if flushed_acks k = [] then (0, 0) else last (flushed_acks k))"

definition probe_plan :: "ikcpcb \<Rightarrow> (header \<times> u8 list) list" where
  "probe_plan k =
     (let seg = control_segment k\<lparr>seg_sn := fst (last_ack k), seg_ts := snd (last_ack k)\<rparr>;
          p = probe (probe_timer k)
      in (if p AND IKCP_ASK_SEND \<noteq> 0 then [(header_of (seg\<lparr>seg_cmd := IKCP_CMD_WASK\<rparr>), [])] else []) @
         (if p AND IKCP_ASK_TELL \<noteq> 0 then [(header_of (seg\<lparr>seg_cmd := IKCP_CMD_WINS\<rparr>), [])] else []))"

text \<open>How many queued segments fit in the window, and these segments with their numbers.\<close>

definition window_room :: "ikcpcb \<Rightarrow> nat" where
  "window_room k =
     min (length (snd_queue k)) (unat (flush_cwnd k) - unat (snd_nxt k - snd_una k))"

definition numbered :: "ikcpcb \<Rightarrow> u32 \<Rightarrow> nat \<Rightarrow> ikcpseg \<Rightarrow> ikcpseg" where
  "numbered k wnd i s =
     s\<lparr>seg_conv := conv k, seg_cmd := IKCP_CMD_PUSH, seg_wnd := wnd,
       seg_ts := current k, seg_sn := snd_nxt k + of_nat i, seg_una := rcv_nxt k,
       seg_resendts := current k, seg_rto := word_of_int (rx_rto k),
       seg_fastack := 0, seg_xmit := 0\<rparr>"

definition admitted :: "ikcpcb \<Rightarrow> u32 \<Rightarrow> nat \<Rightarrow> ikcpseg list" where
  "admitted k wnd n = map (\<lambda>i. numbered k wnd i (snd_queue k ! i)) [0..<n]"

definition due :: "u32 \<Rightarrow> ikcpcb \<Rightarrow> ikcpseg \<Rightarrow> bool" where
  "due resent k s \<longleftrightarrow>
     seg_xmit s = 0 \<or> itimediff (current k) (seg_resendts s) \<ge> 0 \<or> resent \<le> seg_fastack s"

definition timed_out :: "ikcpcb \<Rightarrow> ikcpseg \<Rightarrow> bool" where
  "timed_out k s \<longleftrightarrow> seg_xmit s \<noteq> 0 \<and> itimediff (current k) (seg_resendts s) \<ge> 0"

definition skipped :: "u32 \<Rightarrow> ikcpcb \<Rightarrow> ikcpseg \<Rightarrow> bool" where
  "skipped resent k s \<longleftrightarrow>
     seg_xmit s \<noteq> 0 \<and> itimediff (current k) (seg_resendts s) < 0 \<and> resent \<le> seg_fastack s"

definition stamped :: "ikcpcb \<Rightarrow> u32 \<Rightarrow> ikcpseg \<Rightarrow> header \<times> u8 list" where
  "stamped k wnd s =
     (header_of (s\<lparr>seg_wnd := wnd, seg_ts := current k, seg_una := rcv_nxt k\<rparr>), seg_data s)"

definition data_plan :: "ikcpcb \<Rightarrow> (header \<times> u8 list) list" where
  "data_plan k =
     (let wnd = seg_wnd (control_segment k)
      in map (stamped k wnd)
           (filter (due (flush_resent k) k) (snd_buf k @ admitted k wnd (window_room k))))"

definition flush_plan :: "ikcpcb \<Rightarrow> (header \<times> u8 list) list" where
  "flush_plan k = ack_plan k @ probe_plan k @ data_plan k"

text \<open>Greedy packing: a segment that does not fit any more starts the next datagram.\<close>

type_synonym packing = "(header \<times> u8 list) list \<times> (header \<times> u8 list) list list"

definition pack_step :: "nat \<Rightarrow> packing \<Rightarrow> header \<times> u8 list \<Rightarrow> packing" where
  "pack_step m p seg =
     (if sum_list (map wire_length (fst p)) + wire_length seg > m then ([seg], snd p @ [fst p])
      else (fst p @ [seg], snd p))"

definition pack_end :: "packing \<Rightarrow> (header \<times> u8 list) list list" where
  "pack_end p = (if fst p = [] then snd p else snd p @ [fst p])"

definition pack :: "nat \<Rightarrow> (header \<times> u8 list) list \<Rightarrow> (header \<times> u8 list) list list" where
  "pack m segs = pack_end (foldl (pack_step m) ([], []) segs)"

section \<open>Packing\<close>

lemma datagram_simps [simp]:
  "datagram [] = []"
  "datagram (a @ b) = datagram a @ datagram b"
  "datagram [(h, d)] = encode_header [] h @ d"
  by (simp_all add: datagram_def)

lemma length_datagram: "length (datagram segs) = sum_list (map wire_length segs)"
  by (induction segs)
    (auto simp: datagram_def wire_length_def hdr.enc_length split: prod.split)

lemma datagram_Nil_iff: "datagram segs = [] \<longleftrightarrow> segs = []"
  using length_datagram [of segs] by (cases segs) (auto simp: wire_length_def)

text \<open>A packing loses nothing, its datagrams are not empty and not longer than \<open>m\<close>.\<close>

definition packing_ok :: "nat \<Rightarrow> packing \<Rightarrow> bool" where
  "packing_ok m p \<longleftrightarrow> sum_list (map wire_length (fst p)) \<le> m \<and>
     (\<forall>d \<in> set (snd p). d \<noteq> [] \<and> sum_list (map wire_length d) \<le> m)"

lemma pack_step_ok:
  assumes "packing_ok m p" and "wire_length seg \<le> m"
  shows "packing_ok m (pack_step m p seg)"
proof (cases "sum_list (map wire_length (fst p)) + wire_length seg > m")
  case True
  then have "fst p \<noteq> []" using assms(2) by auto
  then show ?thesis using True assms by (auto simp: pack_step_def packing_ok_def)
next
  case False
  then show ?thesis using assms by (auto simp: pack_step_def packing_ok_def)
qed

lemma pack_fold_ok:
  "packing_ok m p \<Longrightarrow> \<forall>s \<in> set segs. wire_length s \<le> m \<Longrightarrow> packing_ok m (foldl (pack_step m) p segs)"
proof (induction segs arbitrary: p)
  case (Cons s segs)
  then have "packing_ok m (pack_step m p s)" by (intro pack_step_ok) auto
  then show ?case using Cons by simp
qed simp

lemma pack_step_concat:
  "concat (snd (pack_step m p s)) @ fst (pack_step m p s) = concat (snd p) @ fst p @ [s]"
  by (simp add: pack_step_def)

lemma pack_fold_concat:
  "concat (snd (foldl (pack_step m) p segs)) @ fst (foldl (pack_step m) p segs) =
   concat (snd p) @ fst p @ segs"
  by (induction segs arbitrary: p) (simp_all add: pack_step_concat)

lemma concat_pack: "concat (pack m segs) = segs"
  using pack_fold_concat [of m "([], [])" segs] by (auto simp: pack_def pack_end_def)

lemma pack_bounds:
  assumes "\<forall>s \<in> set segs. wire_length s \<le> m" and "d \<in> set (pack m segs)"
  shows "d \<noteq> [] \<and> length (datagram d) \<le> m"
proof -
  have "packing_ok m (foldl (pack_step m) ([], []) segs)"
    using assms(1) by (intro pack_fold_ok) (simp_all add: packing_ok_def)
  then show ?thesis
    using assms(2) by (auto simp: pack_def pack_end_def packing_ok_def length_datagram split: if_splits)
qed

text \<open>The output buffer and the datagrams sent stand for a packing.\<close>

definition represents :: "ikcpcb \<Rightarrow> flushing \<Rightarrow> packing \<Rightarrow> bool" where
  "represents k out p \<longleftrightarrow> filled out = datagram (fst p) \<and> outputs out = map datagram (snd p) \<and>
     packing_ok (unat (mtu k)) p"

lemma output_represents:
  assumes "represents k out p" and "output_cb k" and "fst p \<noteq> []"
  shows "ikcp_output k out = Inr (out\<lparr>outputs := map datagram (snd p @ [fst p])\<rparr>)"
  using assms by (simp add: ikcp_output_def represents_def datagram_Nil_iff)

lemma output_ends:
  assumes "represents k out p" and "output_cb k"
  shows "\<exists>out'. ikcp_output k out = Inr out' \<and> outputs out' = map datagram (pack_end p)"
  using assms by (cases "fst p = []")
    (auto simp: output_represents pack_end_def, auto simp: ikcp_output_def represents_def)

text \<open>The room in the output buffer.\<close>

lemma buffer_room:
  assumes "wf_buffer k"
  shows "unat (mtu k) < 1073741824" "unat (mtu k) \<le> buffer k" "50 \<le> unat (mtu k)"
    "unat (mss k) + 24 = unat (mtu k)" "sint (mtu k) = int (unat (mtu k))"
proof -
  show m: "unat (mtu k) < 1073741824" "unat (mtu k) \<le> buffer k" and f: "50 \<le> unat (mtu k)"
    using assms by (simp_all add: wf_buffer_def word_le_nat_alt)
  then have "(24 :: u32) \<le> mtu k" by (simp add: word_le_nat_alt)
  then show "unat (mss k) + 24 = unat (mtu k)"
    using assms f unat_sub [of 24 "mtu k"] by (simp add: wf_buffer_def)
  show "sint (mtu k) = int (unat (mtu k))" using m(1) by (intro sint_small) simp
qed

lemma represents_length:
  assumes "represents k out p"
  shows "length (filled out) = sum_list (map wire_length (fst p))"
    and "length (filled out) \<le> unat (mtu k)"
  using assms by (simp_all add: represents_def packing_ok_def length_datagram)

text \<open>The two overflow tests agree with the test of the packing.\<close>

lemma header_overflow:
  assumes "wf_buffer k" and "represents k out p"
  shows "(of_nat (length (filled out)) :: u32) + 24 > mtu k \<longleftrightarrow>
    sum_list (map wire_length (fst p)) + 24 > unat (mtu k)"
proof -
  have "unat ((of_nat (length (filled out)) :: u32) + 24) = length (filled out) + 24"
    using buffer_room(1) [OF assms(1)] represents_length(2) [OF assms(2)]
    by (subst unat_add32) (simp_all add: unat_of_nat32)
  then show ?thesis
    using represents_length(1) [OF assms(2)] by (simp add: word_less_nat_alt)
qed

lemma s32_nat: "n < 2147483648 \<Longrightarrow> s32 (int n) = int n"
  by (intro s32_id) simp_all

lemma data_overflow_iff:
  assumes "wf_buffer k" and "represents k out p" and "seg_fits (mss k) s"
  shows "data_overflow k s out \<longleftrightarrow>
    sum_list (map wire_length (fst p)) + wire_length (h, seg_data s) > unat (mtu k)"
proof -
  note b = buffer_room [OF assms(1)] and l = represents_length [OF assms(2)]
  have s: "unat (seg_len s) \<le> unat (mss k)" "length (seg_data s) = unat (seg_len s)"
    using assms(3) by (simp_all add: seg_fits_def seg_sound_def word_le_nat_alt)
  have "unat (24 + seg_len s) = 24 + unat (seg_len s)"
    using b s by (subst unat_add32) simp_all
  then have "sint (24 + seg_len s) = int (24 + unat (seg_len s))"
    using b s by (subst sint_small) simp_all
  moreover have "s32 (int (length (filled out))) = int (length (filled out))"
    using b(1) l(2) by (intro s32_nat) linarith
  moreover have "s32 (int (length (filled out)) + int (24 + unat (seg_len s))) =
      int (length (filled out)) + int (24 + unat (seg_len s))"
    using b(1,4) l(2) s unfolding of_nat_add [symmetric] by (intro s32_nat) linarith
  ultimately have "data_overflow k s out \<longleftrightarrow>
      int (length (filled out)) + int (24 + unat (seg_len s)) > int (unat (mtu k))"
    unfolding data_overflow_def Let_def b(5) by simp
  then show ?thesis unfolding l(1) [symmetric] wire_length_def snd_conv s(2) by linarith
qed

text \<open>Putting a segment into the output buffer is a step of the packing.\<close>

lemma represents_put:
  assumes "represents k out p" and "wire_length (h, d) \<le> unat (mtu k)"
    and "if sum_list (map wire_length (fst p)) + wire_length (h, d) > unat (mtu k)
      then fst q = [(h, d)] \<and> snd q = snd p @ [fst p] else fst q = fst p @ [(h, d)] \<and> snd q = snd p"
  shows "q = pack_step (unat (mtu k)) p (h, d)"
  using assms by (simp add: pack_step_def prod_eq_iff split: if_splits)

lemma flush_header_step:
  assumes "wf_buffer k" and "output_cb k" and "represents k out p"
  shows "\<exists>out'. flush_header k seg out = Inr out' \<and>
    represents k out' (pack_step (unat (mtu k)) p (header_of seg, []))"
proof -
  note b = buffer_room [OF assms(1)] and l = represents_length [OF assms(3)]
  let ?p = "pack_step (unat (mtu k)) p (header_of seg, [])"
  have ok: "packing_ok (unat (mtu k)) ?p"
    using assms(3) b by (intro pack_step_ok) (auto simp: represents_def wire_length_def)
  show ?thesis
  proof (cases "sum_list (map wire_length (fst p)) + 24 > unat (mtu k)")
    case True
    then have ne: "fst p \<noteq> []" using b by auto
    show ?thesis
      using True ok b header_overflow [OF assms(1,3)] output_represents [OF assms(3,2) ne]
      by (simp add: flush_header_def represents_def pack_step_def wire_length_def encode_seg_header)
  next
    case False
    then show ?thesis
      using ok b l header_overflow [OF assms(1,3)] assms(3)
      by (simp add: flush_header_def represents_def pack_step_def wire_length_def
          encode_seg_header [symmetric] encode_seg_append [of "datagram _"])
  qed
qed

lemma flush_segment_step:
  assumes "wf_buffer k" and "output_cb k" and "represents k out p" and "seg_fits (mss k) s"
  shows "\<exists>out'. flush_segment k wnd s out =
      Inr (s\<lparr>seg_wnd := wnd, seg_ts := current k, seg_una := rcv_nxt k\<rparr>, out') \<and>
    represents k out' (pack_step (unat (mtu k)) p (stamped k wnd s))"
proof -
  let ?s = "s\<lparr>seg_wnd := wnd, seg_ts := current k, seg_una := rcv_nxt k\<rparr>"
  have fits: "seg_fits (mss k) ?s" using assms(4) by (simp add: seg_fits_def seg_sound_def)
  note b = buffer_room [OF assms(1)] and l = represents_length [OF assms(3)]
  note ov = data_overflow_iff [OF assms(1,3) fits, of "header_of ?s"]
  have s: "unat (seg_len s) \<le> unat (mss k)" "length (seg_data s) = unat (seg_len s)"
    using assms(4) by (simp_all add: seg_fits_def seg_sound_def word_le_nat_alt)
  let ?p = "pack_step (unat (mtu k)) p (stamped k wnd s)"
  have ok: "packing_ok (unat (mtu k)) ?p"
    using assms(3) b s by (intro pack_step_ok) (auto simp: represents_def wire_length_def stamped_def)
  have payload: "(if seg_len s > 0 then seg_bytes ?s else []) = seg_data s"
    using s by (auto simp: seg_bytes_def word_gt_0)
  show ?thesis
  proof (cases "data_overflow k ?s out")
    case True
    then have ne: "fst p \<noteq> []" using ov b s by (auto simp: wire_length_def)
    then show ?thesis
      using True ov ok b s output_represents [OF assms(3,2) ne] payload
      by (simp add: flush_segment_def represents_def pack_step_def stamped_def encode_seg_header
          Let_def)
  next
    case False
    then have "length (filled out) + 24 + unat (seg_len s) \<le> buffer k"
      using ov b l s by (simp add: wire_length_def)
    then show ?thesis
      using False ov ok s payload assms(3)
      by (simp add: flush_segment_def represents_def pack_step_def stamped_def Let_def
          encode_seg_append [of "datagram _"]) (simp add: encode_seg_header)
  qed
qed

lemma flush_acks_steps:
  assumes "wf_buffer k" and "output_cb k" and "represents k out p"
    and "acklist k = Some a" and "i + n \<le> length a"
  shows "\<exists>out'. flush_acks k n i seg out = Inr
      ((if n = 0 then seg else seg\<lparr>seg_sn := fst (a ! (i + n - 1)), seg_ts := snd (a ! (i + n - 1))\<rparr>), out') \<and>
    represents k out' (foldl (pack_step (unat (mtu k))) p
      (map (\<lambda>(sn, ts). (header_of (seg\<lparr>seg_sn := sn, seg_ts := ts\<rparr>), [])) (take n (drop i a))))"
  using assms(3,5)
proof (induction n arbitrary: i seg out p)
  case (Suc n)
  let ?seg = "seg\<lparr>seg_sn := fst (a ! i), seg_ts := snd (a ! i)\<rparr>"
  obtain out1 where out1: "flush_header k ?seg out = Inr out1"
    "represents k out1 (pack_step (unat (mtu k)) p (header_of ?seg, []))"
    using flush_header_step [OF assms(1,2) Suc.prems(1), of ?seg] by blast
  have i: "i < length a" using Suc.prems(2) by simp
  then have d: "take (Suc n) (drop i a) = a ! i # take n (drop (i + 1) a)"
    by (metis Cons_nth_drop_Suc Suc_eq_plus1 take_Suc_Cons)
  have get: "ikcp_ack_get k i = Inr (fst (a ! i), snd (a ! i))"
    using i assms(4) by (simp add: ikcp_ack_get_def)
  have "i + 1 + n \<le> length a" using Suc.prems(2) by simp
  from Suc.IH [OF out1(2) this, of ?seg] show ?case
    using i get out1 d by (cases n) (auto simp: split_def)
qed simp

lemma flush_probes_steps:
  assumes "wf_buffer k" and "output_cb k" and "represents k out p"
  shows "\<exists>out'. flush_probes k seg out = Inr out' \<and>
    represents k out' (foldl (pack_step (unat (mtu k))) p
      ((if probe k AND 1 \<noteq> 0 then [(header_of (seg\<lparr>seg_cmd := 83\<rparr>), [])] else []) @
       (if probe k AND 2 \<noteq> 0 then [(header_of (seg\<lparr>seg_cmd := 84\<rparr>), [])] else [])))"
proof -
  obtain out1 where out1: "(if probe k AND 1 \<noteq> 0 then flush_header k (seg\<lparr>seg_cmd := 83\<rparr>) out
      else Inr out) = Inr out1" "represents k out1 (foldl (pack_step (unat (mtu k))) p
      (if probe k AND 1 \<noteq> 0 then [(header_of (seg\<lparr>seg_cmd := 83\<rparr>), [])] else []))"
    using flush_header_step [OF assms, of "seg\<lparr>seg_cmd := 83\<rparr>"] assms(3)
    by (cases "probe k AND 1 \<noteq> 0") auto
  show ?thesis
    using flush_header_step [OF assms(1,2) out1(2), of "seg\<lparr>seg_cmd := 84\<rparr>"] out1
    unfolding flush_probes_def by (cases "probe k AND 2 \<noteq> 0") auto
qed

section \<open>The loop over the send buffer\<close>

text \<open>The loop counts in \<open>xmit\<close> and may mark the link as dead.\<close>

definition charged :: "u32 \<Rightarrow> u32 \<Rightarrow> ikcpcb \<Rightarrow> ikcpcb" where
  "charged x s k = k\<lparr>state := s, xmit := x\<rparr>"

lemma charged_simps:
  "(charged x s k)\<lparr>xmit := y\<rparr> = charged y s k"
  "(charged x s k)\<lparr>state := t\<rparr> = charged x t k"
  "charged (xmit k) (state k) k = k"
  "current (charged x s k) = current k" "rx_rto (charged x s k) = rx_rto k"
  "nodelay (charged x s k) = nodelay k" "mtu (charged x s k) = mtu k" "mss (charged x s k) = mss k"
  "buffer (charged x s k) = buffer k" "output_cb (charged x s k) = output_cb k"
  "rcv_nxt (charged x s k) = rcv_nxt k" "xmit (charged x s k) = x"
  by (simp_all add: charged_def)

lemma charged_represents:
  "represents (charged x s k) out p = represents k out p"
  "wf_buffer (charged x s k) = wf_buffer k" "due r (charged x s k) = due r k"
  "stamped (charged x s k) wnd = stamped k wnd"
  "timed_out (charged x s k) = timed_out k" "skipped r (charged x s k) = skipped r k"
  "charged y t (charged x s k) = charged y t k"
  by (simp_all add: represents_def wf_buffer_def fun_eq_iff due_def stamped_def timed_out_def
      skipped_def charged_simps)
    (simp add: charged_def)

text \<open>What the loop leaves alone in a segment.\<close>

definition same_seg :: "ikcpseg \<Rightarrow> ikcpseg \<Rightarrow> bool" where
  "same_seg s t \<longleftrightarrow> seg_conv t = seg_conv s \<and> seg_cmd t = seg_cmd s \<and> seg_frg t = seg_frg s \<and>
     seg_sn t = seg_sn s \<and> seg_len t = seg_len s \<and> seg_data t = seg_data s"

lemma same_seg_stamped: "same_seg s t \<Longrightarrow> stamped k wnd t = stamped k wnd s"
  by (simp add: same_seg_def stamped_def header_of_def)

lemma same_seg_fits: "same_seg s t \<Longrightarrow> seg_fits m t = seg_fits m s"
  by (simp add: same_seg_def seg_fits_def seg_sound_def)

lemma resend_step_parts:
  "fst (resend_step resent rtomin k s change lost) = due resent k s"
  "same_seg s (fst (snd (resend_step resent rtomin k s change lost)))"
  "\<exists>x. fst (snd (snd (resend_step resent rtomin k s change lost))) = charged x (state k) k"
  "snd (snd (snd (resend_step resent rtomin k s change lost))) =
     (if skipped resent k s then change + 1 else change, if timed_out k s then 1 else lost)"
proof -
  show "snd (snd (snd (resend_step resent rtomin k s change lost))) =
     (if skipped resent k s then change + 1 else change, if timed_out k s then 1 else lost)"
    by (simp add: resend_step_def Let_def skipped_def timed_out_def)
  show "fst (resend_step resent rtomin k s change lost) = due resent k s"
    "same_seg s (fst (snd (resend_step resent rtomin k s change lost)))"
    by (simp_all add: resend_step_def due_def Let_def same_seg_def)
  have "k\<lparr>xmit := y\<rparr> = charged y (state k) k" for y by (simp add: charged_def)
  then show "\<exists>x. fst (snd (snd (resend_step resent rtomin k s change lost))) = charged x (state k) k"
    using charged_simps(3) [of k]
    by (cases "seg_xmit s \<noteq> 0 \<and> itimediff (current k) (seg_resendts s) \<ge> 0")
      (auto simp: resend_step_def Let_def intro: exI [of _ "xmit k"])
qed

lemma resend_step_result:
  obtains s' x where "resend_step resent rtomin k s change lost =
      (due resent k s, s', charged x (state k) k,
       (if skipped resent k s then change + 1 else change), (if timed_out k s then 1 else lost))"
    and "same_seg s s'"
  using resend_step_parts(1,3,4) [of resent rtomin k s change lost]
    resend_step_parts(2) [of s resent rtomin k change lost]
  by (cases "resend_step resent rtomin k s change lost") auto

lemma flush_data_steps:
  assumes "wf_buffer k" and "output_cb k" and "represents k out p"
    and "\<forall>s \<in> set ss. seg_fits (mss k) s"
  shows "\<exists>segs x st out'. flush_data resent rtomin wnd ss k change lost out =
      Inr (segs, charged x st k, change + int (length (filter (skipped resent k) ss)),
        (if \<exists>s \<in> set ss. timed_out k s then 1 else lost), out') \<and> list_all2 same_seg ss segs \<and>
    represents k out' (foldl (pack_step (unat (mtu k))) p
      (map (stamped k wnd) (filter (due resent k) ss)))"
  using assms
proof (induction ss arbitrary: k out p change lost)
  case Nil
  have "\<exists>x st. k = charged x st k" by (metis charged_simps(3))
  then show ?case using Nil by simp
next
  case (Cons s ss)
  define ch1 where "ch1 = (if skipped resent k s then change + 1 else change)"
  define lo1 where "lo1 = (if timed_out k s then 1 else lost)"
  obtain s1 x1 where r: "resend_step resent rtomin k s change lost =
      (due resent k s, s1, charged x1 (state k) k, ch1, lo1)" and same: "same_seg s s1"
    unfolding ch1_def lo1_def by (rule resend_step_result)
  have counts: "ch1 + int (length (filter (skipped resent k) ss)) =
      change + int (length (filter (skipped resent k) (s # ss)))"
    "(if \<exists>t \<in> set ss. timed_out k t then 1 else lo1) =
      (if \<exists>t \<in> set (s # ss). timed_out k t then 1 else lost)"
    by (simp_all add: ch1_def lo1_def)
  have fits: "seg_fits (mss k) s1" using Cons.prems(4) same_seg_fits [OF same] by simp
  have rest: "\<forall>t \<in> set ss. seg_fits (mss k) t" using Cons.prems(4) by simp
  show ?case
  proof (cases "due resent k s")
    case False
    let ?k = "charged x1 (state k) k"
    obtain segs x st out' where "flush_data resent rtomin wnd ss ?k ch1 lo1 out =
        Inr (segs, charged x st ?k, change + int (length (filter (skipped resent k) (s # ss))),
          (if \<exists>t \<in> set (s # ss). timed_out k t then 1 else lost), out')" "list_all2 same_seg ss segs"
      "represents ?k out' (foldl (pack_step (unat (mtu ?k))) p
        (map (stamped ?k wnd) (filter (due resent ?k) ss)))"
      using Cons.IH [of ?k out p ch1 lo1] Cons.prems(1-3) rest
      by (auto simp: charged_represents charged_simps counts simp del: set_simps filter.simps)
    then show ?thesis
      using r False same by (auto simp: charged_represents charged_simps)
  next
    case True
    let ?k1 = "charged x1 (state k) k"
    obtain out1 where out1: "flush_segment ?k1 wnd s1 out =
        Inr (s1\<lparr>seg_wnd := wnd, seg_ts := current k, seg_una := rcv_nxt k\<rparr>, out1)"
      "represents k out1 (pack_step (unat (mtu k)) p (stamped k wnd s))"
      using flush_segment_step [of ?k1 out p s1 wnd] Cons.prems fits same_seg_stamped [OF same]
      by (auto simp: charged_represents charged_simps)
    let ?s2 = "s1\<lparr>seg_wnd := wnd, seg_ts := current k, seg_una := rcv_nxt k\<rparr>"
    obtain x2 st2 where k2: "(if seg_xmit ?s2 \<ge> dead_link ?k1 then ?k1\<lparr>state := -1\<rparr> else ?k1) =
        charged x2 st2 k"
      using that [of x1 "-1"] that [of x1 "state k"]
      by (cases "dead_link ?k1 \<le> seg_xmit ?s2") (simp_all add: charged_simps)
    let ?k = "charged x2 st2 k"
    obtain segs x st out' where "flush_data resent rtomin wnd ss ?k ch1 lo1 out1 =
        Inr (segs, charged x st ?k, change + int (length (filter (skipped resent k) (s # ss))),
          (if \<exists>t \<in> set (s # ss). timed_out k t then 1 else lost), out')" "list_all2 same_seg ss segs"
      "represents ?k out' (foldl (pack_step (unat (mtu ?k))) (pack_step (unat (mtu k)) p (stamped k wnd s))
        (map (stamped ?k wnd) (filter (due resent ?k) ss)))"
      using Cons.IH [of ?k out1 "pack_step (unat (mtu k)) p (stamped k wnd s)" ch1 lo1]
        Cons.prems(1,2) rest out1(2)
      by (auto simp: charged_represents charged_simps counts simp del: set_simps filter.simps)
    moreover have "same_seg s ?s2" using same by (simp add: same_seg_def)
    ultimately show ?thesis
      using r True out1(1) k2 by (auto simp: charged_represents charged_simps)
  qed
qed

section \<open>Moving segments into the window\<close>

definition admit :: "nat \<Rightarrow> u32 \<Rightarrow> ikcpcb \<Rightarrow> ikcpcb" where
  "admit n wnd k =
     k\<lparr>snd_queue := drop n (snd_queue k), snd_buf := snd_buf k @ admitted k wnd n,
       nsnd_que := nsnd_que k - of_nat n, nsnd_buf := nsnd_buf k + of_nat n,
       snd_nxt := snd_nxt k + of_nat n\<rparr>"

lemma admit_0 [simp]: "admit 0 wnd k = k"
  by (simp add: admit_def admitted_def)

lemma admit_Suc:
  assumes "snd_queue k = s # rest"
  shows "admit n wnd (k\<lparr>snd_queue := rest, snd_buf := snd_buf k @ [numbered k wnd 0 s],
      nsnd_que := nsnd_que k - 1, nsnd_buf := nsnd_buf k + 1, snd_nxt := snd_nxt k + 1\<rparr>) =
    admit (Suc n) wnd k"
proof -
  have "map (\<lambda>i. numbered k wnd i (snd_queue k ! i)) [0..<Suc n] =
      numbered k wnd 0 s # map (\<lambda>i. numbered k wnd (Suc i) (rest ! i)) [0..<n]"
    unfolding map_upt_Suc using assms by simp
  then show ?thesis
    using assms by (simp add: admit_def admitted_def numbered_def algebra_simps)
qed

text \<open>Below 65536 the comparison of the window is the comparison of distances.\<close>

lemma window_open:
  fixes nxt una c :: u32
  assumes "unat (nxt - una) < 65536" and "c < 65536"
  shows "itimediff nxt (una + c) < 0 \<longleftrightarrow> unat (nxt - una) < unat c"
proof -
  have c: "unat c < 65536" using assms(2) by (simp add: word_less_nat_alt)
  have u: "unat (una + c - una) = unat c" by simp
  show ?thesis
  proof (cases "nxt = una + c")
    case True
    then show ?thesis by (simp add: itimediff_unat)
  next
    case False
    have "0 < itimediff nxt (una + c) \<longleftrightarrow> unat c < unat (nxt - una)"
      using itimediff_offsets [of nxt una "una + c"] assms(1) c by simp
    moreover have "unat c \<noteq> unat (nxt - una)"
      using False by (metis add_diff_cancel_left' offset_inj u)
    moreover have "itimediff nxt (una + c) \<noteq> 0"
      using False itimediff_gt0 [of nxt "una + c"] itimediff_lt0 [of nxt "una + c"] by fastforce
    ultimately show ?thesis by linarith
  qed
qed

lemma move_snd_admits:
  assumes "unat (snd_nxt k - snd_una k) < 65536" and "c < 65536"
  shows "move_snd_queue k wnd c =
    admit (min (length (snd_queue k)) (unat c - unat (snd_nxt k - snd_una k))) wnd k"
  using assms
proof (induction k wnd c rule: move_snd_queue.induct)
  case (1 k wnd c)
  note open_iff = window_open [OF "1.prems"]
  show ?case
  proof (cases "snd_queue k")
    case Nil
    then show ?thesis by (simp add: move_snd_queue.simps [of k])
  next
    case (Cons s rest)
    show ?thesis
    proof (cases "itimediff (snd_nxt k) (snd_una k + c) < 0")
      case False
      then show ?thesis using open_iff by (simp add: move_snd_queue.simps [of k])
    next
      case True
      let ?k = "k\<lparr>snd_queue := rest, snd_buf := snd_buf k @ [numbered k wnd 0 s],
        nsnd_que := nsnd_que k - 1, nsnd_buf := nsnd_buf k + 1, snd_nxt := snd_nxt k + 1\<rparr>"
      have lt: "unat (snd_nxt k - snd_una k) < unat c" using True open_iff by simp
      have c: "unat c < 65536" using "1.prems"(2) by (simp add: word_less_nat_alt)
      have "unat (snd_nxt k - snd_una k + 1) = unat (snd_nxt k - snd_una k) + 1"
        using lt c by (subst unat_add32) auto
      moreover have "snd_nxt k + 1 - snd_una k = snd_nxt k - snd_una k + 1" by simp
      ultimately have d: "unat (snd_nxt k + 1 - snd_una k) = unat (snd_nxt k - snd_una k) + 1"
        by (simp only:)
      have move: "move_snd_queue k wnd c = move_snd_queue ?k wnd c"
        using True Cons by (simp add: move_snd_queue.simps [of k] numbered_def Let_def)
      have "move_snd_queue ?k wnd c =
          admit (min (length rest) (unat c - unat (snd_nxt k + 1 - snd_una k))) wnd ?k"
        using "1.IH" [OF True Cons refl] d lt c "1.prems"(2) by (simp add: numbered_def)
      also have "\<dots> = admit (Suc (min (length rest) (unat c - unat (snd_nxt k + 1 - snd_una k)))) wnd k"
        by (rule admit_Suc [OF Cons])
      also have "Suc (min (length rest) (unat c - unat (snd_nxt k + 1 - snd_una k))) =
          min (length (snd_queue k)) (unat c - unat (snd_nxt k - snd_una k))"
        using lt Cons unfolding d by simp
      finally show ?thesis unfolding move .
    qed
  qed
qed

lemma snd_ordered_snoc:
  assumes "snd_ordered una ss nxt" and "seg_sn s = nxt" and "unat (nxt - una) < unat (nxt + 1 - una)"
  shows "snd_ordered una (ss @ [s]) (nxt + 1)"
proof -
  have "\<forall>x \<in> set (offsets una ss @ [unat (nxt - una)]). x < unat (nxt + 1 - una)"
    using assms(1,3) by (auto simp: snd_ordered_def sorted_wrt_append intro: less_trans)
  then show ?thesis
    using assms(1,2) by (simp add: snd_ordered_def sorted_wrt_append)
qed

lemma unat_succ_offset:
  fixes nxt una :: u32
  assumes "unat (nxt - una) < 65536"
  shows "unat (nxt + 1 - una) = unat (nxt - una) + 1"
proof -
  have "nxt + 1 - una = (nxt - una) + 1" by simp
  then show ?thesis using assms by (simp only:) (subst unat_add32, auto)
qed

lemma admit_one_wf:
  assumes "wf_snd k" and "snd_queue k = s # rest" and "unat (snd_nxt k - snd_una k) + 1 < 65536"
  shows "wf_snd (k\<lparr>snd_queue := rest, snd_buf := snd_buf k @ [numbered k wnd 0 s],
      nsnd_que := nsnd_que k - 1, nsnd_buf := nsnd_buf k + 1, snd_nxt := snd_nxt k + 1\<rparr>)"
proof -
  have d: "unat (snd_nxt k + 1 - snd_una k) = unat (snd_nxt k - snd_una k) + 1"
    using assms(3) by (intro unat_succ_offset) simp
  have fits: "seg_fits (mss k) (numbered k wnd 0 s)"
    using assms(1,2) by (simp add: wf_snd_alt numbered_def seg_fits_def seg_sound_def)
  have "snd_ordered (snd_una k) (snd_buf k @ [numbered k wnd 0 s]) (snd_nxt k + 1)"
    using assms(1) d by (intro snd_ordered_snoc) (simp_all add: wf_snd_alt numbered_def)
  moreover have "first_sn (snd_nxt k + 1) (snd_buf k @ [numbered k wnd 0 s]) = snd_una k"
    using assms(1) by (cases "snd_buf k") (simp_all add: wf_snd_alt numbered_def)
  ultimately show ?thesis
    using assms fits d by (auto simp: wf_snd_alt)
qed

lemma move_snd_wf:
  "wf_snd k \<Longrightarrow> c < 65536 \<Longrightarrow> wf_snd (move_snd_queue k wnd c)"
proof (induction k wnd c rule: move_snd_queue.induct)
  case (1 k wnd c)
  have in_window: "unat (snd_nxt k - snd_una k) < 65536" using "1.prems"(1) by (simp add: wf_snd_alt)
  have c: "unat c < 65536" using "1.prems"(2) by (simp add: word_less_nat_alt)
  show ?case
  proof (cases "snd_queue k")
    case Nil
    then show ?thesis using "1.prems" by (simp add: move_snd_queue.simps [of k])
  next
    case (Cons s rest)
    show ?thesis
    proof (cases "itimediff (snd_nxt k) (snd_una k + c) < 0")
      case False
      then show ?thesis using "1.prems" by (simp add: move_snd_queue.simps [of k])
    next
      case True
      then have "unat (snd_nxt k - snd_una k) + 1 < 65536"
        using window_open [OF in_window "1.prems"(2)] c by simp
      from admit_one_wf [OF "1.prems"(1) Cons this, of wnd] show ?thesis
        using "1.IH" [OF True Cons refl] True Cons "1.prems"(2)
        by (simp add: move_snd_queue.simps [of k] numbered_def Let_def)
    qed
  qed
qed

text \<open>The part of a flush before the data segments.\<close>

definition prepared :: "ikcpcb \<Rightarrow> ikcpcb" where
  "prepared k = (probe_timer (k\<lparr>ackcount := 0\<rparr>))\<lparr>probe := 0\<rparr>"

lemma probe_timer_frame:
  "mtu (probe_timer k) = mtu k" "mss (probe_timer k) = mss k" "buffer (probe_timer k) = buffer k"
  "output_cb (probe_timer k) = output_cb k" "conv (probe_timer k) = conv k"
  "snd_queue (probe_timer k) = snd_queue k" "snd_buf (probe_timer k) = snd_buf k"
  "nsnd_que (probe_timer k) = nsnd_que k" "nsnd_buf (probe_timer k) = nsnd_buf k"
  "snd_una (probe_timer k) = snd_una k" "snd_nxt (probe_timer k) = snd_nxt k"
  "rmt_wnd (probe_timer k) = rmt_wnd k" "snd_wnd (probe_timer k) = snd_wnd k"
  "cwnd (probe_timer k) = cwnd k" "nocwnd (probe_timer k) = nocwnd k"
  "rcv_queue (probe_timer k) = rcv_queue k" "rcv_buf (probe_timer k) = rcv_buf k"
  "nrcv_que (probe_timer k) = nrcv_que k" "nrcv_buf (probe_timer k) = nrcv_buf k"
  "rcv_nxt (probe_timer k) = rcv_nxt k" "rcv_wnd (probe_timer k) = rcv_wnd k"
  "acklist (probe_timer k) = acklist k" "ackblock (probe_timer k) = ackblock k"
  "ackcount (probe_timer k) = ackcount k" "interval (probe_timer k) = interval k"
  "rx_minrto (probe_timer k) = rx_minrto k" "rx_rto (probe_timer k) = rx_rto k"
  "current (probe_timer k) = current k" "nodelay (probe_timer k) = nodelay k"
  "fastresend (probe_timer k) = fastresend k" "mem (probe_timer k) = mem k"
  "updated (probe_timer k) = updated k" "ts_flush (probe_timer k) = ts_flush k"
  by (simp_all add: probe_timer_def Let_def)

lemma probe_timer_ackcount: "probe (probe_timer (k\<lparr>ackcount := x\<rparr>)) = probe (probe_timer k)"
  by (simp add: probe_timer_def Let_def)

lemma control_segment_ack0: "control_segment k\<lparr>seg_sn := 0, seg_ts := 0\<rparr> = control_segment k"
  by (simp add: control_segment_def fresh_segment_def)

lemma flushed_count: "nat (sint (c :: u32)) \<le> unat c"
proof (cases "unat c < 2147483648")
  case True
  then show ?thesis by (simp add: sint_small del: of_nat_unat)
next
  case False
  then have "itimediff c 0 < 0" by (simp add: itimediff_lt0)
  then show ?thesis by (simp add: itimediff_def)
qed

text \<open>The part of the flush that sends the acknowledgements.\<close>

lemma flush_acks_whole:
  assumes "wf_buffer k" and "wf_ack k" and "output_cb k"
  shows "\<exists>out. flush_acks k (nat (sint (ackcount k))) 0 (control_segment k) \<lparr>filled = [], outputs = []\<rparr> =
      Inr (control_segment k\<lparr>seg_sn := fst (last_ack k), seg_ts := snd (last_ack k)\<rparr>, out) \<and>
    represents k out (foldl (pack_step (unat (mtu k))) ([], []) (ack_plan k))"
proof -
  have empty: "represents k \<lparr>filled = [], outputs = []\<rparr> ([], [])"
    by (simp add: represents_def packing_ok_def)
  define n where "n = nat (sint (ackcount k))"
  have n: "n \<le> unat (ackcount k)" unfolding n_def by (rule flushed_count)
  show ?thesis
  proof (cases "acklist k")
    case None
    then have "ackcount k = 0" using assms(2) by (simp add: wf_ack_def)
    moreover have "flushed_acks k = []" using None by (simp add: flushed_acks_def pending_acks_def)
    ultimately show ?thesis
      using empty by (simp add: ack_plan_def last_ack_def control_segment_ack0)
  next
    case (Some a)
    then have a: "unat (ackcount k) \<le> length a" using assms(2) by (simp add: wf_ack_def)
    have take: "flushed_acks k = take n a"
      using Some n by (simp add: flushed_acks_def pending_acks_def n_def min_def)
    have "0 + n \<le> length a" using n a by simp
    from flush_acks_steps [OF assms(1,3) empty Some this, of "control_segment k"]
    obtain out where out: "flush_acks k n 0 (control_segment k) \<lparr>filled = [], outputs = []\<rparr> =
        Inr ((if n = 0 then control_segment k else control_segment k
          \<lparr>seg_sn := fst (a ! (n - 1)), seg_ts := snd (a ! (n - 1))\<rparr>), out)"
      "represents k out (foldl (pack_step (unat (mtu k))) ([], []) (ack_plan k))"
      unfolding ack_plan_def take by auto
    have "last (take n a) = a ! (n - 1)" if "n \<noteq> 0"
      using that n a by (subst last_conv_nth) auto
    then have "(if n = 0 then control_segment k else control_segment k
          \<lparr>seg_sn := fst (a ! (n - 1)), seg_ts := snd (a ! (n - 1))\<rparr>) =
        control_segment k\<lparr>seg_sn := fst (last_ack k), seg_ts := snd (last_ack k)\<rparr>"
      using a n by (auto simp: last_ack_def take control_segment_ack0)
    then show ?thesis using out unfolding n_def by auto
  qed
qed

text \<open>The control block when the loop over the send buffer starts.\<close>

definition windowed :: "ikcpcb \<Rightarrow> ikcpcb" where
  "windowed k = admit (window_room k) (seg_wnd (control_segment k)) (prepared k)"

lemma prepared_frame:
  "mtu (prepared k) = mtu k" "mss (prepared k) = mss k" "buffer (prepared k) = buffer k"
  "output_cb (prepared k) = output_cb k" "flush_cwnd (prepared k) = flush_cwnd k"
  "snd_queue (prepared k) = snd_queue k" "snd_buf (prepared k) = snd_buf k"
  "snd_una (prepared k) = snd_una k" "snd_nxt (prepared k) = snd_nxt k"
  "flush_resent (prepared k) = flush_resent k" "flush_rtomin (prepared k) = flush_rtomin k"
  "due r (prepared k) = due r k" "stamped (prepared k) wnd = stamped k wnd"
  "numbered (prepared k) wnd = numbered k wnd"
  by (simp_all add: prepared_def probe_timer_frame flush_cwnd_def flush_resent_def flush_rtomin_def
      due_def stamped_def numbered_def fun_eq_iff Let_def)

lemma windowed_frame:
  "mtu (windowed k) = mtu k" "mss (windowed k) = mss k" "output_cb (windowed k) = output_cb k"
  "buffer (windowed k) = buffer k"
  "flush_resent (windowed k) = flush_resent k" "flush_rtomin (windowed k) = flush_rtomin k"
  "due r (windowed k) = due r k" "stamped (windowed k) wnd = stamped k wnd"
  "snd_buf (windowed k) = snd_buf k @ admitted k (seg_wnd (control_segment k)) (window_room k)"
  by (simp_all add: windowed_def admit_def prepared_frame admitted_def)
    (simp_all add: prepared_frame flush_resent_def flush_rtomin_def due_def stamped_def fun_eq_iff
      prepared_def probe_timer_frame)

lemma flush_cwnd_small: "rmt_wnd k < 65536 \<Longrightarrow> flush_cwnd k < 65536"
  by (auto simp: flush_cwnd_def imin_def Let_def)

lemma move_prepared:
  assumes "wf_snd k"
  shows "move_snd_queue (prepared k) (seg_wnd (control_segment k)) (flush_cwnd k) = windowed k"
  using assms flush_cwnd_small [of k]
  by (simp add: windowed_def window_room_def move_snd_admits wf_snd_alt prepared_frame)

lemma windowed_wf_snd: "wf_snd k \<Longrightarrow> wf_snd (windowed k)"
proof -
  assume wf: "wf_snd k"
  then have "wf_snd (prepared k)"
    by (simp add: wf_snd_alt prepared_def probe_timer_frame)
  moreover have "flush_cwnd k < 65536" using wf flush_cwnd_small by (simp add: wf_snd_alt)
  ultimately show "wf_snd (windowed k)"
    unfolding move_prepared [OF wf, symmetric] by (rule move_snd_wf)
qed

text \<open>Whether segments timed out, and how many were skipped, in the loop of a flush.\<close>

definition lost_flag :: "ikcpcb \<Rightarrow> int" where
  "lost_flag k = (if \<exists>s \<in> set (snd_buf k). timed_out k s then 1 else 0)"

definition fast_resends :: "ikcpcb \<Rightarrow> nat" where
  "fast_resends k = length (filter (skipped (flush_resent k) k) (snd_buf k))"

lemma windowed_counts:
  "(if \<exists>s \<in> set (snd_buf (windowed k)). timed_out (windowed k) s then 1 else 0) = lost_flag k"
  "length (filter (skipped (flush_resent k) (windowed k)) (snd_buf (windowed k))) = fast_resends k"
proof -
  have same: "timed_out (windowed k) = timed_out k" "skipped r (windowed k) = skipped r k" for r
    by (simp_all add: fun_eq_iff timed_out_def skipped_def windowed_def admit_def prepared_def
        probe_timer_frame)
  have new: "\<not> timed_out k s" "\<not> skipped r k s" if "s \<in> set (admitted k wnd n)" for s r wnd n
    using that by (auto simp: admitted_def numbered_def timed_out_def skipped_def)
  show "(if \<exists>s \<in> set (snd_buf (windowed k)). timed_out (windowed k) s then 1 else 0) = lost_flag k"
    using new(1) by (auto simp: same windowed_frame lost_flag_def)
  have "filter (skipped (flush_resent k) k) (admitted k wnd n) = []" for wnd n
    using new(2) by (simp add: filter_empty_conv)
  then show "length (filter (skipped (flush_resent k) (windowed k)) (snd_buf (windowed k))) =
      fast_resends k"
    by (simp add: same windowed_frame fast_resends_def)
qed

text \<open>A flush in one equation.\<close>

lemma flush_result:
  assumes "kcp_wf k" and "output_cb k" and "updated k \<noteq> 0"
  shows "\<exists>segs x st. ikcp_flush k = Inr (map datagram (pack (unat (mtu k)) (flush_plan k)),
      update_ssthresh (flush_resent k) (flush_cwnd k) (int (fast_resends k)) (lost_flag k)
        ((charged x st (windowed k))\<lparr>snd_buf := segs\<rparr>)) \<and>
    list_all2 same_seg (snd_buf (windowed k)) segs"
proof -
  have wfs: "wf_buffer k" "wf_ack k" "wf_snd k" using assms(1) by (simp_all add: kcp_wf_def)
  let ?m = "unat (mtu k)"
  let ?seg = "control_segment k\<lparr>seg_sn := fst (last_ack k), seg_ts := snd (last_ack k)\<rparr>"
  obtain out1 where out1: "flush_acks k (nat (sint (ackcount k))) 0 (control_segment k)
      \<lparr>filled = [], outputs = []\<rparr> = Inr (?seg, out1)"
    "represents k out1 (foldl (pack_step ?m) ([], []) (ack_plan k))"
    using flush_acks_whole [OF wfs(1,2) assms(2)] by blast
  let ?k1 = "probe_timer (k\<lparr>ackcount := 0\<rparr>)"
  have rep: "represents ?k1 o' p = represents k o' p" "represents (windowed k) o' p = represents k o' p" for o' p
    by (simp_all add: represents_def probe_timer_frame windowed_frame)
  have buf: "wf_buffer ?k1" "wf_buffer (windowed k)"
    using wfs(1) by (simp_all add: wf_buffer_def probe_timer_frame windowed_frame)
  have cb: "output_cb ?k1" "output_cb (windowed k)"
    using assms(2) by (simp_all add: probe_timer_frame windowed_frame)
  obtain out2 where out2: "flush_probes ?k1 ?seg out1 = Inr out2"
    "represents k out2 (foldl (pack_step ?m) ([], []) (ack_plan k @ probe_plan k))"
    using flush_probes_steps [OF buf(1) cb(1) out1(2) [folded rep(1)], of ?seg]
    by (auto simp: rep probe_timer_frame probe_plan_def probe_timer_ackcount Let_def)
  have "\<forall>s \<in> set (snd_buf (windowed k)). seg_fits (mss (windowed k)) s"
    using windowed_wf_snd [OF wfs(3)] by (simp add: wf_snd_alt)
  then obtain segs x st out3 where out3:
    "flush_data (flush_resent k) (flush_rtomin k) (seg_wnd ?seg) (snd_buf (windowed k)) (windowed k) 0 0 out2 =
      Inr (segs, charged x st (windowed k), int (fast_resends k), lost_flag k, out3)"
    "list_all2 same_seg (snd_buf (windowed k)) segs"
    "represents k out3 (foldl (pack_step ?m) ([], []) (flush_plan k))"
    using flush_data_steps [OF buf(2) cb(2) out2(2) [folded rep(2)], of "snd_buf (windowed k)"
        "flush_resent k" "flush_rtomin k" "seg_wnd ?seg" 0 0]
    unfolding windowed_counts
    by (auto simp: rep windowed_counts windowed_frame flush_plan_def data_plan_def Let_def)
  let ?k3 = "(charged x st (windowed k))\<lparr>snd_buf := segs\<rparr>"
  have "represents ?k3 out3 (foldl (pack_step ?m) ([], []) (flush_plan k))" "output_cb ?k3"
    using out3(3) assms(2) rep(2) by (simp_all add: represents_def charged_simps windowed_frame)
  then obtain out4 where out4: "ikcp_output ?k3 out3 = Inr out4"
    "outputs out4 = map datagram (pack ?m (flush_plan k))"
    using output_ends unfolding pack_def by blast
  have wnd: "seg_wnd ?seg = seg_wnd (control_segment k)" by simp
  have cw: "flush_cwnd (?k1\<lparr>probe := 0\<rparr>) = flush_cwnd k"
    using prepared_frame(5) [of k] by (simp add: prepared_def)
  have mv: "move_snd_queue (?k1\<lparr>probe := 0\<rparr>) (seg_wnd (control_segment k)) (flush_cwnd k) = windowed k"
    using move_prepared [OF wfs(3)] by (simp add: prepared_def)
  have "ikcp_flush k = Inr (map datagram (pack ?m (flush_plan k)),
      update_ssthresh (flush_resent k) (flush_cwnd k) (int (fast_resends k)) (lost_flag k) ?k3)"
    using assms(3) out1(1) out2(1) out3(1) out4
    unfolding ikcp_flush_def Let_def
    by (simp add: cw mv windowed_frame(5,6))
  then show ?thesis using out3(2) by blast
qed

section \<open>What a flush achieves\<close>

lemma ssthresh_frame:
  "mtu (update_ssthresh r c ch lo k) = mtu k" "mss (update_ssthresh r c ch lo k) = mss k"
  "buffer (update_ssthresh r c ch lo k) = buffer k" "conv (update_ssthresh r c ch lo k) = conv k"
  "snd_queue (update_ssthresh r c ch lo k) = snd_queue k"
  "snd_buf (update_ssthresh r c ch lo k) = snd_buf k"
  "nsnd_que (update_ssthresh r c ch lo k) = nsnd_que k"
  "nsnd_buf (update_ssthresh r c ch lo k) = nsnd_buf k"
  "snd_una (update_ssthresh r c ch lo k) = snd_una k"
  "snd_nxt (update_ssthresh r c ch lo k) = snd_nxt k"
  "rmt_wnd (update_ssthresh r c ch lo k) = rmt_wnd k"
  "rcv_queue (update_ssthresh r c ch lo k) = rcv_queue k"
  "rcv_buf (update_ssthresh r c ch lo k) = rcv_buf k"
  "nrcv_que (update_ssthresh r c ch lo k) = nrcv_que k"
  "nrcv_buf (update_ssthresh r c ch lo k) = nrcv_buf k"
  "rcv_nxt (update_ssthresh r c ch lo k) = rcv_nxt k"
  "acklist (update_ssthresh r c ch lo k) = acklist k"
  "ackblock (update_ssthresh r c ch lo k) = ackblock k"
  "ackcount (update_ssthresh r c ch lo k) = ackcount k"
  "interval (update_ssthresh r c ch lo k) = interval k"
  "rx_minrto (update_ssthresh r c ch lo k) = rx_minrto k"
  "rx_rto (update_ssthresh r c ch lo k) = rx_rto k" "mem (update_ssthresh r c ch lo k) = mem k"
  "output_cb (update_ssthresh r c ch lo k) = output_cb k"
  "updated (update_ssthresh r c ch lo k) = updated k"
  "ts_flush (update_ssthresh r c ch lo k) = ts_flush k"
  "current (update_ssthresh r c ch lo k) = current k"
  by (simp_all add: update_ssthresh_def Let_def)

lemma same_segs:
  assumes "list_all2 same_seg ss segs"
  shows "map seg_sn segs = map seg_sn ss" "length segs = length ss"
    "map content segs = map content ss"
    "(\<forall>s \<in> set segs. seg_fits m s) = (\<forall>s \<in> set ss. seg_fits m s)"
    "(\<forall>s \<in> set segs. seg_conv s = c \<and> seg_cmd s = d) = (\<forall>s \<in> set ss. seg_conv s = c \<and> seg_cmd s = d)"
  using assms
  by (induction rule: list_all2_induct)
    (auto simp: same_seg_def content_def seg_fits_def seg_sound_def)

lemma wf_snd_same:
  assumes "wf_snd k" and "list_all2 same_seg (snd_buf k) segs"
  shows "wf_snd (k\<lparr>snd_buf := segs\<rparr>)"
proof -
  note same = same_segs [OF assms(2)]
  have "first_sn d segs = first_sn d (snd_buf k)" for d
    using same(1) by (cases segs; cases "snd_buf k") auto
  moreover have "snd_ordered una segs nxt = snd_ordered una (snd_buf k) nxt" for una nxt
    using same(1) by (rule snd_ordered_sn)
  moreover have "\<forall>s \<in> set segs. seg_fits (mss k) s"
    using assms(1) same(4) [of "mss k"] by (simp add: wf_snd_alt)
  ultimately show ?thesis
    using assms(1) same(2) by (auto simp: wf_snd_alt)
qed

text \<open>The control block a flush leaves, as far as it matters.\<close>

lemma flushed_wf:
  assumes "kcp_wf k" and "list_all2 same_seg (snd_buf (windowed k)) segs"
  shows "kcp_wf (update_ssthresh r c ch lo ((charged x st (windowed k))\<lparr>snd_buf := segs\<rparr>))"
proof -
  have "wf_snd ((windowed k)\<lparr>snd_buf := segs\<rparr>)"
    using assms by (intro wf_snd_same windowed_wf_snd) (simp_all add: kcp_wf_def)
  then show ?thesis
    using assms(1)
    by (simp add: kcp_wf_def wf_snd_def wf_buffer_def wf_rcv_def wf_ack_def wf_time_def
        ssthresh_frame charged_def windowed_def admit_def prepared_def probe_timer_frame)
      (cases "acklist k"; simp)
qed

lemma room_le: "window_room k \<le> length (snd_queue k)"
  by (simp add: window_room_def)

lemma flushed_accounted:
  assumes "accounted b k" and "length segs = length (snd_buf (windowed k))"
  shows "accounted b (update_ssthresh r c ch lo ((charged x st (windowed k))\<lparr>snd_buf := segs\<rparr>))"
  using assms room_le [of k]
  by (simp add: accounted_def owned_def ssthresh_frame charged_def windowed_frame)
    (simp add: windowed_def admit_def prepared_def probe_timer_frame admitted_def)

lemma plan_fits:
  assumes "kcp_wf k"
  shows "\<forall>seg \<in> set (flush_plan k). wire_length seg \<le> unat (mtu k)"
proof -
  have b: "50 \<le> unat (mtu k)" "unat (mss k) + 24 = unat (mtu k)"
    using assms buffer_room [of k] by (simp_all add: kcp_wf_def)
  have "wf_snd (windowed k)" using assms by (intro windowed_wf_snd) (simp add: kcp_wf_def)
  then have "\<forall>s \<in> set (snd_buf k @ admitted k (seg_wnd (control_segment k)) (window_room k)).
      seg_fits (mss k) s"
    by (simp add: wf_snd_alt windowed_frame)
  then have "\<forall>s \<in> set (snd_buf k @ admitted k (seg_wnd (control_segment k)) (window_room k)).
      length (seg_data s) \<le> unat (mss k)"
    unfolding seg_fits_def seg_sound_def word_le_nat_alt by metis
  then show ?thesis
    using b by (auto simp: flush_plan_def ack_plan_def probe_plan_def data_plan_def wire_length_def
        stamped_def Let_def ball_Un)
qed

text \<open>
  C10: a flush sends exactly its plan: the waiting acknowledgements in order, the window
  probes that are due, and the data segments that are new, timed out or skipped often enough,
  each with its payload, packed greedily into datagrams.
\<close>

theorem flush_sends_plan:
  assumes "kcp_wf k" and "output_cb k" and "updated k \<noteq> 0"
  shows "\<exists>k'. ikcp_flush k = Inr (map datagram (pack (unat (mtu k)) (flush_plan k)), k')"
  using flush_result [OF assms] by blast

lemma flush_returns:
  assumes "kcp_wf k" and "output_cb k" and "accounted b k"
  shows "\<exists>sent k'. ikcp_flush k = Inr (sent, k') \<and> kcp_wf k' \<and> accounted b k' \<and>
    (\<forall>d \<in> set sent. 0 < length d \<and> length d \<le> unat (mtu k))"
proof (cases "updated k = 0")
  case True
  then show ?thesis using assms by (simp add: ikcp_flush_def)
next
  case False
  obtain segs x st where f: "ikcp_flush k =
      Inr (map datagram (pack (unat (mtu k)) (flush_plan k)),
        update_ssthresh (flush_resent k) (flush_cwnd k) (int (fast_resends k)) (lost_flag k)
          ((charged x st (windowed k))\<lparr>snd_buf := segs\<rparr>))"
    "list_all2 same_seg (snd_buf (windowed k)) segs"
    using flush_result [OF assms(1,2) False] by blast
  have "0 < length (datagram d) \<and> length (datagram d) \<le> unat (mtu k)"
    if "d \<in> set (pack (unat (mtu k)) (flush_plan k))" for d
    using pack_bounds [OF plan_fits [OF assms(1)] that] by (simp add: datagram_Nil_iff)
  then show ?thesis
    using f flushed_wf [OF assms(1) f(2)] flushed_accounted [OF assms(3)] same_segs(2) [OF f(2)]
    by auto
qed

lemma flush_keeps_wf:
  "kcp_wf k \<Longrightarrow> output_cb k \<Longrightarrow> ikcp_flush k = Inr (sent, k') \<Longrightarrow> kcp_wf k'"
  using flush_returns [of k "live (mem k) - owned k"] by (auto simp: accounted_def)

text \<open>
  A flush of a well-formed control block with a callback stays inside the output buffer
  and the segments, hands out datagrams that are not empty and not longer than the MTU, and
  keeps the invariant and the account of blocks.
\<close>

theorem flush_safe:
  assumes "kcp_wf k" and "output_cb k" and "accounted b k"
  shows "\<exists>sent k'. ikcp_flush k = Inr (sent, k') \<and> kcp_wf k' \<and> accounted b k' \<and>
    (\<forall>d \<in> set sent. 0 < length d \<and> length d \<le> unat (mtu k))"
  using assms by (rule flush_returns)

lemma windowed_distance:
  assumes "wf_snd k"
  shows "unat (snd_nxt (windowed k) - snd_una (windowed k)) = unat (snd_nxt k - snd_una k) + window_room k"
proof -
  have w: "unat (snd_nxt k - snd_una k) < 65536" "unat (flush_cwnd k) < 65536"
    using assms flush_cwnd_small [of k] by (simp_all add: wf_snd_alt word_less_nat_alt)
  have r: "unat (of_nat (window_room k) :: u32) = window_room k"
    using w by (intro unat_of_nat32) (simp add: window_room_def)
  have "snd_nxt (windowed k) - snd_una (windowed k) =
      (snd_nxt k - snd_una k) + of_nat (window_room k)"
    by (simp add: windowed_def admit_def prepared_frame)
  also have "unat \<dots> = unat (snd_nxt k - snd_una k) + window_room k"
    using w r by (subst unat_add32) (simp_all add: window_room_def)
  finally show ?thesis .
qed

text \<open>The two ways a flush can end.\<close>

lemma flush_cases:
  assumes "kcp_wf k" and "output_cb k" and "ikcp_flush k = Inr (sent, k')"
  obtains (idle) "updated k = 0" and "sent = []" and "k' = k"
    | (flushed) segs x st where "updated k \<noteq> 0"
      and "sent = map datagram (pack (unat (mtu k)) (flush_plan k))"
      and "k' = update_ssthresh (flush_resent k) (flush_cwnd k) (int (fast_resends k)) (lost_flag k)
          ((charged x st (windowed k))\<lparr>snd_buf := segs\<rparr>)"
      and "list_all2 same_seg (snd_buf (windowed k)) segs"
proof (cases "updated k = 0")
  case True
  show ?thesis by (rule idle) (use True assms(3) in \<open>simp_all add: ikcp_flush_def\<close>)
next
  case False
  from flush_result [OF assms(1,2) this] obtain segs x st where
    f: "ikcp_flush k = Inr (map datagram (pack (unat (mtu k)) (flush_plan k)),
      update_ssthresh (flush_resent k) (flush_cwnd k) (int (fast_resends k)) (lost_flag k)
        ((charged x st (windowed k))\<lparr>snd_buf := segs\<rparr>))"
    "list_all2 same_seg (snd_buf (windowed k)) segs" by blast
  from f(1) assms(3) have
    "sent = map datagram (pack (unat (mtu k)) (flush_plan k))"
    "k' = update_ssthresh (flush_resent k) (flush_cwnd k) (int (fast_resends k)) (lost_flag k)
        ((charged x st (windowed k))\<lparr>snd_buf := segs\<rparr>)"
    by (auto dest: sym)
  from flushed [OF False this f(2)] show ?thesis .
qed

text \<open>A flush leaves the receiving side alone.\<close>

lemma flush_rcv:
  assumes "kcp_wf k" and "output_cb k" and "ikcp_flush k = Inr (sent, k')"
  shows "rcv_nxt k' = rcv_nxt k \<and> rcv_queue k' = rcv_queue k \<and> rcv_buf k' = rcv_buf k"
  using assms
proof (cases rule: flush_cases)
  case (flushed segs x st)
  then show ?thesis
    by (simp add: ssthresh_frame charged_def windowed_def admit_def prepared_def probe_timer_frame)
qed simp

lemma flush_window:
  assumes "kcp_wf k" and "updated k \<noteq> 0" and "ikcp_flush k = Inr (sent, k')" and "output_cb k"
  shows "snd_queue k' = drop (window_room k) (snd_queue k) \<and>
    map content (snd_buf k') = map content (snd_buf k) @
      map (\<lambda>i. (conv k, IKCP_CMD_PUSH, snd_nxt k + of_nat i, seg_frg (snd_queue k ! i), seg_data (snd_queue k ! i)))
        [0..<window_room k] \<and>
    snd_una k' = snd_una k \<and> snd_nxt k' = snd_nxt k + of_nat (window_room k) \<and>
    unat (snd_nxt k' - snd_una k') \<le>
      max (unat (snd_nxt k - snd_una k)) (unat (flush_cwnd k))"
proof -
  obtain segs x st where k': "k' = update_ssthresh (flush_resent k) (flush_cwnd k)
        (int (fast_resends k)) (lost_flag k) ((charged x st (windowed k))\<lparr>snd_buf := segs\<rparr>)"
    and same: "list_all2 same_seg (snd_buf (windowed k)) segs"
    using flush_result [OF assms(1,4,2)] assms(3) by auto
  have "map content segs = map content (snd_buf (windowed k))" by (rule same_segs(3) [OF same])
  moreover have "unat (snd_nxt (windowed k) - snd_una (windowed k)) =
      unat (snd_nxt k - snd_una k) + window_room k"
    using assms(1) by (intro windowed_distance) (simp add: kcp_wf_def)
  moreover have "window_room k \<le> unat (flush_cwnd k) - unat (snd_nxt k - snd_una k)"
    by (simp add: window_room_def)
  ultimately show ?thesis
    unfolding k'
    by (simp add: ssthresh_frame charged_def windowed_frame admitted_def numbered_def content_def)
      (simp add: windowed_def admit_def prepared_frame comp_def)
qed

text \<open>
  C23: a flush moves segments from the front of the send queue to the end of the send buffer,
  in order and with consecutive numbers, as many as the smallest of the windows (its own, the
  one of the peer and, unless it is switched off, the congestion window) leaves room for; a
  segment that is already in the buffer keeps its number and its contents.
\<close>

theorem flush_moves_window:
  assumes "kcp_wf k" and "updated k \<noteq> 0" and "ikcp_flush k = Inr (sent, k')" and "output_cb k"
  shows "snd_queue k' = drop (window_room k) (snd_queue k) \<and>
    map content (snd_buf k') = map content (snd_buf k) @
      map (\<lambda>i. (conv k, IKCP_CMD_PUSH, snd_nxt k + of_nat i, seg_frg (snd_queue k ! i), seg_data (snd_queue k ! i)))
        [0..<window_room k] \<and>
    snd_una k' = snd_una k \<and> snd_nxt k' = snd_nxt k + of_nat (window_room k) \<and>
    unat (snd_nxt k' - snd_una k') \<le>
      max (unat (snd_nxt k - snd_una k)) (unat (flush_cwnd k))"
  using assms by (rule flush_window)


section \<open>Datagrams of a flush are accepted\<close>

text \<open>The segments in the send buffer carry the conversation and the command of data.\<close>

definition wf_wire :: "ikcpcb \<Rightarrow> bool" where
  "wf_wire k \<longleftrightarrow> (\<forall>s \<in> set (snd_buf k). seg_conv s = conv k \<and> seg_cmd s = IKCP_CMD_PUSH)"

lemma wf_wire_content:
  "wf_wire k \<longleftrightarrow> (\<forall>c \<in> content ` set (snd_buf k). fst c = conv k \<and> fst (snd c) = 81)"
  by (simp add: wf_wire_def content_def)

lemma input_wire:
  assumes "kcp_wf k" and "ikcp_input k dat = Inr (r, k')" and "wf_wire k"
  shows "wf_wire k'"
  using input_advances_aux [OF assms(1,2)] input_conv [OF assms(2)] assms(3)
  unfolding wf_wire_content advances_def by auto

lemma admitted_wire: "s \<in> set (admitted k wnd n) \<Longrightarrow> seg_conv s = conv k \<and> seg_cmd s = 81"
  by (auto simp: admitted_def numbered_def)

lemma flush_wire:
  assumes "kcp_wf k" and "output_cb k" and "ikcp_flush k = Inr (sent, k')" and "wf_wire k"
  shows "wf_wire k'"
proof (cases "updated k = 0")
  case True
  then show ?thesis using assms by (simp add: ikcp_flush_def)
next
  case False
  obtain segs x st where k': "k' = update_ssthresh (flush_resent k) (flush_cwnd k)
        (int (fast_resends k)) (lost_flag k) ((charged x st (windowed k))\<lparr>snd_buf := segs\<rparr>)"
    and same: "list_all2 same_seg (snd_buf (windowed k)) segs"
    using flush_result [OF assms(1,2) False] assms(3) by auto
  have c: "conv (windowed k) = conv k" by (simp add: windowed_def admit_def prepared_def probe_timer_frame)
  have "\<forall>s \<in> set (snd_buf (windowed k)). seg_conv s = conv k \<and> seg_cmd s = 81"
    using assms(4) admitted_wire by (auto simp: windowed_frame wf_wire_def)
  then have "\<forall>s \<in> set segs. seg_conv s = conv k \<and> seg_cmd s = 81"
    using same_segs(5) [OF same] by blast
  then show ?thesis by (simp add: k' wf_wire_def ssthresh_frame charged_def c)
qed

lemma valid_cmds [simp]: "valid_cmd 81" "valid_cmd 82" "valid_cmd 83" "valid_cmd 84"
  by (simp_all add: valid_cmd_def)

lemma plan_acceptable:
  assumes "kcp_wf k" and "wf_wire k"
  shows "\<forall>seg \<in> set (flush_plan k). acceptable (conv k) seg"
proof -
  have "\<forall>s \<in> set (snd_buf (windowed k)). seg_sound s"
    using windowed_wf_snd [of k] assms(1) by (auto simp: kcp_wf_def wf_snd_alt seg_fits_def)
  then have data: "\<forall>s \<in> set (snd_buf k @ admitted k wnd (window_room k)). acceptable (conv k) (stamped k wnd s)"
    if "wnd = seg_wnd (control_segment k)" for wnd
    using that assms(2) admitted_wire
    by (auto simp: windowed_frame wf_wire_def acceptable_def stamped_def header_of_def seg_sound_def)
  have "\<forall>seg \<in> set (data_plan k). acceptable (conv k) seg"
    using data [OF refl] by (auto simp: data_plan_def Let_def)
  moreover have "\<forall>seg \<in> set (ack_plan k @ probe_plan k). acceptable (conv k) seg"
    by (auto simp: ack_plan_def probe_plan_def acceptable_def header_of_def control_segment_def
        fresh_segment_def Let_def)
  ultimately show ?thesis by (auto simp: flush_plan_def)
qed

lemma input_loop_Nil: "input_loop [] = (\<lambda>k. Inr (0, k))"
  by (simp add: fun_eq_iff input_loop.simps [of "[]"])

text \<open>
  C9: what one end flushes, the other end reads.  Each datagram a flush hands out is read by
  a peer of the same conversation, whatever its state, as the sequence of segments that was
  packed into it: no segment is split, and the datagram is never refused.
\<close>

theorem flush_read_by_peer:
  assumes "kcp_wf k" and "wf_wire k" and "output_cb k" and "updated k \<noteq> 0"
    and "ikcp_flush k = Inr (sent, k')" and "conv peer = conv k"
  shows "\<exists>dgs. sent = map datagram dgs \<and> concat dgs = flush_plan k \<and>
    (\<forall>segs \<in> set dgs. input_loop (datagram segs) peer = bindE (feed segs peer) (\<lambda>k. Inr (0, k)))"
proof (intro exI conjI ballI)
  show "sent = map datagram (pack (unat (mtu k)) (flush_plan k))"
    using flush_result [OF assms(1,3,4)] assms(5) by auto
  show "concat (pack (unat (mtu k)) (flush_plan k)) = flush_plan k" by (rule concat_pack)
  fix segs assume "segs \<in> set (pack (unat (mtu k)) (flush_plan k))"
  then have "set segs \<subseteq> set (flush_plan k)"
    using concat_pack [of "unat (mtu k)" "flush_plan k"] by (metis UN_upper set_concat)
  then have "\<forall>seg \<in> set segs. acceptable (conv peer) seg"
    using plan_acceptable [OF assms(1,2)] assms(6) by auto
  from input_loop_datagram [OF this, of "[]"]
  show "input_loop (datagram segs) peer = bindE (feed segs peer) (\<lambda>k. Inr (0, k))"
    by (simp add: input_loop_Nil)
qed

end
