(* ===== verification/Timer.thy ===== *)
theory Timer
  imports Flush
begin

text \<open>
  The clock of a control block (\<open>ikcp.c: ikcp_update, ikcp_check\<close>): \<open>ikcp_update\<close> flushes
  when the flush time has come, \<open>ikcp_check\<close> tells when to call it next.
\<close>

section \<open>The operations\<close>

definition ikcp_update :: "ikcpcb \<Rightarrow> u32 \<Rightarrow> (u8 list list \<times> ikcpcb) outcome" where
  "ikcp_update k now =
     (let k = k\<lparr>current := now\<rparr>;
          k = (if updated k = 0 then k\<lparr>updated := 1, ts_flush := current k\<rparr> else k);
          slap = itimediff (current k) (ts_flush k);
          (k, slap) = (if slap \<ge> 10000 \<or> slap < - 10000
                       then (k\<lparr>ts_flush := current k\<rparr>, 0) else (k, slap))
      in if slap \<ge> 0 then
           let k = k\<lparr>ts_flush := ts_flush k + interval k\<rparr>;
               k = (if itimediff (current k) (ts_flush k) \<ge> 0
                    then k\<lparr>ts_flush := current k + interval k\<rparr> else k)
           in ikcp_flush k
         else Inr ([], k))"

text \<open>The loop of \<open>ikcp_check\<close>; \<open>None\<close> is the early return of \<open>current\<close>.\<close>

fun check_packets :: "u32 \<Rightarrow> ikcpseg list \<Rightarrow> int \<Rightarrow> int option" where
  "check_packets now [] tm_packet = Some tm_packet"
| "check_packets now (seg # ps) tm_packet =
     (let diff = itimediff (seg_resendts seg) now
      in if diff \<le> 0 then None
         else check_packets now ps (if diff < tm_packet then diff else tm_packet))"

definition ikcp_check :: "ikcpcb \<Rightarrow> u32 \<Rightarrow> u32" where
  "ikcp_check k now =
     (if updated k = 0 then now
      else let tf = (if itimediff now (ts_flush k) \<ge> 10000 \<or> itimediff now (ts_flush k) < - 10000
                     then now else ts_flush k)
        in if itimediff now tf \<ge> 0 then now
           else let tm_flush = itimediff tf now in
             case check_packets now (snd_buf k) 0x7fffffff of
               None \<Rightarrow> now
             | Some tm_packet \<Rightarrow>
                 let minimal = word_of_int (if tm_packet < tm_flush then tm_packet else tm_flush);
                     minimal = (if minimal \<ge> interval k then interval k else minimal)
                 in now + minimal)"

section \<open>When a flush happens\<close>

text \<open>The control block that \<open>ikcp_update\<close> flushes, and whether it does.\<close>

definition flush_time :: "ikcpcb \<Rightarrow> u32 \<Rightarrow> u32" where
  "flush_time k now =
     (if updated k = 0 \<or> itimediff now (ts_flush k) \<ge> 10000 \<or> itimediff now (ts_flush k) < - 10000
      then now else ts_flush k)"

definition next_flush :: "ikcpcb \<Rightarrow> u32 \<Rightarrow> u32" where
  "next_flush k now =
     (if itimediff now (flush_time k now + interval k) \<ge> 0 then now + interval k
      else flush_time k now + interval k)"

definition ticked :: "ikcpcb \<Rightarrow> u32 \<Rightarrow> u32 \<Rightarrow> ikcpcb" where
  "ticked k now tf =
     k\<lparr>current := now, updated := (if updated k = 0 then 1 else updated k), ts_flush := tf\<rparr>"

lemma itimediff_self [simp]: "itimediff a a = 0"
  by (simp add: itimediff_def)

lemma update_result:
  "ikcp_update k now =
     (if itimediff now (flush_time k now) \<ge> 0 then ikcp_flush (ticked k now (next_flush k now))
      else Inr ([], k\<lparr>current := now\<rparr>))"
proof (cases "updated k = 0")
  case True
  then show ?thesis
    by (simp add: ikcp_update_def flush_time_def next_flush_def ticked_def Let_def)
next
  case False
  then have "ticked k now t = k\<lparr>current := now, ts_flush := t\<rparr>" for t by (simp add: ticked_def)
  then show ?thesis
    using False
    by (simp add: ikcp_update_def flush_time_def next_flush_def Let_def)
qed

lemma interval_small:
  assumes "wf_time k"
  shows "10 \<le> unat (interval k)" "unat (interval k) \<le> 5000"
  using assms by (simp_all add: wf_time_def word_le_nat_alt)

lemma itimediff_swap_neg:
  assumes "itimediff a b < 0"
  shows "0 < unat (b - a)" and "unat (b - a) \<le> 2147483648" and "itimediff a b = - int (unat (b - a))"
proof -
  have n: "2147483648 \<le> unat (a - b)" using assms by (simp only: itimediff_lt0)
  then have "a \<noteq> b" by auto
  then have s: "unat (b - a) = 4294967296 - unat (a - b)" by (intro unat_minus_swap) simp
  then show "0 < unat (b - a)" "unat (b - a) \<le> 2147483648"
    using n unat32_less [of "a - b"] by linarith+
  show "itimediff a b = - int (unat (b - a))"
    using n s unat32_less [of "a - b"] unfolding itimediff_unat by (simp del: of_nat_unat add: of_nat_diff)
qed

text \<open>The time of the next flush lies after the present, by at most the interval.\<close>

lemma next_flush_after:
  assumes "wf_time k" and "itimediff now (flush_time k now) \<ge> 0"
  shows "0 < unat (next_flush k now - now) \<and> unat (next_flush k now - now) \<le> unat (interval k)"
proof (cases "itimediff now (flush_time k now + interval k) \<ge> 0")
  case True
  then show ?thesis using interval_small [OF assms(1)] by (simp add: next_flush_def)
next
  case False
  let ?d = "unat (now - flush_time k now)"
  let ?i = "unat (interval k)"
  have d: "?d < 2147483648" using assms(2) itimediff_lt0 [of now "flush_time k now"] by linarith
  note i = interval_small [OF assms(1)]
  have "flush_time k now + interval k - now = interval k - (now - flush_time k now)" by simp
  moreover have lt: "?d < ?i"
  proof (rule ccontr)
    assume "\<not> ?d < ?i"
    then have "unat (now - (flush_time k now + interval k)) = ?d - ?i"
      using offset_diff [of "flush_time k now + interval k" "flush_time k now" now] by simp
    then show False using False d itimediff_lt0 [of now "flush_time k now + interval k"] by linarith
  qed
  then have "unat (interval k - (now - flush_time k now)) = ?i - ?d"
    by (intro unat_sub) (simp add: word_le_nat_alt)
  ultimately have "unat (flush_time k now + interval k - now) = ?i - ?d" by (simp only:)
  then show ?thesis using False lt by (simp add: next_flush_def)
qed

section \<open>What the check promises\<close>

lemma check_packets_Some:
  "check_packets now ss tm = Some m \<Longrightarrow> 0 < tm \<Longrightarrow>
   0 < m \<and> m \<le> tm \<and> (\<forall>s \<in> set ss. m \<le> itimediff (seg_resendts s) now)"
proof (induction ss arbitrary: tm)
  case (Cons s ss)
  let ?d = "itimediff (seg_resendts s) now"
  have d: "0 < ?d" and rest: "check_packets now ss (if ?d < tm then ?d else tm) = Some m"
    using Cons.prems(1) by (auto simp: Let_def split: if_splits)
  have "0 < (if ?d < tm then ?d else tm)" using d Cons.prems(2) by simp
  from Cons.IH [OF rest this] show ?case by (auto split: if_splits)
qed simp

lemma minimal_word:
  fixes i :: u32
  assumes "0 \<le> m" and "m \<le> 2147483647"
  shows "unat (if i \<le> word_of_int m then i else word_of_int m) = min (unat i) (nat m)"
proof -
  have "unat (word_of_int m :: u32) = nat m"
    using assms by (simp add: unat_eq_nat_uint uint_word_of_int)
  then show ?thesis by (auto simp: word_le_nat_alt)
qed

text \<open>The two ways \<open>ikcp_check\<close> ends.\<close>

lemma check_cases:
  obtains (immediately) "ikcp_check k now = now"
    | (later) m where "updated k \<noteq> 0" and "itimediff now (ts_flush k) < 0"
      and "- 10000 \<le> itimediff now (ts_flush k)" and "0 < m"
      and "m \<le> itimediff (ts_flush k) now"
      and "\<forall>s \<in> set (snd_buf k). m \<le> itimediff (seg_resendts s) now"
      and "unat (ikcp_check k now - now) = min (unat (interval k)) (nat m)"
proof (cases "updated k = 0 \<or> 0 \<le> itimediff now (ts_flush k) \<or> itimediff now (ts_flush k) < - 10000 \<or>
    check_packets now (snd_buf k) 2147483647 = None")
  case True
  then have "ikcp_check k now = now" by (auto simp: ikcp_check_def Let_def)
  then show ?thesis by (rule immediately)
next
  case False
  then obtain p where p: "check_packets now (snd_buf k) 2147483647 = Some p" by auto
  let ?f = "itimediff (ts_flush k) now"
  have neg: "itimediff now (ts_flush k) < 0" "- 10000 \<le> itimediff now (ts_flush k)"
    "updated k \<noteq> 0" using False by auto
  note sw = itimediff_swap_neg [OF neg(1)]
  have small: "int (unat (ts_flush k - now)) \<le> 10000" using neg(2) sw(3) by linarith
  then have f: "?f = int (unat (ts_flush k - now))" by (intro itimediff_nonneg) linarith
  note pp = check_packets_Some [OF p]
  define m where "m = (if p < ?f then p else ?f)"
  have m: "0 < m" "m \<le> ?f" "m \<le> p" "m \<le> 2147483647"
    using pp small f sw(1) by (auto simp: m_def simp del: of_nat_unat)
  have "ikcp_check k now = now + (if interval k \<le> word_of_int m then interval k else word_of_int m)"
    using neg p by (simp add: ikcp_check_def m_def Let_def)
  then have "unat (ikcp_check k now - now) = min (unat (interval k)) (nat m)"
    using minimal_word [of m "interval k"] m by simp
  moreover have "\<forall>s \<in> set (snd_buf k). m \<le> itimediff (seg_resendts s) now"
    using pp m(3) by auto
  ultimately show ?thesis using later [OF neg(3) neg(1,2) m(1,2)] by blast
qed

text \<open>
  \<open>ikcp_check\<close> never asks for a call later than one interval from now, nor later than
  the retransmission time of any segment in flight.
\<close>

theorem check_bounds:
  "unat (ikcp_check k now - now) \<le> unat (interval k) \<and>
   (\<forall>s \<in> set (snd_buf k). int (unat (ikcp_check k now - now)) \<le> max 0 (itimediff (seg_resendts s) now))"
proof (cases rule: check_cases [of k now])
  case (later m)
  have "int (unat (ikcp_check k now - now)) \<le> m" unfolding later(7) using later(4) by linarith
  then have "int (unat (ikcp_check k now - now)) \<le> max 0 (itimediff (seg_resendts s) now)"
    if "s \<in> set (snd_buf k)" for s
    using later(6) that by (meson le_max_iff_disj order_trans)
  then show ?thesis using later(7) by simp
qed simp

text \<open>
  C27: calls of \<open>ikcp_update\<close> before the time \<open>ikcp_check\<close> returned are unnecessary: they send
  nothing and change nothing but the clock.
\<close>

theorem check_sound:
  assumes "unat (t - now) < unat (ikcp_check k now - now)"
  shows "ikcp_update k t = Inr ([], k\<lparr>current := t\<rparr>)"
proof (cases rule: check_cases [of k now])
  case immediately
  then show ?thesis using assms by simp
next
  case (later m)
  note sw = itimediff_swap_neg [OF later(2)]
  let ?f = "unat (ts_flush k - now)"
  have f: "?f \<le> 10000" using later(3) sw(3) by linarith
  have "itimediff (ts_flush k) now = int ?f" using f by (intro itimediff_nonneg) linarith
  then have lt: "unat (t - now) < ?f" using assms later(5) unfolding later(7) by linarith
  then have d: "unat (ts_flush k - t) = ?f - unat (t - now)" by (intro offset_diff) simp
  have "t \<noteq> ts_flush k" using d lt by auto
  then have "unat (t - ts_flush k) = 4294967296 - unat (ts_flush k - t)" by (rule unat_minus_swap)
  then have big: "4294957296 \<le> unat (t - ts_flush k)" "unat (t - ts_flush k) < 4294967296"
    using d f lt by linarith+
  then have s: "itimediff t (ts_flush k) = int (unat (t - ts_flush k)) - 4294967296"
    unfolding itimediff_unat by simp
  have "itimediff t (ts_flush k) < 0" "- 10000 \<le> itimediff t (ts_flush k)"
    unfolding s using big by linarith+
  then show ?thesis
    using later(1) by (simp add: update_result flush_time_def)
qed

text \<open>
  A segment whose retransmission time has passed makes \<open>ikcp_check\<close> ask for a call at once,
  although \<open>ikcp_update\<close> sends nothing before the flush time has come: a client that follows
  \<open>ikcp_check\<close> calls \<open>ikcp_update\<close> in vain until then.
\<close>

lemma check_spins:
  assumes "updated k \<noteq> 0" and "s \<in> set (snd_buf k)" and "itimediff (seg_resendts s) now \<le> 0"
    and "itimediff now (ts_flush k) < 0" and "- 10000 \<le> itimediff now (ts_flush k)"
  shows "ikcp_check k now = now \<and> ikcp_update k now = Inr ([], k\<lparr>current := now\<rparr>)"
proof -
  have "ikcp_check k now = now"
  proof (cases rule: check_cases [of k now])
    case (later m)
    then have "0 < itimediff (seg_resendts s) now" using assms(2) by fastforce
    then show ?thesis using assms(3) by simp
  qed
  moreover have "ikcp_update k now = Inr ([], k\<lparr>current := now\<rparr>)"
    using assms(1,4,5) by (simp add: update_result flush_time_def)
  ultimately show ?thesis by simp
qed

section \<open>An update\<close>

lemma ticked_wf: "kcp_wf k \<Longrightarrow> kcp_wf (ticked k now tf)"
  by (simp add: ticked_def wf_defs)

lemma ticked_frame:
  "accounted b (ticked k now tf) = accounted b k" "output_cb (ticked k now tf) = output_cb k"
  "mtu (ticked k now tf) = mtu k" "ts_flush (ticked k now tf) = tf"
  "updated (ticked k now tf) \<noteq> 0" "interval (ticked k now tf) = interval k"
  "wf_wire (ticked k now tf) = wf_wire k"
  by (simp_all add: ticked_def accounted_def owned_def wf_wire_def)

lemma flush_keeps_time:
  assumes "kcp_wf k" and "output_cb k" and "ikcp_flush k = Inr (sent, k')"
  shows "ts_flush k' = ts_flush k \<and> updated k' = updated k \<and> interval k' = interval k"
proof (cases "updated k = 0")
  case True
  then show ?thesis using assms(3) by (simp add: ikcp_flush_def)
next
  case False
  then show ?thesis
    using flush_result [OF assms(1,2)] assms(3)
    by (auto simp: ssthresh_frame charged_def windowed_def admit_def prepared_def probe_timer_frame)
qed

lemma update_cases:
  assumes "kcp_wf k" and "ikcp_update k now = Inr (sent, k')" and "output_cb k"
  obtains (quiet) "sent = []" and "k' = k\<lparr>current := now\<rparr>" and "updated k \<noteq> 0"
      and "itimediff now (ts_flush k) < 0" and "- 10000 \<le> itimediff now (ts_flush k)"
    | (flushed) "ikcp_flush (ticked k now (next_flush k now)) = Inr (sent, k')"
      and "itimediff now (flush_time k now) \<ge> 0"
proof (cases "itimediff now (flush_time k now) \<ge> 0")
  case True
  then show ?thesis using flushed assms(2) by (simp add: update_result)
next
  case False
  then show ?thesis using quiet assms(2) by (auto simp: update_result flush_time_def split: if_splits)
qed

text \<open>
  An update of a well-formed control block returns, keeps the invariant, and leaves the
  next flush in the future: at most one interval away when it flushed, and never more than
  ten seconds, however the clock jumped.
\<close>

lemma update_schedules:
  assumes "kcp_wf k" and "ikcp_update k now = Inr (sent, k')" and "output_cb k"
  shows "kcp_wf k' \<and> updated k' \<noteq> 0 \<and> 0 < unat (ts_flush k' - now) \<and>
    unat (ts_flush k' - now) \<le> (if itimediff now (flush_time k now) \<ge> 0 then unat (interval k) else 10000)"
  using assms
proof (cases rule: update_cases)
  case quiet
  then show ?thesis
    using assms(1) itimediff_swap_neg [OF quiet(4)]
    by (simp add: wf_defs flush_time_def del: of_nat_unat)
next
  case flushed
  let ?t = "ticked k now (next_flush k now)"
  have wf: "kcp_wf ?t" using assms(1) by (rule ticked_wf)
  have out: "output_cb ?t" using assms(3) by (simp add: ticked_frame)
  have "kcp_wf k'" using flush_keeps_wf [OF wf out flushed(1)] .
  then show ?thesis
    using flush_keeps_time [OF wf out flushed(1)] flushed(2)
      next_flush_after [of k now] assms(1)
    by (simp add: ticked_frame kcp_wf_def)
qed

lemma update_returns:
  assumes "kcp_wf k" and "output_cb k" and "accounted b k"
  shows "\<exists>sent k'. ikcp_update k now = Inr (sent, k') \<and> accounted b k' \<and>
    (\<forall>d \<in> set sent. 0 < length d \<and> length d \<le> unat (mtu k))"
proof (cases "itimediff now (flush_time k now) \<ge> 0")
  case True
  have "kcp_wf (ticked k now (next_flush k now))" using assms(1) by (rule ticked_wf)
  from flush_returns [OF this, of b] show ?thesis
    using assms True by (simp add: update_result ticked_frame) blast
next
  case False
  then show ?thesis using assms(3) by (simp add: update_result accounted_def owned_def)
qed

text \<open>
  With a callback an update never leaves the defined behaviour of C, and the datagrams it
  hands out are as a flush makes them.
\<close>

theorem update_safe:
  assumes "kcp_wf k" and "output_cb k" and "accounted b k"
  shows "\<exists>sent k'. ikcp_update k now = Inr (sent, k') \<and> accounted b k' \<and>
    (\<forall>d \<in> set sent. 0 < length d \<and> length d \<le> unat (mtu k))"
  using assms by (rule update_returns)

end
