(* ===== verification/Machine.thy ===== *)
theory Machine
  imports Timer
begin

text \<open>
  A session of one control block: the calls a client may make, in any order and with any
  arguments, from \<open>ikcp_create\<close> to \<open>ikcp_release\<close>.
\<close>

section \<open>Invariants of step systems\<close>

locale step_system =
  fixes start :: "'s \<Rightarrow> bool"
    and step :: "'s \<Rightarrow> 'l \<Rightarrow> 's \<Rightarrow> bool"
    and good :: "'s \<Rightarrow> bool"
  assumes good_start: "start s \<Longrightarrow> good s"
    and good_step: "good s \<Longrightarrow> step s l s' \<Longrightarrow> good s'"
begin

inductive run :: "'s \<Rightarrow> 'l list \<Rightarrow> 's \<Rightarrow> bool" where
  stop: "run s [] s"
| more: "step s l s' \<Longrightarrow> run s' ls s'' \<Longrightarrow> run s (l # ls) s''"

lemma run_good: "run s ls s' \<Longrightarrow> good s \<Longrightarrow> good s'"
  by (induction rule: run.induct) (auto intro: good_step)

lemma reachable_good: "start s \<Longrightarrow> run s ls s' \<Longrightarrow> good s'"
  using run_good good_start by blast

lemma run_append: "run s ls s' \<Longrightarrow> run s' ms s'' \<Longrightarrow> run s (ls @ ms) s''"
  by (induction rule: run.induct) (auto intro: run.intros)

end

section \<open>The calls of a client\<close>

datatype call =
    Send "u8 list option" int
  | Recv bool int
  | Input "u8 list option"
  | Update u32
  | Flush
  | Setmtu int
  | Interval int
  | Nodelay int int int int
  | Wndsize int int
  | Setoutput bool

text \<open>\<open>kcp->output = ...\<close>, the way the clients of the library set the callback\<close>

definition set_output :: "ikcpcb \<Rightarrow> bool \<Rightarrow> ikcpcb" where
  "set_output k cb = k\<lparr>output_cb := cb\<rparr>"

text \<open>
  What a call returns: the number, the bytes received and the datagrams sent.
\<close>

fun perform :: "ikcpcb \<Rightarrow> call \<Rightarrow> (int \<times> u8 list \<times> u8 list list \<times> ikcpcb) outcome" where
  "perform k (Send buf len) = bindE (ikcp_send k buf len) (\<lambda>(r, k). Inr (r, [], [], k))"
| "perform k (Recv buf len) = (case ikcp_recv k buf len of (r, out, k) \<Rightarrow> Inr (r, out, [], k))"
| "perform k (Input dat) = bindE (ikcp_input k dat) (\<lambda>(r, k). Inr (r, [], [], k))"
| "perform k (Update now) = bindE (ikcp_update k now) (\<lambda>(sent, k). Inr (0, [], sent, k))"
| "perform k Flush = bindE (ikcp_flush k) (\<lambda>(sent, k). Inr (0, [], sent, k))"
| "perform k (Setmtu m) = (case ikcp_setmtu k m of (r, k) \<Rightarrow> Inr (r, [], [], k))"
| "perform k (Interval i) = (case ikcp_interval k i of (r, k) \<Rightarrow> Inr (r, [], [], k))"
| "perform k (Nodelay nd i resend nc) =
     (case ikcp_nodelay k nd i resend nc of (r, k) \<Rightarrow> Inr (r, [], [], k))"
| "perform k (Wndsize sw rw) = (case ikcp_wndsize k sw rw of (r, k) \<Rightarrow> Inr (r, [], [], k))"
| "perform k (Setoutput cb) = Inr (0, [], [], set_output k cb)"

text \<open>
  What the library expects of its client: a buffer as long as the length says, the MTU not
  lowered below the segments that wait to be sent (nor above \<open>2^30\<close>), and a callback when
  something may be sent.
\<close>

fun proper :: "ikcpcb \<Rightarrow> call \<Rightarrow> bool" where
  "proper k (Send buf len) \<longleftrightarrow> (case buf of None \<Rightarrow> True | Some b \<Rightarrow> len \<le> int (length b)) \<and> len < 2 ^ 31"
| "proper k (Update now) \<longleftrightarrow> output_cb k"
| "proper k Flush \<longleftrightarrow> output_cb k"
| "proper k (Setmtu m) \<longleftrightarrow> m < 2 ^ 30 \<and>
     (\<forall>s \<in> set (snd_queue k) \<union> set (snd_buf k). int (unat (seg_len s)) \<le> m - 24)"
| "proper k _ \<longleftrightarrow> True"

inductive kcp_step :: "ikcpcb \<Rightarrow> call \<Rightarrow> ikcpcb \<Rightarrow> bool" where
  "proper k c \<Longrightarrow> perform k c = Inr (r, out, sent, k') \<Longrightarrow> kcp_step k c k'"

inductive_cases kcp_stepE: "kcp_step k c k'"

text \<open>The whole invariant, for an allocator that had \<open>b\<close> live blocks before.\<close>

definition kcp_inv :: "int \<Rightarrow> ikcpcb \<Rightarrow> bool" where
  "kcp_inv b k \<longleftrightarrow> kcp_wf k \<and> wf_wire k \<and> accounted b k"

section \<open>Every call keeps the invariant\<close>

text \<open>Calls that leave the send buffer and the conversation alone keep \<open>wf_wire\<close>.\<close>

lemma wf_wire_cong: "snd_buf k' = snd_buf k \<Longrightarrow> conv k' = conv k \<Longrightarrow> wf_wire k' = wf_wire k"
  by (simp add: wf_wire_def)

lemma send_inv: "kcp_inv b k \<Longrightarrow> ikcp_send k buf len = Inr (r, k') \<Longrightarrow> kcp_inv b k'"
  using send_grows [of k buf len r k'] send_wf [of k buf len r k'] send_accounted [of k buf len r k' b]
  by (auto simp: kcp_inv_def grows_to_def grown_def wf_wire_def)

lemma recv_frame:
  "snd_buf (snd (snd (ikcp_recv k buf len))) = snd_buf k"
  "conv (snd (snd (ikcp_recv k buf len))) = conv k"
  by (cases rule: recv_cases [of k buf len];
      simp add: recv_done_def recv_taken_def taken_def Let_def move_frame)+

lemma recv_inv: "kcp_inv b k \<Longrightarrow> kcp_inv b (snd (snd (ikcp_recv k buf len)))"
  using recv_wf [of k buf len] recv_accounted [of b k buf len] wf_wire_cong [OF recv_frame]
  by (auto simp: kcp_inv_def)

lemma input_inv:
  assumes "kcp_inv b k" and "ikcp_input k dat = Inr (r, k')"
  shows "kcp_inv b k'"
  using input_wf [OF assms(2)] input_wire [OF _ assms(2)] input_keeps [of k b dat] assms
  by (auto simp: kcp_inv_def)

lemma flush_inv:
  assumes "kcp_inv b k" and "output_cb k" and "ikcp_flush k = Inr (sent, k')"
  shows "kcp_inv b k'"
  using flush_returns [of k b] flush_wire [OF _ assms(2,3)] assms
  by (auto simp: kcp_inv_def)

lemma update_inv:
  assumes "kcp_inv b k" and "output_cb k" and "ikcp_update k now = Inr (sent, k')"
  shows "kcp_inv b k'"
proof (cases "itimediff now (flush_time k now) \<ge> 0")
  case True
  have "kcp_inv b (ticked k now (next_flush k now))"
    using assms(1) by (simp add: kcp_inv_def ticked_wf ticked_frame)
  then show ?thesis
    using flush_inv assms(2,3) True by (simp add: update_result ticked_frame)
next
  case False
  then have "k' = k\<lparr>current := now\<rparr>" using assms(3) by (simp add: update_result)
  then show ?thesis
    using assms(1) by (simp add: kcp_inv_def wf_defs wf_wire_def accounted_def owned_def)
qed

lemma setmtu_inv:
  assumes "kcp_inv b k" and "proper k (Setmtu m)"
  shows "kcp_inv b (snd (ikcp_setmtu k m))"
proof -
  have "kcp_wf (snd (ikcp_setmtu k m))" using assms by (intro setmtu_wf) (auto simp: kcp_inv_def)
  then show ?thesis
    using assms(1)
    by (cases "ikcp_malloc (mem k)")
      (auto simp: kcp_inv_def ikcp_setmtu_def wf_wire_def accounted_def owned_def ikcp_malloc_def)
qed

lemma setters_inv:
  assumes "kcp_inv b k"
  shows "kcp_inv b (snd (ikcp_interval k i))" "kcp_inv b (snd (ikcp_nodelay k nd i resend nc))"
    "kcp_inv b (snd (ikcp_wndsize k sw rw))" "kcp_inv b (set_output k cb)"
proof -
  have "kcp_wf (set_output k cb)" using assms by (simp add: kcp_inv_def set_output_def wf_defs)
  then show "kcp_inv b (snd (ikcp_interval k i))" "kcp_inv b (snd (ikcp_nodelay k nd i resend nc))"
    "kcp_inv b (snd (ikcp_wndsize k sw rw))" "kcp_inv b (set_output k cb)"
    using assms interval_wf [of k i] nodelay_wf [of k nd i resend nc] wndsize_wf [of k sw rw]
    by (simp_all add: kcp_inv_def wf_wire_def accounted_def owned_def ikcp_interval_def
        ikcp_nodelay_def ikcp_wndsize_def set_output_def Let_def)
qed

lemma perform_inv:
  assumes "kcp_inv b k" and "proper k c" and "perform k c = Inr (r, out, sent, k')"
  shows "kcp_inv b k'"
proof (cases c)
  case (Send buf len)
  then show ?thesis using assms(1,3) send_inv by auto
next
  case (Recv buf len)
  then show ?thesis using assms(3) recv_inv [OF assms(1), of buf len] by (simp split: prod.splits)
next
  case (Input dat)
  then show ?thesis using assms(1,3) input_inv by auto
next
  case (Update now)
  then show ?thesis using assms update_inv by auto
next
  case Flush
  then show ?thesis using assms flush_inv by auto
next
  case (Setmtu m)
  then show ?thesis using assms setmtu_inv [of b k m] by (simp split: prod.splits)
next
  case (Interval i)
  then show ?thesis using assms(3) setters_inv(1) [OF assms(1), of i] by (simp split: prod.splits)
next
  case (Nodelay nd i resend nc)
  then show ?thesis
    using assms(3) setters_inv(2) [OF assms(1), of nd i resend nc] by (simp split: prod.splits)
next
  case (Wndsize sw rw)
  then show ?thesis using assms(3) setters_inv(3) [OF assms(1), of sw rw] by (simp split: prod.splits)
next
  case (Setoutput cb)
  then show ?thesis using assms(3) setters_inv(4) [OF assms(1), of cb] by simp
qed

definition created :: "int \<Rightarrow> ikcpcb \<Rightarrow> bool" where
  "created b k \<longleftrightarrow> (\<exists>m c. live m = b \<and> ikcp_create m c = Inr k)"

lemma created_inv:
  assumes "created b k"
  shows "kcp_inv b k"
proof -
  obtain m c where "live m = b" "ikcp_create m c = Inr k" using assms by (auto simp: created_def)
  then show ?thesis
    by (auto simp: ikcp_create_def ikcp_malloc_def Let_def kcp_inv_def accounted_def owned_def
        new_kcpcb_wf split: if_splits) (auto simp: new_kcpcb_def wf_wire_def)
qed

interpretation session: step_system "created b" kcp_step "kcp_inv b" for b
  by unfold_locales (auto intro: created_inv perform_inv elim: kcp_stepE)

section \<open>Sessions\<close>

text \<open>No proper call leaves the defined behaviour, unless the allocator refuses.\<close>

lemma send_loop_total:
  assumes "0 \<le> len" and "0 \<le> sint (mss k)"
    and "case buf of None \<Rightarrow> True | Some b \<Rightarrow> len \<le> int (length b)"
  shows "\<exists>x. send_loop n len buf k = Inr x"
  using assms
proof (induction n arbitrary: len buf k)
  case 0
  then show ?case by (simp add: send_loop.simps)
next
  case (Suc n)
  define sz where "sz = (if len > sint (mss k) then sint (mss k) else len)"
  have sz: "0 \<le> sz" "sz \<le> len" using Suc.prems by (auto simp: sz_def)
  show ?case
  proof (cases "answers (mem k) 0")
    case False
    then show ?thesis by (simp add: send_loop.simps segment_new_refused Let_def)
  next
    case True
    have "case map_option (drop (nat sz)) buf of None \<Rightarrow> True | Some b \<Rightarrow> len - sz \<le> int (length b)"
      using Suc.prems(3) sz by (auto split: option.splits)
    then have rest: "\<exists>x. send_loop n (len - sz) (map_option (drop (nat sz)) buf) (grown [seg] m k) = Inr x"
      for seg m using Suc.IH [of "len - sz" "grown [seg] m k"] sz Suc.prems(2)
      by (simp add: grown_def)
    have "nat sz \<le> length b" if "buf = Some b" for b
      using that Suc.prems(3) sz by (simp add: nat_le_iff)
    then show ?thesis
      using True rest
      unfolding send_loop.simps Let_def segment_new_granted [OF True] prod.case option.case
        sz_def [symmetric]
      by (auto simp: grown_def split: option.splits)
  qed
qed

lemma send_total:
  assumes "kcp_wf k" and "proper k (Send buf len)"
  shows "\<exists>x. ikcp_send k buf len = Inr x"
proof (cases "len < 0")
  case True
  then show ?thesis by (simp add: ikcp_send_def)
next
  case False
  have "\<exists>x. send_loop n len buf k = Inr x" for n
    using assms False wf_mss(3) [OF assms(1)] by (intro send_loop_total) auto
  moreover have "mss k \<noteq> 0" using wf_mss(1) [OF assms(1)] by auto
  ultimately show ?thesis using False by (simp add: ikcp_send_def Let_def)
qed

lemma perform_safe:
  assumes "kcp_inv b k" and "proper k c"
  shows "case perform k c of
      Inl e \<Rightarrow> \<not> plentiful (mem k) \<and> (\<exists>dat. c = Input dat) \<and> (e = Aborted \<or> e = Null_Deref)
    | Inr (r, out, sent, k') \<Rightarrow> kcp_inv b k' \<and> (\<forall>d \<in> set sent. 0 < length d \<and> length d \<le> unat (mtu k))"
proof -
  have wf: "kcp_wf k" and acc: "accounted b k" using assms(1) by (simp_all add: kcp_inv_def)
  have inv: "kcp_inv b k'" if "perform k c = Inr (r, out, sent, k')" for r out sent k'
    using assms that by (rule perform_inv)
  show ?thesis
  proof (cases c)
    case (Send buf len)
    then obtain r k' where "ikcp_send k buf len = Inr (r, k')"
      using send_total [OF wf] assms(2) by (metis surj_pair)
    then show ?thesis using Send inv [of r "[]" "[]" k'] by simp
  next
    case (Input dat)
    then show ?thesis
      using input_keeps [OF wf acc, of dat] inv by (cases "ikcp_input k dat") auto
  next
    case (Update now)
    then show ?thesis using update_returns [OF wf _ acc, of now] assms(2) inv by auto
  next
    case Flush
    then show ?thesis using flush_returns [OF wf _ acc] assms(2) inv by auto
  qed (use inv in \<open>auto split: prod.splits\<close>)
qed


text \<open>
  C25: a session leaks nothing: after any proper calls \<open>ikcp_release\<close> returns the allocator to
  the number of live blocks it had before \<open>ikcp_create\<close>.
\<close>

theorem session_no_leak:
  assumes "created b k0" and "session.run k0 calls k"
  shows "live (ikcp_release k) = b"
  using session.reachable_good [OF assms] by (intro release_live) (simp add: kcp_inv_def)

text \<open>Sequence numbers in order are different and lie in front of the bound.\<close>

lemma offsets_distinct:
  assumes "sorted_wrt (<) (offsets r ss @ [n])"
  shows "distinct (map seg_sn ss) \<and> (\<forall>s \<in> set ss. unat (seg_sn s - r) < n)"
proof -
  have "distinct (offsets r ss)" using assms by (simp add: strict_sorted_iff sorted_append)
  then have "distinct (map (\<lambda>x. unat (x - r)) (map seg_sn ss))" by (simp add: offsets_sn)
  then have "distinct (map seg_sn ss)" by (rule distinct_map [THEN iffD1, THEN conjunct1])
  then show ?thesis using assms by (auto simp: sorted_wrt_append offsets_def)
qed

text \<open>
  C21: the fields of the control block keep their types in every session.  The counters are the
  lengths of the queues, a segment carries as many bytes as its length says and at most \<open>mss\<close> of
  them when it waits to be sent, the numbers in flight and those in the receive buffer are
  different and lie in their windows, the output buffer has room for three datagrams, the pending
  acknowledgements fit their block, and intervals and timeouts are in their ranges.
\<close>

theorem session_types:
  assumes "created b k0" and "session.run k0 calls k"
  shows "nsnd_que k = of_nat (length (snd_queue k)) \<and> nsnd_buf k = of_nat (length (snd_buf k)) \<and>
    nrcv_que k = of_nat (length (rcv_queue k)) \<and> nrcv_buf k = of_nat (length (rcv_buf k)) \<and>
    (\<forall>s \<in> set (snd_queue k @ snd_buf k). unat (seg_len s) = length (seg_data s) \<and> seg_len s \<le> mss k) \<and>
    (\<forall>s \<in> set (rcv_queue k @ rcv_buf k). unat (seg_len s) = length (seg_data s) \<and> seg_frg s < 256) \<and>
    (\<forall>s \<in> set (snd_buf k). seg_conv s = conv k \<and> seg_cmd s = IKCP_CMD_PUSH) \<and>
    distinct (map seg_sn (snd_buf k)) \<and> unat (snd_nxt k - snd_una k) < 65536 \<and>
    (\<forall>s \<in> set (snd_buf k). unat (seg_sn s - snd_una k) < unat (snd_nxt k - snd_una k)) \<and>
    distinct (map seg_sn (rcv_buf k)) \<and> (\<forall>s \<in> set (rcv_buf k). unat (seg_sn s - rcv_nxt k) < 2 ^ 31) \<and>
    mss k = mtu k - 24 \<and> 50 \<le> mtu k \<and> (unat (mtu k) + 24) * 3 \<le> buffer k \<and>
    (case acklist k of None \<Rightarrow> ackcount k = 0 | Some a \<Rightarrow> unat (ackcount k) \<le> length a) \<and>
    10 \<le> interval k \<and> interval k \<le> 5000 \<and> 30 \<le> rx_rto k \<and> rx_rto k \<le> 60000"
proof -
  have "kcp_inv b k" using session.reachable_good [OF assms] .
  then have w: "wf_buffer k" "wf_snd k" "wf_rcv k" "wf_ack k" "wf_time k" "wf_wire k"
    by (simp_all add: kcp_inv_def kcp_wf_def)
  have "case acklist k of None \<Rightarrow> ackcount k = 0 | Some a \<Rightarrow> unat (ackcount k) \<le> length a"
    using w(4) by (cases "acklist k") (simp_all add: wf_ack_def)
  then show ?thesis
    using w offsets_distinct [of "snd_una k" "snd_buf k"] offsets_distinct [of "rcv_nxt k" "rcv_buf k"]
    by (auto simp: wf_buffer_def wf_snd_def wf_rcv_def wf_time_def wf_wire_def seg_fits_def
        seg_received_def seg_sound_def)
qed

section \<open>Limits of the protocol\<close>



end
