(* ===== verification/Lutil.thy ===== *)
theory Lutil
  imports Timer
begin

text \<open>
  The helper module \<open>lutil.c\<close>: the clock the scripts feed to \<open>ikcp_update\<close>
  (\<open>l_gettimeofday\<close>), the sleep (\<open>l_isleep\<close>), and the conversion of a number to four bytes
  in network order and back.  Arguments and results are those of the C code between the
  calls of the Lua interface; the time of the operating system is a parameter.
\<close>

section \<open>The functions\<close>

text \<open>\<open>tv_sec\<close> and \<open>tv_usec\<close> are converted to 64 bits, the result is stored in 32.\<close>

definition l_gettimeofday :: "int \<Rightarrow> int \<Rightarrow> u32" where
  "l_gettimeofday tv_sec tv_usec =
     ucast (((word_of_int tv_sec :: 64 word) * 1000 + word_of_int tv_usec div 1000) AND 0x7fffffff)"

text \<open>The number of microseconds passed to \<open>usleep\<close>.\<close>

definition l_isleep :: "u32 \<Rightarrow> u32" where
  "l_isleep millisecond =
     push_bit 10 millisecond - push_bit 4 millisecond - push_bit 3 millisecond"

text \<open>
  \<open>s[i]\<close> of a string as Lua hands it to C: a zero byte follows the last one, and what
  follows that is outside the string.
\<close>

definition string_byte :: "u8 list \<Rightarrow> nat \<Rightarrow> u8 outcome" where
  "string_byte s i =
     (if i < length s then Inr (s ! i) else if i = length s then Inr 0 else Inl Out_Of_Bounds)"

definition l_netbytes2uint32 :: "u8 list \<Rightarrow> u32 outcome" where
  "l_netbytes2uint32 s =
     bindE (string_byte s 0) (\<lambda>s0. let a0 = push_bit 24 (ucast s0) :: u32 in
     bindE (string_byte s 1) (\<lambda>s1. let a1 = push_bit 16 (ucast s1) :: u32 in
     bindE (string_byte s 2) (\<lambda>s2. let a2 = push_bit 8 (ucast s2) :: u32 in
     bindE (string_byte s 3) (\<lambda>s3. let a3 = ucast s3 :: u32 in
     Inr (a0 OR a1 OR a2 OR a3)))))"

definition l_uint322netbytes :: "u32 \<Rightarrow> u8 list" where
  "l_uint322netbytes i =
     [ucast (drop_bit 24 i), ucast (drop_bit 16 i), ucast (drop_bit 8 i), ucast i]"

section \<open>Network order\<close>

lemma netbytes_word:
  "(push_bit 24 (ucast (b0 :: u8)) OR push_bit 16 (ucast (b1 :: u8)) OR
    push_bit 8 (ucast (b2 :: u8)) OR ucast (b3 :: u8) :: u32) =
   of_nat (load_word [b3, b2, b1, b0])"
proof -
  have le: "unat b < 256" for b :: u8 using unsigned_less [of b, where 'a = nat] by simp
  have bit_hi: "\<not> bit b n" if "8 \<le> n" for b :: u8 and n
    using that bit_imp_le_length [of b n] by auto
  have "push_bit 24 (ucast b0) OR push_bit 16 (ucast b1) OR push_bit 8 (ucast b2) OR ucast b3 =
      (push_bit 24 (ucast b0) + (push_bit 16 (ucast b1) + (push_bit 8 (ucast b2) + ucast b3)) :: u32)"
    by (subst (1 2 3) disjunctive_add)
      (auto simp: bit_push_bit_iff bit_ucast_iff bit_or_iff bit_hi)
  then show ?thesis
    by (simp add: push_bit_eq_mult algebra_simps)
qed

lemma uint322netbytes_rev: "l_uint322netbytes i = rev (ikcp_encode32u [] i)"
proof -
  have "ucast i = (of_nat (unat i) :: u8)" by simp
  then show ?thesis
    unfolding l_uint322netbytes_def encode32u_bytes byte_of_word by simp
qed

lemma netbytes_four:
  "l_netbytes2uint32 (b0 # b1 # b2 # b3 # rest) = Inr (of_nat (load_word [b3, b2, b1, b0]))"
  by (simp only: l_netbytes2uint32_def string_byte_def Let_def netbytes_word [symmetric])
    (simp add: numeral_2_eq_2 numeral_3_eq_3)

lemma netbytes_decode:
  assumes "length bs = 4"
  shows "\<exists>x. l_netbytes2uint32 (bs @ rest) = Inr x \<and> ikcp_decode32u (rev bs) = Some (x, [])"
proof -
  obtain b0 b1 b2 b3 where bs: "bs = [b0, b1, b2, b3]"
    using split4 [of bs] assms by (auto simp: length_Suc_conv)
  have "ikcp_decode32u (rev bs) = Some (of_nat (load_word [b3, b2, b1, b0]), [])"
    unfolding bs using decode32u_bytes [of b3 b2 b1 b0 "[]"] by simp
  then show ?thesis using netbytes_four [of b0 b1 b2 b3 rest] by (simp add: bs del: load_word.simps)
qed

text \<open>
  \<open>uint322netbytes\<close> and \<open>netbytes2uint32\<close> are inverse to each other: a number survives
  the way through its four bytes (whatever follows them), and so do four bytes.
\<close>

theorem netbytes_roundtrip:
  "l_netbytes2uint32 (l_uint322netbytes i @ rest) = Inr i \<and>
   (length bs = 4 \<longrightarrow> (\<exists>x. l_netbytes2uint32 bs = Inr x \<and> l_uint322netbytes x = bs))"
proof -
  have l: "length (l_uint322netbytes i) = 4" by (simp add: l_uint322netbytes_def)
  obtain x where x: "l_netbytes2uint32 (l_uint322netbytes i @ rest) = Inr x"
    "ikcp_decode32u (rev (l_uint322netbytes i)) = Some (x, [])"
    using netbytes_decode [OF l, of rest] by blast
  have "ikcp_decode32u (ikcp_encode32u [] i @ []) = Some (i, [])" by (rule c32.dec_enc)
  then have "x = i" using x(2) by (simp add: uint322netbytes_rev)
  moreover have "\<exists>x. l_netbytes2uint32 bs = Inr x \<and> l_uint322netbytes x = bs" if l4: "length bs = 4"
  proof -
    obtain y where y: "l_netbytes2uint32 bs = Inr y" "ikcp_decode32u (rev bs) = Some (y, [])"
      using netbytes_decode [OF l4, of "[]"] by auto
    have "rev bs = ikcp_encode32u [] y" using c32.enc_dec [OF y(2)] by simp
    then have "l_uint322netbytes y = bs" unfolding uint322netbytes_rev by (metis rev_swap)
    then show ?thesis using y(1) by blast
  qed
  ultimately show ?thesis using x(1) by blast
qed

text \<open>
  \<open>netbytes2uint32\<close> does not check the length of its argument: it reads behind the end of
  every string shorter than three bytes (three bytes are just enough, with the final zero).
\<close>

theorem netbytes_short:
  "l_netbytes2uint32 s = Inl Out_Of_Bounds \<longleftrightarrow> length s < 3"
proof (cases "length s < 3")
  case True
  then have "length s = 0 \<or> length s = 1 \<or> length s = 2" by linarith
  then show ?thesis by (auto simp: l_netbytes2uint32_def string_byte_def)
next
  case False
  then show ?thesis by (auto simp: l_netbytes2uint32_def string_byte_def Let_def)
qed

section \<open>Time\<close>

text \<open>
  The shifts of \<open>isleep\<close> multiply by 1000, and the number of microseconds is right up
  to 4294967 milliseconds; a longer sleep wraps around.
\<close>

theorem isleep_microseconds:
  "l_isleep ms = ms * 1000 \<and> (unat (l_isleep ms) = unat ms * 1000 \<longleftrightarrow> unat ms \<le> 4294967)"
proof -
  have e: "l_isleep ms = ms * 1000"
    by (simp add: l_isleep_def push_bit_eq_mult algebra_simps)
  have "unat (ms * 1000) = (unat ms * 1000) mod 4294967296"
    by (simp add: unat_word_ariths)
  then have "unat (ms * 1000) = unat ms * 1000 \<longleftrightarrow> unat ms * 1000 < 4294967296"
    by (metis mod_less mod_less_divisor zero_less_numeral)
  then show ?thesis using e by auto
qed

lemma clock_nat:
  "unat (l_gettimeofday s u) =
     unat ((word_of_int s :: 64 word) * 1000 + word_of_int u div 1000) mod 2147483648"
proof -
  have m: "(0x7fffffff :: 64 word) = mask 31" by (simp add: mask_eq_exp_minus_1)
  have t: "unat (x AND 0x7fffffff :: 64 word) = unat x mod 2147483648" for x
    unfolding m take_bit_eq_mask [symmetric] unsigned_take_bit_eq by (simp add: take_bit_eq_mod)
  have "unat (x AND 0x7fffffff :: 64 word) mod 4294967296 = unat x mod 2147483648" for x
    unfolding t by (rule mod_less) (rule less_trans [OF mod_less_divisor], simp_all)
  then show ?thesis
    unfolding l_gettimeofday_def unsigned_ucast_eq take_bit_eq_mod by simp
qed

lemma clock_value:
  assumes "0 \<le> s" "s < 2 ^ 53" "0 \<le> u" "u < 1000000"
  shows "int (unat (l_gettimeofday s u)) = (s * 1000 + u div 1000) mod 2147483648"
proof -
  let ?v = "(word_of_int s :: 64 word) * 1000 + word_of_int u div 1000"
  have us: "uint (word_of_int s :: 64 word) = s" "uint (word_of_int u :: 64 word) = u"
    using assms by (simp_all add: uint_word_of_int)
  then have "uint ((word_of_int u :: 64 word) div 1000) = u div 1000"
    by (simp add: uint_div_distrib)
  then have "(word_of_int u :: 64 word) div 1000 = word_of_int (u div 1000)"
    by (metis word_of_int_uint)
  then have "?v = word_of_int (s * 1000 + u div 1000)" by simp
  moreover
  have "s * 1000 + u div 1000 < 2 ^ 64" using assms by simp
  then have "uint (word_of_int (s * 1000 + u div 1000) :: 64 word) = s * 1000 + u div 1000"
    using assms by (subst uint_word_of_int) simp
  ultimately have "uint ?v = s * 1000 + u div 1000" by (simp only:)
  then have "int (unat ?v) = s * 1000 + u div 1000" by simp
  then show ?thesis unfolding clock_nat by (simp only: zmod_int) simp
qed


end
