(* ===== verification/Iqueue.thy ===== *)
theory Iqueue
  imports Prelude
begin

text \<open>
  The intrusive doubly linked lists of \<open>ikcp.h\<close> (\<open>IQUEUE_INIT \<dots> iqueue_splice_init\<close>) on a
  heap of nodes.  The other theories keep a queue as the list of its segments; here the
  macros are shown to do on the pointers what the list operations say.
\<close>

section \<open>The macros\<close>

text \<open>
  The fields \<open>next\<close> and \<open>prev\<close> of every node, by address; the null pointer is 0.  A macro is
  the sequence of its assignments.
\<close>

record heap =
  nxt :: "nat \<Rightarrow> nat"
  prv :: "nat \<Rightarrow> nat"

definition set_next :: "nat \<Rightarrow> nat \<Rightarrow> heap \<Rightarrow> heap" where
  "set_next p q h = h\<lparr>nxt := (nxt h)(p := q)\<rparr>"

definition set_prev :: "nat \<Rightarrow> nat \<Rightarrow> heap \<Rightarrow> heap" where
  "set_prev p q h = h\<lparr>prv := (prv h)(p := q)\<rparr>"

definition iqueue_init :: "nat \<Rightarrow> heap \<Rightarrow> heap" where
  "iqueue_init p h = (let h = set_next p p h in set_prev p p h)"

definition iqueue_add :: "nat \<Rightarrow> nat \<Rightarrow> heap \<Rightarrow> heap" where
  "iqueue_add node head h =
     (let h = set_prev node head h;
          h = set_next node (nxt h head) h;
          h = set_prev (nxt h head) node h
      in set_next head node h)"

definition iqueue_add_tail :: "nat \<Rightarrow> nat \<Rightarrow> heap \<Rightarrow> heap" where
  "iqueue_add_tail node head h =
     (let h = set_prev node (prv h head) h;
          h = set_next node head h;
          h = set_next (prv h head) node h
      in set_prev head node h)"

definition iqueue_del :: "nat \<Rightarrow> heap \<Rightarrow> heap" where
  "iqueue_del entry h =
     (let h = set_prev (nxt h entry) (prv h entry) h;
          h = set_next (prv h entry) (nxt h entry) h;
          h = set_next entry 0 h
      in set_prev entry 0 h)"

definition iqueue_del_init :: "nat \<Rightarrow> heap \<Rightarrow> heap" where
  "iqueue_del_init entry h = (let h = iqueue_del entry h in iqueue_init entry h)"

definition iqueue_is_empty :: "nat \<Rightarrow> heap \<Rightarrow> bool" where
  "iqueue_is_empty entry h \<longleftrightarrow> entry = nxt h entry"

definition iqueue_splice :: "nat \<Rightarrow> nat \<Rightarrow> heap \<Rightarrow> heap" where
  "iqueue_splice lst head h =
     (if \<not> iqueue_is_empty lst h then
        let first = nxt h lst; last = prv h lst; at = nxt h head;
            h = set_prev first head h;
            h = set_next head first h;
            h = set_next last at h
        in set_prev at last h
      else h)"

definition iqueue_splice_init :: "nat \<Rightarrow> nat \<Rightarrow> heap \<Rightarrow> heap" where
  "iqueue_splice_init lst head h = (let h = iqueue_splice lst head h in iqueue_init lst h)"

text \<open>
  The loop of \<open>iqueue_foreach_entry\<close>: the nodes it visits.  The loop ends when it meets the
  head again, which on a broken list may be never: the number bounds its turns.
\<close>

fun iqueue_foreach :: "nat \<Rightarrow> nat \<Rightarrow> nat \<Rightarrow> heap \<Rightarrow> nat list option" where
  "iqueue_foreach 0 pos head h = (if pos = head then Some [] else None)"
| "iqueue_foreach (Suc n) pos head h =
     (if pos = head then Some []
      else map_option ((#) pos) (iqueue_foreach n (nxt h pos) head h))"

section \<open>Rings\<close>

text \<open>A list of addresses linked in both directions, and the ring of a queue.\<close>

fun linked :: "heap \<Rightarrow> nat list \<Rightarrow> bool" where
  "linked h (p # q # ps) \<longleftrightarrow> nxt h p = q \<and> prv h q = p \<and> linked h (q # ps)"
| "linked h _ \<longleftrightarrow> True"

definition ring :: "heap \<Rightarrow> nat \<Rightarrow> nat list \<Rightarrow> bool" where
  "ring h head ps \<longleftrightarrow> distinct (head # ps) \<and> 0 \<notin> set (head # ps) \<and> linked h (head # ps @ [head])"

lemma linked_append: "linked h (ps @ q # qs) \<longleftrightarrow> linked h (ps @ [q]) \<and> linked h (q # qs)"
  by (induction h ps rule: linked.induct) simp_all

lemma linked_frame:
  assumes "\<forall>p \<in> set (butlast ps). nxt h' p = nxt h p" and "\<forall>p \<in> set (tl ps). prv h' p = prv h p"
  shows "linked h' ps = linked h ps"
  using assms
proof (induction h ps rule: linked.induct)
  case (1 h p q ps)
  then show ?case by (cases ps) auto
qed auto

lemma set_simps_heap [simp]:
  "nxt (set_next p q h) = (nxt h)(p := q)" "prv (set_next p q h) = prv h"
  "nxt (set_prev p q h) = nxt h" "prv (set_prev p q h) = (prv h)(p := q)"
  by (simp_all add: set_next_def set_prev_def)

lemma ring_init: "p \<noteq> 0 \<Longrightarrow> ring (iqueue_init p h) p []"
  by (simp add: ring_def iqueue_init_def)

lemma ring_empty: "ring h head ps \<Longrightarrow> iqueue_is_empty head h \<longleftrightarrow> ps = []"
  by (cases ps) (auto simp: ring_def iqueue_is_empty_def)

lemma foreach_linked:
  "linked h (p # ps @ [head]) \<Longrightarrow> distinct (head # p # ps) \<Longrightarrow> length ps < n \<Longrightarrow>
   iqueue_foreach n p head h = Some (p # ps)"
proof (induction n arbitrary: p ps)
  case (Suc n)
  show ?case
  proof (cases ps)
    case Nil
    then show ?thesis using Suc.prems by (cases n) auto
  next
    case (Cons q qs)
    then show ?thesis using Suc.prems Suc.IH [of q qs] by auto
  qed
qed simp

lemma ring_foreach:
  "ring h head ps \<Longrightarrow> length ps \<le> n \<Longrightarrow> iqueue_foreach n (nxt h head) head h = Some ps"
proof (cases ps)
  case Nil
  then show "ring h head ps \<Longrightarrow> iqueue_foreach n (nxt h head) head h = Some ps"
    by (cases n) (auto simp: ring_def)
next
  case (Cons q qs)
  then show "ring h head ps \<Longrightarrow> length ps \<le> n \<Longrightarrow> iqueue_foreach n (nxt h head) head h = Some ps"
    using foreach_linked [of h q qs head n] by (auto simp: ring_def)
qed

text \<open>A ring may be read from any of its nodes.\<close>

lemma ring_rotate:
  assumes "ring h head (xs @ p # ys)"
  shows "ring h p (ys @ head # xs)"
proof -
  have l: "linked h (head # xs @ p # ys @ [head])" and d: "distinct (head # xs @ p # ys)"
    "0 \<notin> set (head # xs @ p # ys)"
    using assms by (simp_all add: ring_def)
  have "linked h ((head # xs) @ [p])" "linked h (p # ys @ [head])"
    using l linked_append [of h "head # xs" p "ys @ [head]"] by simp_all
  then have "linked h ((p # ys) @ head # xs @ [p])"
    using linked_append [of h "p # ys" head "xs @ [p]"] by simp
  then show ?thesis using d unfolding ring_def by auto
qed

lemma ring_ends:
  assumes "ring h head ps"
  shows "nxt h head = hd (ps @ [head])" and "prv h head = last (head # ps)"
proof -
  show "nxt h head = hd (ps @ [head])" using assms by (cases ps) (auto simp: ring_def)
  show "prv h head = last (head # ps)"
  proof (cases ps rule: rev_cases)
    case Nil
    then show ?thesis using assms by (simp add: ring_def)
  next
    case (snoc qs q)
    then show ?thesis
      using assms linked_append [of h "head # qs" q "[head]"] by (simp add: ring_def)
  qed
qed

definition apart :: "nat \<Rightarrow> nat list \<Rightarrow> nat \<Rightarrow> nat list \<Rightarrow> bool" where
  "apart g qs head ps \<longleftrightarrow> set (g # qs) \<inter> set (head # ps) = {}"

lemma ring_frame:
  assumes "ring h g qs" and "\<forall>p \<in> set (g # qs). nxt h' p = nxt h p \<and> prv h' p = prv h p"
  shows "ring h' g qs"
proof -
  have "linked h' (g # qs @ [g]) = linked h (g # qs @ [g])"
    using assms(2) by (intro linked_frame) (auto simp: butlast_append)
  then show ?thesis using assms(1) by (simp add: ring_def)
qed

lemma ring_add:
  assumes "ring h head ps" and "node \<noteq> 0" and "node \<notin> set (head # ps)"
  shows "ring (iqueue_add node head h) head (node # ps)"
proof -
  obtain f rest where f: "ps @ [head] = f # rest" by (cases "ps @ [head]") auto
  have fn: "f \<noteq> node" using f assms(3) by (cases ps) auto
  have n: "nxt h head = f" using ring_ends(1) [OF assms(1)] f by simp
  have d: "distinct (head # ps)" "0 \<notin> set (head # ps)" using assms(1) by (simp_all add: ring_def)
  let ?h = "iqueue_add node head h"
  have hn: "nxt ?h = (nxt h)(node := f, head := node)" "prv ?h = (prv h)(node := head, f := node)"
    using assms(3) n fn by (auto simp: iqueue_add_def Let_def)
  have "set (butlast (f # rest)) = set ps" unfolding f [symmetric] by simp
  moreover have "set (tl (f # rest)) \<subseteq> set (head # ps) - {f}"
    using f d by (cases ps) auto
  ultimately have "linked ?h (f # rest) = linked h (f # rest)"
    using assms(3) d hn by (intro linked_frame) auto
  moreover have "linked h (f # rest)" using assms(1) f by (simp add: ring_def)
  ultimately have "linked ?h (head # node # f # rest)"
    using hn assms(3) fn by auto
  then show ?thesis using f d assms(2,3) by (auto simp: ring_def)
qed

lemma ring_insert:
  assumes "ring h head (xs @ p # ys)" and "node \<noteq> 0" and "node \<notin> set (head # xs @ p # ys)"
  shows "ring (iqueue_add node p h) head (xs @ p # node # ys)"
proof -
  have "ring (iqueue_add node p h) p (node # ys @ head # xs)"
    using ring_rotate [OF assms(1)] assms(2,3) by (intro ring_add) auto
  then show ?thesis using ring_rotate [of "iqueue_add node p h" p "node # ys" head xs] by simp
qed

lemma add_tail_add:
  assumes "nxt h (prv h head) = head" and "node \<noteq> head" and "node \<noteq> prv h head"
  shows "iqueue_add_tail node head h = iqueue_add node (prv h head) h"
  using assms by (simp add: iqueue_add_tail_def iqueue_add_def set_next_def set_prev_def Let_def)

lemma ring_add_tail:
  assumes "ring h head ps" and "node \<noteq> 0" and "node \<notin> set (head # ps)"
  shows "ring (iqueue_add_tail node head h) head (ps @ [node])"
proof (cases ps rule: rev_cases)
  case Nil
  then have e: "prv h head = head" "nxt h head = head" using ring_ends [OF assms(1)] by simp_all
  then have "iqueue_add_tail node head h = iqueue_add node head h"
    using add_tail_add [of h head node] assms(3) by simp
  then show ?thesis using ring_add [OF assms] Nil by simp
next
  case (snoc qs q)
  have e: "prv h head = q" using ring_ends(2) [OF assms(1)] snoc by simp
  have "nxt h q = head" using ring_rotate [of h head qs q "[]"] assms(1) snoc
    ring_ends(1) [of h q "head # qs"] by simp
  then have "iqueue_add_tail node head h = iqueue_add node q h"
    using add_tail_add [of h head node] assms(3) e snoc by auto
  then show ?thesis using ring_insert [of h head qs q "[]" node] assms snoc by simp
qed

lemma ring_del_head:
  assumes "ring h x (q # qs)"
  shows "ring (iqueue_del x h) q qs"
proof -
  obtain us l where us: "q # qs = us @ [l]" by (metis append_butlast_last_id list.distinct(1))
  have e: "nxt h x = q" using ring_ends(1) [OF assms] by simp
  have "last (x # us @ [l]) = l" by simp
  then have e2: "prv h x = l" using ring_ends(2) [OF assms] unfolding us by simp
  have d: "distinct (x # us @ [l])" "0 \<notin> set (x # us @ [l])"
    using assms unfolding us [symmetric] ring_def by simp_all
  have eq: "(x # us) @ l # [x] = x # (q # qs) @ [x]" unfolding us by simp
  have "linked h ((x # us) @ l # [x])" unfolding eq using assms unfolding ring_def by blast
  then have lus: "linked h ((x # us) @ [l])" using linked_append by blast
  have x: "x \<noteq> q" "x \<noteq> l" "q \<notin> set qs" using assms d(1) by (auto simp: ring_def)
  let ?h = "iqueue_del x h"
  have hn: "nxt ?h = (nxt h)(l := q, x := 0)" "prv ?h = (prv h)(q := l, x := 0)"
    using x by (simp_all add: iqueue_del_def Let_def e e2)
  have "x \<notin> set qs" using assms by (simp add: ring_def)
  moreover have "tl (us @ [l]) = qs" using us by (metis list.sel(3))
  ultimately have "linked ?h (us @ [l]) = linked h (us @ [l])"
    using d(1) x hn by (intro linked_frame) auto
  moreover have "linked h (us @ [l])" using lus by (cases us) auto
  moreover have "linked ?h (l # [q])" using hn x by simp
  ultimately have "linked ?h (us @ l # [q])" using linked_append by blast
  then have "linked ?h (q # qs @ [q])" using us by (metis append.assoc append_Cons append_Nil)
  then show ?thesis using assms by (simp add: ring_def)
qed

lemma ring_del:
  assumes "ring h head (xs @ x # ys)"
  shows "ring (iqueue_del x h) head (xs @ ys)"
proof (cases ys)
  case Nil
  then show ?thesis using ring_del_head [of h x head xs] ring_rotate [OF assms] by simp
next
  case (Cons y zs)
  then have "ring (iqueue_del x h) y (zs @ head # xs)"
    using ring_del_head [of h x y "zs @ head # xs"] ring_rotate [OF assms] by simp
  then show ?thesis using ring_rotate [of "iqueue_del x h" y zs head xs] Cons by simp
qed

text \<open>\<open>iqueue_splice\<close> puts a whole ring behind the head of another one.\<close>

lemma ring_splice:
  assumes "ring h lst ps" and "ring h head qs" and "apart lst ps head qs"
  shows "ring (iqueue_splice lst head h) head (ps @ qs)"
proof (cases ps)
  case Nil
  then show ?thesis using assms ring_empty [OF assms(1)] by (simp add: iqueue_splice_def)
next
  case (Cons f fs)
  obtain us l where us: "f # fs = us @ [l]" by (metis append_butlast_last_id list.distinct(1))
  obtain a as where a: "qs @ [head] = a # as" by (cases "qs @ [head]") auto
  have l: "nxt h lst = f" using ring_ends(1) [OF assms(1)] Cons by simp
  have "last (lst # us @ [l]) = l" by simp
  then have p: "prv h lst = l" using ring_ends(2) [OF assms(1)] unfolding Cons us by simp
  have at: "nxt h head = a" using ring_ends(1) [OF assms(2)] a by simp
  have ps: "ps = us @ [l]" using Cons us by simp
  have d: "distinct (lst # ps)" "distinct (head # qs)" "set (lst # ps) \<inter> set (head # qs) = {}"
    "0 \<notin> set (lst # ps)" "0 \<notin> set (head # qs)"
    using assms by (simp_all add: ring_def apart_def)
  have "set (a # as) = set (head # qs)" unfolding a [symmetric] by auto
  moreover have "f \<in> set ps" using Cons by simp
  moreover have "l \<in> set ps" unfolding ps by simp
  ultimately have sub: "a \<in> set (head # qs)" "set as \<subseteq> set (head # qs)" "f \<in> set ps" "l \<in> set ps"
    by auto
  have ne: "f \<noteq> a" "l \<noteq> head" "f \<noteq> head" "l \<noteq> a" using sub d by auto
  let ?h = "iqueue_splice lst head h"
  have hn: "nxt ?h = (nxt h)(head := f, l := a)" "prv ?h = (prv h)(f := head, a := l)"
    using ring_empty [OF assms(1)] Cons by (auto simp: iqueue_splice_def Let_def l p at)
  have "linked h ((lst # us) @ l # [lst])" using assms(1) by (simp add: ring_def ps)
  then have "linked h ((lst # us) @ [l])" using linked_append by blast
  then have lus: "linked h (us @ [l])" by (cases us) auto
  have tl: "tl (us @ [l]) = fs" using us by (metis list.sel(3))
  have "f \<notin> set fs" "set fs \<subseteq> set ps" using d(1) unfolding Cons by auto
  moreover have "l \<notin> set us" "set us \<subseteq> set ps" using d(1) unfolding ps by auto
  ultimately have 1: "linked ?h (us @ [l])"
    using lus d(3) sub ne tl hn by (subst linked_frame [where h = h]) auto
  have "a \<notin> set as" using a d(2) by (cases qs) auto
  have "set (butlast (a # as)) = set qs" unfolding a [symmetric] by simp
  moreover have "l \<notin> set qs" "head \<notin> set qs" "f \<notin> set as"
    using sub d by auto
  moreover have "linked h (a # as)" using assms(2) a by (simp add: ring_def)
  ultimately have 2: "linked ?h (a # as)"
    using \<open>a \<notin> set as\<close> hn by (subst linked_frame [where h = h]) auto
  have "linked ?h (l # a # as)" using 2 hn ne by simp
  then have "linked ?h (us @ l # a # as)" using 1 linked_append by blast
  then have "linked ?h (f # fs @ qs @ [head])" using us a by (metis append.assoc append_Cons append_Nil)
  then have "linked ?h (head # ps @ qs @ [head])" using Cons hn ne by simp
  then show ?thesis using d by (auto simp: ring_def)
qed

section \<open>Operations on one ring leave the others alone\<close>

lemma ring_members:
  assumes "ring h head (xs @ x # ys)"
  shows "nxt h x \<in> set (head # xs @ x # ys) \<and> prv h x \<in> set (head # xs @ x # ys)"
proof -
  have "ring h x (ys @ head # xs)" using assms by (rule ring_rotate)
  from ring_ends [OF this] show ?thesis
    by (cases ys; cases xs rule: rev_cases) auto
qed

lemma ring_head_members:
  assumes "ring h head ps"
  shows "nxt h head \<in> set (head # ps) \<and> prv h head \<in> set (head # ps)"
  using ring_ends [OF assms] by (cases ps) (auto split: if_splits)

lemma del_frame:
  assumes "ring h head (xs @ x # ys)" and "ring h g qs" and "apart g qs head (xs @ x # ys)"
  shows "ring (iqueue_del x h) g qs"
proof (rule ring_frame [OF assms(2)], intro ballI)
  fix p assume p: "p \<in> set (g # qs)"
  then have "p \<noteq> x" "p \<noteq> nxt h x" "p \<noteq> prv h x"
    using assms(3) ring_members [OF assms(1)] unfolding apart_def by auto
  then show "nxt (iqueue_del x h) p = nxt h p \<and> prv (iqueue_del x h) p = prv h p"
    by (auto simp: iqueue_del_def Let_def)
qed

lemma add_tail_frame:
  assumes "ring h head ps" and "ring h g qs" and "apart g qs head ps" and "node \<notin> set (g # qs)"
  shows "ring (iqueue_add_tail node head h) g qs"
proof (rule ring_frame [OF assms(2)], intro ballI)
  fix p assume p: "p \<in> set (g # qs)"
  then have "p \<noteq> node" "p \<noteq> head" "p \<noteq> prv h head" "p \<noteq> nxt h head"
    using assms(3,4) ring_head_members [OF assms(1)] unfolding apart_def by auto
  then show "nxt (iqueue_add_tail node head h) p = nxt h p \<and>
      prv (iqueue_add_tail node head h) p = prv h p"
    by (auto simp: iqueue_add_tail_def Let_def)
qed

section \<open>What the loops over queues need\<close>

text \<open>
  The loops of \<open>ikcp.c\<close> take the first node of a queue, remove it, and free it or append it to
  another queue.  This is all they use of the pointers.
\<close>

locale queue_memory =
  fixes holds :: "'h \<Rightarrow> 'p \<Rightarrow> 'p list \<Rightarrow> bool"
    and usable :: "'p \<Rightarrow> bool"
    and first :: "'p \<Rightarrow> 'h \<Rightarrow> 'p"
    and remove :: "'p \<Rightarrow> 'h \<Rightarrow> 'h"
    and enqueue_at :: "'p \<Rightarrow> 'p \<Rightarrow> 'h \<Rightarrow> 'h"
  assumes holds_first: "holds h q (p # ps) \<Longrightarrow> first q h = p"
    and holds_distinct: "holds h q ps \<Longrightarrow> distinct (q # ps) \<and> (\<forall>p \<in> set ps. usable p)"
    and holds_remove: "holds h q (p # ps) \<Longrightarrow> holds (remove p h) q ps"
    and remove_other: "holds h q (p # ps) \<Longrightarrow> holds h r rs \<Longrightarrow>
      set (r # rs) \<inter> set (q # p # ps) = {} \<Longrightarrow> holds (remove p h) r rs"
    and holds_enqueue: "holds h q ps \<Longrightarrow> usable p \<Longrightarrow> p \<notin> set (q # ps) \<Longrightarrow>
      holds (enqueue_at p q h) q (ps @ [p])"
    and enqueue_other: "holds h q ps \<Longrightarrow> holds h r rs \<Longrightarrow>
      set (r # rs) \<inter> set (q # ps) = {} \<Longrightarrow> p \<notin> set (r # rs) \<Longrightarrow>
      holds (enqueue_at p q h) r rs"
begin

text \<open>\<open>n\<close> turns of a loop that moves the first node of \<open>q\<close> to the end of \<open>r\<close>, or frees it.\<close>

primrec move_nodes :: "nat \<Rightarrow> 'p \<Rightarrow> 'p \<Rightarrow> 'h \<Rightarrow> 'h" where
  "move_nodes 0 q r h = h"
| "move_nodes (Suc n) q r h =
     (let p = first q h in move_nodes n q r (enqueue_at p r (remove p h)))"

primrec drain_nodes :: "nat \<Rightarrow> 'p \<Rightarrow> 'h \<Rightarrow> 'p list \<times> 'h" where
  "drain_nodes 0 q h = ([], h)"
| "drain_nodes (Suc n) q h =
     (let p = first q h; (ps, h) = drain_nodes n q (remove p h) in (p # ps, h))"

lemma move_first:
  assumes "holds h q (p # ps)" and "holds h r rs" and "set (r # rs) \<inter> set (q # p # ps) = {}"
  shows "holds (enqueue_at p r (remove p h)) q ps" and "holds (enqueue_at p r (remove p h)) r (rs @ [p])"
proof -
  have d: "distinct (q # p # ps)" "usable p" using holds_distinct [OF assms(1)] by auto
  have q: "holds (remove p h) q ps" by (rule holds_remove [OF assms(1)])
  have r: "holds (remove p h) r rs" by (rule remove_other [OF assms])
  show "holds (enqueue_at p r (remove p h)) q ps"
    using assms(3) d by (intro enqueue_other [OF r q]) auto
  show "holds (enqueue_at p r (remove p h)) r (rs @ [p])"
    using assms(3) d by (intro holds_enqueue [OF r]) auto
qed

lemma move_nodes_holds:
  assumes "holds h q ps" and "holds h r rs" and "set (r # rs) \<inter> set (q # ps) = {}" and "n \<le> length ps"
  shows "holds (move_nodes n q r h) q (drop n ps) \<and> holds (move_nodes n q r h) r (rs @ take n ps)"
  using assms
proof (induction n arbitrary: h ps rs)
  case (Suc n)
  then obtain p qs where ps: "ps = p # qs" by (cases ps) auto
  have d: "distinct (q # p # qs)" using holds_distinct Suc.prems(1) ps by blast
  note m = move_first [of h q p qs r rs] and f = holds_first [of h q p qs]
  have "set (r # rs @ [p]) \<inter> set (q # qs) = {}" using Suc.prems(3) d ps by auto
  with Suc.IH [of "enqueue_at p r (remove p h)" qs "rs @ [p]"] show ?case
    using Suc.prems ps m f by simp
qed simp

lemma drain_nodes_holds:
  assumes "holds h q ps" and "n \<le> length ps"
  shows "fst (drain_nodes n q h) = take n ps \<and> holds (snd (drain_nodes n q h)) q (drop n ps)"
  using assms
proof (induction n arbitrary: h ps)
  case (Suc n)
  then obtain p qs where ps: "ps = p # qs" by (cases ps) auto
  then show ?case
    using Suc.IH [of "remove p h" qs] Suc.prems holds_first [of h q p qs] holds_remove [of h q p qs]
    by (simp add: split_def Let_def)
qed simp

end

interpretation rings: queue_memory ring "\<lambda>p. p \<noteq> 0" "\<lambda>q h. nxt h q" iqueue_del iqueue_add_tail
proof unfold_locales
  fix h q p r ps rs
  show "ring h q (p # ps) \<Longrightarrow> nxt h q = p" by (simp add: ring_def)
  show "ring h q ps \<Longrightarrow> distinct (q # ps) \<and> (\<forall>p \<in> set ps. p \<noteq> 0)"
    by (auto simp: ring_def intro: gr0I)
  show "ring h q (p # ps) \<Longrightarrow> ring (iqueue_del p h) q ps" using ring_del [of h q "[]" p ps] by simp
  show "ring h q (p # ps) \<Longrightarrow> ring h r rs \<Longrightarrow> set (r # rs) \<inter> set (q # p # ps) = {} \<Longrightarrow>
      ring (iqueue_del p h) r rs"
    using del_frame [of h q "[]" p ps r rs] by (simp add: apart_def)
  show "ring h q ps \<Longrightarrow> p \<noteq> 0 \<Longrightarrow> p \<notin> set (q # ps) \<Longrightarrow> ring (iqueue_add_tail p q h) q (ps @ [p])"
    by (rule ring_add_tail)
  show "ring h q ps \<Longrightarrow> ring h r rs \<Longrightarrow> set (r # rs) \<inter> set (q # ps) = {} \<Longrightarrow> p \<notin> set (r # rs) \<Longrightarrow>
      ring (iqueue_add_tail p q h) r rs"
    using add_tail_frame [of h q ps r rs p] by (simp add: apart_def)
qed

section \<open>The macros implement the lists\<close>

text \<open>
  C34: on a well-formed ring the macros are the list operations: \<open>iqueue_add\<close> inserts behind
  the node it is given (the head or any other), \<open>iqueue_add_tail\<close> appends, \<open>iqueue_del\<close>
  removes, and \<open>iqueue_foreach_entry\<close> visits every node once, in order, and ends.
\<close>

theorem iqueue_list_operations:
  assumes "ring h head (xs @ p # ys)" and "node \<noteq> 0" and "node \<notin> set (head # xs @ p # ys)"
  shows "ring (iqueue_add node head h) head (node # xs @ p # ys) \<and>
    ring (iqueue_add node p h) head (xs @ p # node # ys) \<and>
    ring (iqueue_add_tail node head h) head (xs @ p # ys @ [node]) \<and>
    ring (iqueue_del p h) head (xs @ ys) \<and>
    (iqueue_is_empty head (iqueue_del p h) \<longleftrightarrow> xs @ ys = []) \<and>
    iqueue_foreach (length (xs @ p # ys)) (nxt h head) head h = Some (xs @ p # ys)"
  using ring_add [OF assms] ring_insert [OF assms] ring_add_tail [OF assms] ring_del [OF assms(1)]
    ring_empty [OF ring_del [OF assms(1)]] ring_foreach [OF assms(1), of "length (xs @ p # ys)"]
  by simp

text \<open>
  \<open>iqueue_splice_init\<close> puts a whole queue in front of another one and leaves it empty.
\<close>

theorem iqueue_splice_joins:
  assumes "ring h lst ps" and "ring h head qs" and "apart lst ps head qs"
  shows "ring (iqueue_splice_init lst head h) head (ps @ qs) \<and>
    ring (iqueue_splice_init lst head h) lst []"
proof -
  have s: "ring (iqueue_splice lst head h) head (ps @ qs)" by (rule ring_splice [OF assms])
  have l: "lst \<noteq> 0" "lst \<notin> set (head # ps @ qs)"
    using assms by (auto simp: ring_def apart_def)
  have "ring (iqueue_init lst (iqueue_splice lst head h)) head (ps @ qs)"
    using l(2) by (intro ring_frame [OF s]) (auto simp: iqueue_init_def)
  then show ?thesis using ring_init [OF l(1)] by (simp add: iqueue_splice_init_def)
qed

text \<open>
  \<open>n\<close> turns of the loops that move segments from one queue to another
  (\<open>rcv_buf\<close> to \<open>rcv_queue\<close>, \<open>snd_queue\<close> to \<open>snd_buf\<close>) move the first \<open>n\<close> nodes in order, and the
  loops of \<open>ikcp_release\<close> remove every node once, in order.
\<close>

lemma iqueue_loops:
  assumes "ring h q ps" and "ring h r rs" and "apart r rs q ps" and "n \<le> length ps"
  shows "ring (rings.move_nodes n q r h) q (drop n ps) \<and>
    ring (rings.move_nodes n q r h) r (rs @ take n ps) \<and>
    fst (rings.drain_nodes (length ps) q h) = ps \<and>
    iqueue_is_empty q (snd (rings.drain_nodes (length ps) q h))"
  using rings.move_nodes_holds [OF assms(1,2) _ assms(4)] assms(3)
    rings.drain_nodes_holds [OF assms(1), of "length ps"] ring_empty
  by (fastforce simp: apart_def)

text \<open>The loop over a queue ends when the links lead back to the head.\<close>

lemma foreach_ends:
  "(\<exists>visited. iqueue_foreach n p head h = Some visited) \<longleftrightarrow> (\<exists>m \<le> n. (nxt h ^^ m) p = head)"
proof (induction n arbitrary: p)
  case (Suc n)
  have "(\<exists>m \<le> Suc n. (nxt h ^^ m) p = head) \<longleftrightarrow> p = head \<or> (\<exists>m \<le> n. (nxt h ^^ m) (nxt h p) = head)"
  proof -
    have "(\<exists>m \<le> Suc n. (nxt h ^^ m) p = head) \<longleftrightarrow>
        (nxt h ^^ 0) p = head \<or> (\<exists>m \<le> n. (nxt h ^^ Suc m) p = head)"
      by (metis Suc_le_mono le0 not0_implies_Suc)
    then show ?thesis by (simp add: funpow_Suc_right del: funpow.simps(2))
  qed
  then show ?case using Suc.IH [of "nxt h p"] by auto
qed auto

lemma foreach_short:
  assumes "ring h head ps" and "n < length ps"
  shows "iqueue_foreach n (nxt h head) head h = None"
proof (rule ccontr)
  assume "iqueue_foreach n (nxt h head) head h \<noteq> None"
  then obtain v where v: "iqueue_foreach n (nxt h head) head h = Some v" by blast
  have longer: "iqueue_foreach n p head h = Some v \<Longrightarrow> iqueue_foreach (n + m) p head h = Some v" for n m p v
  proof (induction n arbitrary: p v)
    case 0
    then show ?case by (cases m) (auto split: if_splits)
  next
    case (Suc n)
    then show ?case by (cases "p = head") auto
  qed
  have "iqueue_foreach (n + length ps) (nxt h head) head h = Some v" using longer [OF v] .
  then have "v = ps" using ring_foreach [OF assms(1), of "n + length ps"] by simp
  moreover have "iqueue_foreach n p head h = Some v \<Longrightarrow> length v \<le> n" for n p v
    by (induction n arbitrary: p v) (auto split: if_splits)
  ultimately show False using v assms(2) by fastforce
qed

text \<open>
  C33: termination of the loops over a queue.  \<open>iqueue_foreach\<close> ends exactly when following
  \<open>next\<close> from the head leads back to the head; on a queue of the macros it ends after as many steps
  as there are nodes, no fewer.  (On a node that was taken out it need not end.)
\<close>

theorem iqueue_foreach_terminates:
  assumes "ring h head ps"
  shows "((\<exists>n visited. iqueue_foreach n (nxt h' p) head' h' = Some visited) \<longleftrightarrow>
      (\<exists>m. (nxt h' ^^ Suc m) p = head')) \<and>
    iqueue_foreach n (nxt h head) head h = (if length ps \<le> n then Some ps else None)"
proof
  have "(\<exists>n visited. iqueue_foreach n (nxt h' p) head' h' = Some visited) \<longleftrightarrow>
      (\<exists>m. (nxt h' ^^ m) (nxt h' p) = head')" using foreach_ends by blast
  then show "(\<exists>n visited. iqueue_foreach n (nxt h' p) head' h' = Some visited) \<longleftrightarrow>
      (\<exists>m. (nxt h' ^^ Suc m) p = head')" by (simp add: funpow_Suc_right del: funpow.simps(2))
  show "iqueue_foreach n (nxt h head) head h = (if length ps \<le> n then Some ps else None)"
    using ring_foreach [OF assms] foreach_short [OF assms] by simp
qed

end
