(* ===== verification/Link.thy ===== *)
theory Link
  imports Machine
begin

text \<open>
  Two control blocks of one conversation and the network between them.  The network loses,
  repeats, reorders and delays datagrams as it likes; the clients of both ends make any proper
  calls.  What is shown is the promise of the protocol: the messages that come out at one end are
  the messages that were put in at the other, complete, unchanged, in order and once each.
\<close>

section \<open>The system\<close>

text \<open>
  \<open>forward\<close> and \<open>backward\<close> are the datagrams each end has handed to its callback so far.  The last three
  fields are history: the fragments queued, the messages accepted by \<open>ikcp_send\<close>, and the messages
  returned by \<open>ikcp_recv\<close>.
\<close>

type_synonym piece = "u32 \<times> u8 list"

record link =
  sender :: ikcpcb
  receiver :: ikcpcb
  forward :: "u8 list set"
  backward :: "u8 list set"
  pieces :: "piece list"
  posted :: "u8 list list"
  delivered :: "u8 list list"

definition piece :: "ikcpseg \<Rightarrow> piece" where
  "piece s = (seg_frg s, seg_data s)"

datatype event =
    Post "u8 list"           \<comment> \<open>the sender's client calls \<open>ikcp_send\<close>\<close>
  | Sender_call call         \<comment> \<open>any other call at the sender, with any bytes as input\<close>
  | Arrive "u8 list"         \<comment> \<open>a datagram of the sender reaches the receiver\<close>
  | Collect int              \<comment> \<open>the receiver's client calls \<open>ikcp_recv\<close>\<close>
  | Receiver_call call       \<comment> \<open>any other call at the receiver\<close>

fun is_send :: "call \<Rightarrow> bool" where
  "is_send (Send buf len) = True"
| "is_send _ = False"

fun is_recv :: "call \<Rightarrow> bool" where
  "is_recv (Recv buf len) = True"
| "is_recv _ = False"

fun is_input :: "call \<Rightarrow> bool" where
  "is_input (Input dat) = True"
| "is_input _ = False"

text \<open>
  Messages are sent while the allocator does not refuse (what happens otherwise is
  \<open>send_out_of_memory\<close>); \<open>ikcp_recv\<close> is given a buffer of \<open>len\<close> bytes.
\<close>

inductive link_step :: "link \<Rightarrow> event \<Rightarrow> link \<Rightarrow> bool" where
  post: "length m < 2 ^ 31 \<Longrightarrow> plentiful (mem (sender w)) \<Longrightarrow>
     ikcp_send (sender w) (Some m) (int (length m)) = Inr (r, k) \<Longrightarrow>
     link_step w (Post m) (w\<lparr>sender := k,
       pieces := pieces w @ map piece (drop (length (snd_queue (sender w))) (snd_queue k)),
       posted := (if r = 0 then posted w @ [m] else posted w)\<rparr>)"
| sender_call: "\<not> is_send c \<Longrightarrow> proper (sender w) c \<Longrightarrow>
     perform (sender w) c = Inr (r, out, sent, k) \<Longrightarrow>
     link_step w (Sender_call c) (w\<lparr>sender := k, forward := forward w \<union> set sent\<rparr>)"
| arrive: "d \<in> forward w \<Longrightarrow> ikcp_input (receiver w) (Some d) = Inr (r, k) \<Longrightarrow>
     link_step w (Arrive d) (w\<lparr>receiver := k\<rparr>)"
| collect: "0 \<le> len \<Longrightarrow> ikcp_recv (receiver w) True len = (r, out, k) \<Longrightarrow>
     link_step w (Collect len) (w\<lparr>receiver := k,
       delivered := (if 0 \<le> r then delivered w @ [out] else delivered w)\<rparr>)"
| receiver_call: "\<not> is_recv c \<Longrightarrow> \<not> is_input c \<Longrightarrow> proper (receiver w) c \<Longrightarrow>
     perform (receiver w) c = Inr (r, out, sent, k) \<Longrightarrow>
     link_step w (Receiver_call c) (w\<lparr>receiver := k, backward := backward w \<union> set sent\<rparr>)"

definition connected :: "int \<Rightarrow> int \<Rightarrow> link \<Rightarrow> bool" where
  "connected a b w \<longleftrightarrow> created a (sender w) \<and> created b (receiver w) \<and>
     conv (sender w) = conv (receiver w) \<and> forward w = {} \<and> backward w = {} \<and>
     pieces w = [] \<and> posted w = [] \<and> delivered w = []"

section \<open>The invariant\<close>

text \<open>A number and a fragment of the stream; numbers below \<open>2^32\<close> are not used twice.\<close>

definition genuine :: "piece list \<Rightarrow> u32 \<Rightarrow> piece \<Rightarrow> bool" where
  "genuine ps sn p \<longleftrightarrow> (\<exists>i < length ps. sn = of_nat i \<and> p = ps ! i)"

text \<open>The sender has numbered a first part of the stream; the rest is in its queue.\<close>

definition sends :: "piece list \<Rightarrow> ikcpcb \<Rightarrow> bool" where
  "sends ps k \<longleftrightarrow>
     (\<exists>n \<le> length ps. snd_nxt k = of_nat n \<and> map piece (snd_queue k) = drop n ps) \<and>
     (\<forall>s \<in> set (snd_buf k). genuine ps (seg_sn s) (piece s))"

text \<open>A data segment on the wire carries a fragment of the stream under its number.\<close>

definition honest :: "u32 \<Rightarrow> piece list \<Rightarrow> header \<times> u8 list \<Rightarrow> bool" where
  "honest c ps seg \<longleftrightarrow> acceptable c seg \<and>
     (h_cmd (fst seg) = 81 \<longrightarrow> genuine ps (h_sn (fst seg)) (ucast (h_frg (fst seg)), snd seg))"

definition honest_datagram :: "u32 \<Rightarrow> piece list \<Rightarrow> u8 list \<Rightarrow> bool" where
  "honest_datagram c ps d \<longleftrightarrow> (\<exists>segs. d = datagram segs \<and> (\<forall>seg \<in> set segs. honest c ps seg))"

text \<open>
  The receiver has received the stream up to \<open>rcv_nxt\<close>: the part \<open>got\<close> was taken out, the rest
  is in the queue; what waits in the buffer is genuine.
\<close>

definition receives :: "piece list \<Rightarrow> piece list \<Rightarrow> ikcpcb \<Rightarrow> bool" where
  "receives ps got k \<longleftrightarrow>
     (let n = length got + length (rcv_queue k)
      in n \<le> length ps \<and> rcv_nxt k = of_nat n \<and> got @ map piece (rcv_queue k) = take n ps) \<and>
     (\<forall>s \<in> set (rcv_buf k). genuine ps (seg_sn s) (piece s))"

text \<open>The fragments of a message.\<close>

definition message_pieces :: "piece list \<Rightarrow> u8 list \<Rightarrow> bool" where
  "message_pieces g m \<longleftrightarrow> (\<exists>cs. cs \<noteq> [] \<and> length cs \<le> 255 \<and> concat cs = m \<and>
     length m < 2 ^ 31 \<and> g = map piece (fragments cs))"

definition link_ok :: "int \<Rightarrow> int \<Rightarrow> link \<Rightarrow> bool" where
  "link_ok a b w \<longleftrightarrow>
     kcp_inv a (sender w) \<and> kcp_inv b (receiver w) \<and> conv (sender w) = conv (receiver w) \<and>
     sends (pieces w) (sender w) \<and>
     (\<forall>d \<in> forward w. honest_datagram (conv (sender w)) (pieces w) d) \<and>
     (\<exists>gs. pieces w = concat gs \<and> list_all2 message_pieces gs (posted w) \<and>
        length (delivered w) \<le> length gs \<and>
        delivered w = take (length (delivered w)) (posted w) \<and>
        receives (pieces w) (concat (take (length (delivered w)) gs)) (receiver w))"

section \<open>The stream\<close>

lemma genuine_append: "genuine ps sn p \<Longrightarrow> genuine (ps @ qs) sn p"
  by (force simp: genuine_def nth_append)

lemma of_nat_inj32:
  "i < 4294967296 \<Longrightarrow> n < 4294967296 \<Longrightarrow> (of_nat i :: u32) = of_nat n \<Longrightarrow> i = n"
  using unat_of_nat32 by metis

lemma genuine_number:
  assumes "genuine ps (of_nat n) p" and "length ps < 2 ^ 32" and "n \<le> length ps"
  shows "n < length ps \<and> p = ps ! n"
proof -
  obtain i where i: "i < length ps" "of_nat n = (of_nat i :: u32)" "p = ps ! i"
    using assms(1) by (auto simp: genuine_def)
  then have "n = i" using assms(2,3) by (intro of_nat_inj32) auto
  then show ?thesis using i by simp
qed

lemma honest_append: "honest c ps seg \<Longrightarrow> honest c (ps @ qs) seg"
  by (auto simp: honest_def genuine_append)

lemma honest_datagram_append: "honest_datagram c ps d \<Longrightarrow> honest_datagram c (ps @ qs) d"
  by (auto simp: honest_datagram_def intro: honest_append)

section \<open>The receiver\<close>

definition same_rcv :: "ikcpcb \<Rightarrow> ikcpcb \<Rightarrow> bool" where
  "same_rcv k k' \<longleftrightarrow> rcv_nxt k' = rcv_nxt k \<and> rcv_queue k' = rcv_queue k \<and> rcv_buf k' = rcv_buf k"

lemma same_rcv_simps:
  "same_rcv k k"
  "same_rcv k k1 \<Longrightarrow> same_rcv k1 k2 \<Longrightarrow> same_rcv k k2"
  by (simp_all add: same_rcv_def)

lemma same_rcv_receives: "same_rcv k k' \<Longrightarrow> receives ps got k' = receives ps got k"
  by (simp add: same_rcv_def receives_def)

lemma receives_append: "receives ps got k \<Longrightarrow> receives (ps @ qs) got k"
  by (auto simp: receives_def Let_def genuine_append)

lemma receives_move:
  "receives ps got k \<Longrightarrow> length ps < 2 ^ 32 \<Longrightarrow> receives ps got (move_rcv_buf k)"
proof (induction k rule: move_rcv_buf.induct)
  case (1 k)
  show ?case
  proof (cases "rcv_buf k")
    case Nil
    then show ?thesis using "1.prems" by (simp add: move_rcv_buf.simps)
  next
    case (Cons seg rest)
    show ?thesis
    proof (cases "seg_sn seg = rcv_nxt k \<and> nrcv_que k < rcv_wnd k")
      case False
      then show ?thesis using Cons "1.prems" by (auto simp: move_rcv_buf.simps [of k])
    next
      case True
      let ?k = "k\<lparr>rcv_buf := rest, nrcv_buf := nrcv_buf k - 1,
               rcv_queue := rcv_queue k @ [seg], nrcv_que := nrcv_que k + 1,
               rcv_nxt := rcv_nxt k + 1\<rparr>"
      let ?n = "length got + length (rcv_queue k)"
      have r: "?n \<le> length ps" "rcv_nxt k = of_nat ?n" "got @ map piece (rcv_queue k) = take ?n ps"
        using "1.prems"(1) by (simp_all add: receives_def Let_def)
      have "genuine ps (of_nat ?n) (piece seg)"
        using "1.prems"(1) Cons True r(2) by (simp add: receives_def)
      then have "?n < length ps \<and> piece seg = ps ! ?n"
        using "1.prems"(2) r(1) by (intro genuine_number)
      then have "receives ps got ?k"
        using "1.prems"(1) Cons r by (auto simp: receives_def Let_def take_Suc_conv_app_nth)
      then have "receives ps got (move_rcv_buf ?k)" using "1.prems"(2) by (intro "1.IH" [OF Cons True])
      then show ?thesis using True Cons by (simp add: move_rcv_buf.simps [of k])
    qed
  qed
qed

lemma receives_parsed:
  assumes "receives ps got k" and "genuine ps (seg_sn newseg) (piece newseg)"
  shows "receives ps got (parsed k newseg)"
  using assms insert_segment_set [of "rcv_nxt k" newseg "rcv_buf k"]
  by (auto simp: receives_def parsed_def Let_def)

lemma receives_parse_data:
  assumes "wf_rcv k" and "receives ps got k" and "genuine ps (seg_sn newseg) (piece newseg)"
    and "length ps < 2 ^ 32"
  shows "receives ps got (ikcp_parse_data k newseg)"
proof -
  have "receives ps got (move_rcv_buf (parsed k newseg))"
    using assms(4) by (intro receives_move receives_parsed assms)
  moreover have "receives ps got (k\<lparr>mem := m\<rparr>)" for m
    using assms(2) by (simp add: receives_def)
  ultimately show ?thesis by (simp add: parse_data_eq [OF assms(1)])
qed

lemma ack_push_rcv: "wf_ack k \<Longrightarrow> ikcp_ack_push k sn ts = Inr k' \<Longrightarrow> same_rcv k k'"
  by (cases rule: ack_push_cases [of k sn ts]; auto simp: acks_set_def same_rcv_def)

lemma receives_push:
  assumes "kcp_wf k" and "receives ps got k" and "length ps < 2 ^ 32"
    and "genuine ps (h_sn h) (ucast (h_frg h), payload)" and "length payload = unat (h_len h)"
    and "input_push k h payload = Inr k'"
  shows "receives ps got k'"
proof -
  have wa: "wf_ack k" using assms(1) by (simp add: kcp_wf_def)
  from assms(1,6) show ?thesis
  proof (cases rule: input_push_Inr)
    case beyond
    then show ?thesis using assms(2) by simp
  next
    case old
    then show ?thesis using ack_push_rcv [OF wa] same_rcv_receives assms(2) by blast
  next
    case (data k1 m)
    let ?seg = "received_segment h payload (fresh_segment (unat (h_len h)))"
    have "same_rcv k (k1\<lparr>mem := m\<rparr>)" using data(4-7) by (simp add: same_rcv_def)
    then have "receives ps got (k1\<lparr>mem := m\<rparr>)" using assms(2) same_rcv_receives by blast
    moreover have "piece ?seg = (ucast (h_frg h), payload)" "seg_sn ?seg = h_sn h"
      using assms(5) by (auto simp: piece_def received_segment_def fresh_segment_def word_gt_0)
    moreover have "wf_rcv (k1\<lparr>mem := m\<rparr>)" using data(3) by (simp add: kcp_wf_def)
    ultimately show ?thesis
      unfolding data(8) using assms(3,4) by (intro receives_parse_data) simp_all
  qed
qed

text \<open>Steps that do not touch the acknowledge list either.\<close>

definition quiet_rcv :: "ikcpcb \<Rightarrow> ikcpcb \<Rightarrow> bool" where
  "quiet_rcv k k' \<longleftrightarrow> same_rcv k k' \<and> acklist k' = acklist k \<and> ackcount k' = ackcount k"

lemma quiet_rcv_trans: "quiet_rcv k k1 \<Longrightarrow> quiet_rcv k1 k2 \<Longrightarrow> quiet_rcv k k2"
  by (simp add: quiet_rcv_def same_rcv_def)

lemmas quiet_defs = quiet_rcv_def same_rcv_def

text \<open>What a segment does before its command is looked at, and what an acknowledgement does.\<close>

lemma parse_una_rcv: "quiet_rcv k (ikcp_parse_una k una)"
  by (simp add: parse_una_dropped dropped_def quiet_defs)

lemma shrink_rcv: "quiet_rcv k (ikcp_shrink_buf k)"
  using shrink_fields [of k] by (auto simp: quiet_defs)

lemma parse_ack_rcv: "quiet_rcv k (ikcp_parse_ack k sn)"
  using parse_ack_fields [of sn k] by (auto simp: quiet_defs)

lemma update_ack_rcv: "quiet_rcv k (ikcp_update_ack k rtt)"
  by (simp add: quiet_defs update_ack_frame)

lemma input_ack_rcv: "quiet_rcv k (input_ack k h)"
  unfolding input_ack_def Let_def
  by (intro quiet_rcv_trans [OF quiet_rcv_trans [OF _ parse_ack_rcv] shrink_rcv])
    (auto simp: quiet_defs update_ack_frame)

lemma input_segment_split:
  assumes "kcp_wf k" and "input_segment k h payload = Inr k'"
  obtains k1 where "kcp_wf k1" and "quiet_rcv k k1" and "conv k1 = conv k" and "rcv_wnd k1 = rcv_wnd k"
    and "if h_cmd h = 81 then input_push k1 h payload = Inr k' else quiet_rcv k1 k'"
proof
  let ?k1 = "ikcp_shrink_buf (ikcp_parse_una (k\<lparr>rmt_wnd := ucast (h_wnd h)\<rparr>) (h_una h))"
  show "kcp_wf ?k1"
    using assms(1) by (intro shrink_wf parse_una_kcp_open rmt_wnd_open ucast16_less)
  have "quiet_rcv k (k\<lparr>rmt_wnd := ucast (h_wnd h)\<rparr>)" by (simp add: quiet_defs)
  then show "quiet_rcv k ?k1"
    by (rule quiet_rcv_trans [OF quiet_rcv_trans [OF _ parse_una_rcv] shrink_rcv])
  show "conv ?k1 = conv k" "rcv_wnd ?k1 = rcv_wnd k"
    using shrink_fields [of "ikcp_parse_una (k\<lparr>rmt_wnd := ucast (h_wnd h)\<rparr>) (h_una h)"]
    by (auto simp: parse_una_dropped dropped_def)
  have c: "(ucast (h_cmd h) :: u32) = 81 \<longleftrightarrow> h_cmd h = 81" by (rule ucast_cmd(1))
  show "if h_cmd h = 81 then input_push ?k1 h payload = Inr k' else quiet_rcv ?k1 k'"
    using assms(2) input_ack_rcv [of ?k1 h]
    by (auto simp: input_segment_def Let_def c quiet_defs split: if_splits)
qed

lemma receives_feed:
  assumes "feed segs k = Inr k'" and "\<forall>seg \<in> set segs. honest (conv k) ps seg"
    and "kcp_wf k" and "receives ps got k" and "length ps < 2 ^ 32"
  shows "receives ps got k'"
  using assms(1-4)
proof (induction segs arbitrary: k)
  case (Cons seg segs)
  obtain h payload where seg: "seg = (h, payload)" by (cases seg)
  then obtain k1 where k1: "input_segment k h payload = Inr k1" "feed segs k1 = Inr k'"
    using Cons.prems(1) by auto
  have honest: "honest (conv k) ps (h, payload)" using Cons.prems(2) seg by simp
  then have len: "length payload = unat (h_len h)" by (simp add: honest_def acceptable_def)
  have wf1: "kcp_wf k1" using Cons.prems(3) k1(1) len by (rule input_segment_wf)
  obtain k0 where k0: "kcp_wf k0" "same_rcv k k0"
    "if h_cmd h = 81 then input_push k0 h payload = Inr k1 else same_rcv k0 k1"
    using input_segment_split [OF Cons.prems(3) k1(1)] unfolding quiet_rcv_def by metis
  have r0: "receives ps got k0" using Cons.prems(4) k0(2) same_rcv_receives by blast
  have "receives ps got k1"
  proof (cases "h_cmd h = 81")
    case True
    then have "genuine ps (h_sn h) (ucast (h_frg h), payload)" using honest by (simp add: honest_def)
    then show ?thesis using k0(3) True by (intro receives_push [OF k0(1) r0 assms(5) _ len]) simp_all
  next
    case False
    then show ?thesis using k0(3) r0 same_rcv_receives by auto
  qed
  moreover have "conv k1 = conv k" using k1(1) by (rule input_segment_conv)
  ultimately show ?case using Cons.IH [OF k1(2) _ wf1] Cons.prems(2) by simp
qed simp

text \<open>A datagram of acceptable segments is processed segment by segment.\<close>

lemma input_feed:
  assumes "ikcp_input k (Some (datagram segs)) = Inr (r, k')" and "\<forall>seg \<in> set segs. acceptable (conv k) seg"
  obtains k1 c i where "feed segs k = Inr k1" and "k' = k1\<lparr>cwnd := c, incr := i\<rparr>"
proof (cases "segs = []")
  case True
  then have "k' = k\<lparr>cwnd := cwnd k, incr := incr k\<rparr>" using assms(1) by (simp add: ikcp_input_def)
  then show ?thesis using True by (intro that [of k "incr k" "cwnd k"]) simp_all
next
  case False
  then have "\<not> length (datagram segs) < 24"
    by (cases segs) (auto simp: length_datagram wire_length_def)
  moreover have "input_loop (datagram segs) k = bindE (feed segs k) (\<lambda>k. Inr (0, k))"
    using input_loop_datagram [OF assms(2), of "[]"] by (simp add: input_loop_Nil)
  ultimately obtain k1 where f: "feed segs k = Inr k1"
    and g: "bindE (if itimediff (snd_una k1) (snd_una k) > 0 then grow_cwnd k1 else Inr k1)
      (\<lambda>k. Inr (0, k)) = Inr (r, k')"
    using assms(1) by (cases "feed segs k") (auto simp: ikcp_input_def Let_def)
  then have "k' = k1 \<or> grow_cwnd k1 = Inr k'" by (auto simp: bindE_def split: if_splits sum.splits)
  then have "k' = k1\<lparr>cwnd := cwnd k', incr := incr k'\<rparr>" using grow_cwnd_fields [of k1 k'] by auto
  then show ?thesis using f that by blast
qed

lemma receives_input:
  assumes "ikcp_input k (Some d) = Inr (r, k')" and "honest_datagram (conv k) ps d"
    and "kcp_wf k" and "receives ps got k" and "length ps < 2 ^ 32"
  shows "receives ps got k'"
proof -
  obtain segs where d: "d = datagram segs" and h: "\<forall>seg \<in> set segs. honest (conv k) ps seg"
    using assms(2) by (auto simp: honest_datagram_def)
  then have "\<forall>seg \<in> set segs. acceptable (conv k) seg" by (simp add: honest_def)
  from input_feed [OF assms(1) [unfolded d] this] obtain k1 c i
    where k1: "feed segs k = Inr k1" "k' = k1\<lparr>cwnd := c, incr := i\<rparr>" .
  from receives_feed [OF k1(1) h assms(3-5)] show ?thesis by (simp add: k1(2) receives_def)
qed

text \<open>The other calls of the receiver's client.\<close>

lemma update_rcv:
  assumes "kcp_wf k" and "output_cb k" and "ikcp_update k now = Inr (sent, k')"
  shows "same_rcv k k'"
  using assms(1,3,2)
proof (cases rule: update_cases)
  case quiet
  then show ?thesis by (simp add: same_rcv_def)
next
  case flushed
  have "kcp_wf (ticked k now (next_flush k now))" using assms(1) by (simp add: ticked_wf)
  from flush_rcv [OF this _ flushed(1)] assms(2) show ?thesis
    by (simp add: ticked_frame same_rcv_def) (simp add: ticked_def)
qed

lemma perform_rcv:
  assumes "kcp_wf k" and "proper k c" and "\<not> is_recv c" and "\<not> is_input c"
    and "perform k c = Inr (r, out, sent, k')"
  shows "same_rcv k k'"
proof (cases c)
  case (Send buf len)
  then show ?thesis
    using assms(1,5) send_grows [of k buf len r k'] by (auto simp: grows_to_def grown_def same_rcv_def)
next
  case (Update now)
  then show ?thesis using assms(1,2,5) update_rcv by auto
next
  case Flush
  then show ?thesis using assms(1,2,5) flush_rcv by (auto simp: same_rcv_def)
next
  case (Setmtu m)
  then show ?thesis using assms(5)
    by (auto simp: ikcp_setmtu_def same_rcv_def split: prod.splits if_splits)
next
  case (Nodelay nd i resend nc)
  then show ?thesis using assms(5) by (auto simp: ikcp_nodelay_def same_rcv_def Let_def)
next
  case (Wndsize sw rw)
  then show ?thesis using assms(5) by (auto simp: ikcp_wndsize_def same_rcv_def Let_def)
qed (use assms(3-5) in \<open>auto simp: ikcp_interval_def set_output_def same_rcv_def\<close>)

text \<open>Taking out a message: the fragments of the next message are at the front of the queue.\<close>

lemma pieces_frg: "map seg_frg m = map fst (map piece m)" and pieces_data: "map seg_data m = map snd (map piece m)"
  by (simp_all add: piece_def comp_def)

lemma fragments_pieces:
  "map fst (map piece (fragments cs)) = map seg_frg (fragments cs)"
  "map snd (map piece (fragments cs)) = cs"
  by (simp_all add: piece_def comp_def) (use fragments_data in simp)

lemma append_takes:
  assumes "xs = take n (ys @ zs)" and "length ys \<le> length xs"
  shows "take (length ys) xs = ys"
proof -
  have "length ys \<le> n" using assms by simp
  then show ?thesis using assms(1) by simp
qed

lemma receives_done: "receives ps got k \<Longrightarrow> length ps < 2 ^ 32 \<Longrightarrow> receives ps got (recv_done rec k)"
  using receives_move [of ps got k] by (auto simp: recv_done_def Let_def receives_def)

text \<open>A first segment whose whole message is in the queue.\<close>

lemma front_message:
  assumes "map piece q = take n (g @ rest)" and "message_pieces g m" and "q \<noteq> []"
    and "seg_frg (hd q) = 0 \<or> unat (seg_frg (hd q)) + 1 \<le> length q"
  shows "length g \<le> length q \<and> map piece (take (length g) q) = g \<and>
    message_of q = (take (length g) q, drop (length g) q) \<and>
    concat (map seg_data (take (length g) q)) = m"
proof -
  obtain cs where cs: "cs \<noteq> []" "length cs \<le> 255" "concat cs = m" "g = map piece (fragments cs)"
    using assms(2) by (auto simp: message_pieces_def)
  obtain c ds where ds: "cs = c # ds" using cs(1) by (cases cs) auto
  obtain s q' where q: "q = s # q'" using assms(3) by (cases q) auto
  then have "0 < n" using assms(1) by (cases n) auto
  then have "piece s = piece (data_segment (length ds) c)"
    using assms(1) q cs(4) ds by (cases n) auto
  then have "seg_frg s = of_nat (length ds)" by (simp add: piece_def data_segment_def)
  moreover have "unat (of_nat (length ds) :: u32) = length ds"
    using cs(2) ds by (intro unat_of_nat32) simp
  ultimately have "length ds + 1 \<le> length q" using assms(4) q by (auto simp: unat_eq_0)
  then have len: "length g \<le> length q" using cs(4) ds by simp
  then have "take (length g) (map piece q) = g"
    by (intro append_takes [OF assms(1)]) simp
  then have g: "map piece (take (length g) q) = g" by (simp add: take_map)
  have "map seg_frg (take (length g) q) = map seg_frg (fragments cs)"
    unfolding pieces_frg g unfolding cs(4) fragments_pieces ..
  moreover have "length cs \<le> 256" using cs(2) by linarith
  ultimately have "message_of (take (length g) q @ drop (length g) q) = (take (length g) q, drop (length g) q)"
    using cs(1) by (intro message_of_fragments)
  moreover have "map seg_data (take (length g) q) = cs"
    unfolding pieces_data g unfolding cs(4) fragments_pieces ..
  ultimately show ?thesis using len g cs(3) by simp
qed

lemma queue_front:
  assumes "receives (concat gs) (concat (take j gs)) k"
  shows "map piece (rcv_queue k) = take (length (rcv_queue k)) (concat (drop j gs))"
proof -
  let ?q = "rcv_queue k" and ?got = "concat (take j gs)"
  have ps: "concat gs = ?got @ concat (drop j gs)" by (simp flip: concat_append)
  have "?got @ map piece ?q = take (length ?got + length ?q) (concat gs)"
    using assms by (simp add: receives_def Let_def)
  also have "\<dots> = ?got @ take (length ?q) (concat (drop j gs))" by (subst ps) simp
  finally show ?thesis by simp
qed

lemma receives_collect:
  assumes "kcp_wf k" and "receives ps (concat (take j gs)) k" and "length ps < 2 ^ 32"
    and "ps = concat gs" and "list_all2 message_pieces gs ms" and "j \<le> length gs"
    and "0 \<le> len" and "ikcp_recv k True len = (r, out, k')" and "0 \<le> r"
  shows "j < length gs \<and> out = ms ! j \<and> receives ps (concat (take (Suc j) gs)) k'"
proof -
  let ?q = "rcv_queue k" and ?got = "concat (take j gs)"
  have "\<not> (?q = [] \<or> ikcp_peeksize k < 0 \<or> recv_room len < ikcp_peeksize k)"
    using recv_rejects [of k len True] assms(8,9) by auto
  then have ok: "?q \<noteq> []" "0 \<le> ikcp_peeksize k" "ikcp_peeksize k \<le> recv_room len" by auto
  have res: "out = concat (map seg_bytes (fst (message_of ?q)))"
    "k' = recv_done (nrcv_que k \<ge> rcv_wnd k) (taken (fst (message_of ?q)) (snd (message_of ?q)) k)"
    using recv_accepts [OF ok, of True] assms(7,8) by (simp_all add: recv_taken_def)
  have r: "length ?got + length ?q \<le> length ps" "rcv_nxt k = of_nat (length ?got + length ?q)"
    "?got @ map piece ?q = take (length ?got + length ?q) ps"
    using assms(2) by (simp_all add: receives_def Let_def)
  have q: "map piece ?q = take (length ?q) (concat (drop j gs))"
    using queue_front assms(2) unfolding assms(4) .
  have j: "j < length gs"
  proof (rule ccontr)
    assume "\<not> j < length gs"
    then show False using q ok(1) by simp
  qed
  define g where "g = gs ! j"
  have drop: "drop j gs = g # drop (Suc j) gs" using j by (simp add: Cons_nth_drop_Suc g_def)
  have msg: "message_pieces g (ms ! j)" using assms(5) j by (simp add: g_def list_all2_nthD)
  have "unat (nrcv_que k) = length ?q"
    using assms(1) by (simp add: kcp_wf_def wf_rcv_def unat_of_nat32)
  moreover have "seg_frg (hd ?q) < 256"
    using assms(1) ok(1) by (simp add: kcp_wf_def wf_rcv_def seg_received_def)
  then have "unat (seg_frg (hd ?q) + 1) = unat (seg_frg (hd ?q)) + 1"
    by (subst unat_add32) (simp_all add: word_less_nat_alt)
  ultimately have "seg_frg (hd ?q) = 0 \<or> unat (seg_frg (hd ?q)) + 1 \<le> length ?q"
    using ok(1,2) by (auto simp: ikcp_peeksize_def word_less_nat_alt neq_Nil_conv split: if_splits)
  from front_message [OF q [unfolded drop concat.simps] msg ok(1) this]
  have f: "length g \<le> length ?q" "map piece (take (length g) ?q) = g"
    "message_of ?q = (take (length g) ?q, drop (length g) ?q)"
    "concat (map seg_data (take (length g) ?q)) = ms ! j" by auto
  have "\<forall>s \<in> set (take (length g) ?q). seg_sound s"
    using assms(1) by (auto simp: kcp_wf_def wf_rcv_def seg_received_def dest: in_set_takeD)
  then have out: "out = ms ! j" using res(1) f(3,4) by (simp add: sound_bytes)
  have got: "concat (take (Suc j) gs) = ?got @ g" using j by (simp add: take_Suc_conv_app_nth g_def)
  have split: "map piece ?q = g @ map piece (drop (length g) ?q)"
    using f(2) by (metis append_take_drop_id map_append)
  have "receives ps (?got @ g) (taken (take (length g) ?q) (drop (length g) ?q) k)"
    using assms(2) r f(1) split by (simp add: receives_def taken_def Let_def)
  then have "receives ps (concat (take (Suc j) gs)) k'"
    unfolding res(2) f(3) got using assms(3) by (simp add: receives_done)
  then show ?thesis using j out by simp
qed

lemma refused_collect: "ikcp_recv k buf len = (r, out, k') \<Longrightarrow> r < 0 \<Longrightarrow> k' = k"
proof (cases "rcv_queue k = [] \<or> ikcp_peeksize k < 0 \<or> recv_room len < ikcp_peeksize k")
  case True
  from recv_rejects [OF this, of buf] obtain r' where "ikcp_recv k buf len = (r', [], k)" by blast
  then show "ikcp_recv k buf len = (r, out, k') \<Longrightarrow> r < 0 \<Longrightarrow> k' = k" by simp
next
  case False
  then show "ikcp_recv k buf len = (r, out, k') \<Longrightarrow> r < 0 \<Longrightarrow> k' = k"
    using recv_accepts [of k len buf] by auto
qed

end
