(* ===== verification/Delivery.thy ===== *)
theory Delivery
  imports Link
begin

text \<open>
  The sender of a link, and the promise of the protocol: in every run the messages that come out
  at the receiver are the first of the messages that were put in at the sender, in order.
\<close>

section \<open>The sender\<close>

lemma sends_append_genuine: "sends ps k \<Longrightarrow> s \<in> set (snd_buf k) \<Longrightarrow> genuine (ps @ qs) (seg_sn s) (piece s)"
  by (simp add: sends_def genuine_append)

lemma sends_content:
  assumes "sends ps k" and "snd_nxt k' = snd_nxt k" and "snd_queue k' = snd_queue k"
    and "content ` set (snd_buf k') \<subseteq> content ` set (snd_buf k)"
  shows "sends ps k'"
proof -
  have "genuine ps (seg_sn s) (piece s)" if s: "s \<in> set (snd_buf k')" for s
  proof -
    obtain t where "t \<in> set (snd_buf k)" "content s = content t" using s assms(4) by auto
    then show ?thesis using assms(1) by (auto simp: sends_def content_def piece_def)
  qed
  then show ?thesis using assms(1-3) by (simp add: sends_def)
qed

lemma sends_same:
  "sends ps k \<Longrightarrow> snd_nxt k' = snd_nxt k \<Longrightarrow> snd_queue k' = snd_queue k \<Longrightarrow>
   snd_buf k' = snd_buf k \<Longrightarrow> sends ps k'"
  by (rule sends_content) auto

lemma post_result:
  assumes "kcp_wf k" and "plentiful (mem k)" and "length m < 2 ^ 31"
    and "ikcp_send k (Some m) (int (length m)) = Inr (r, k')"
  shows "(r = 0 \<and> (\<exists>cs. cs \<noteq> [] \<and> length cs \<le> 255 \<and> concat cs = m \<and> k' = enqueue (fragments cs) k)) \<or>
    (r \<noteq> 0 \<and> k' = k)"
proof (cases "length (chunks (unat (mss k)) m) \<le> 255")
  case True
  then have "r = 0" "k' = enqueue (fragments (chunks (unat (mss k)) m)) k"
    using send_enqueues [OF assms(1,3) True] assms(2,4) by (auto simp: plentiful_def)
  then show ?thesis using True by (intro disjI1 conjI exI [of _ "chunks (unat (mss k)) m"]) simp_all
next
  case False
  then show ?thesis using send_too_many [OF assms(1,3), of "Some m"] assms(4) by simp
qed

lemma sends_post:
  assumes "sends ps k"
  shows "sends (ps @ map piece (fragments cs)) (enqueue (fragments cs) k)"
proof -
  obtain n where "n \<le> length ps" "snd_nxt k = of_nat n" "map piece (snd_queue k) = drop n ps"
    using assms by (auto simp: sends_def)
  then have "n \<le> length (ps @ map piece (fragments cs))"
    "snd_nxt (enqueue (fragments cs) k) = of_nat n"
    "map piece (snd_queue (enqueue (fragments cs) k)) = drop n (ps @ map piece (fragments cs))"
    by (simp_all add: enqueue_def)
  moreover have "snd_buf (enqueue (fragments cs) k) = snd_buf k" by (simp add: enqueue_def)
  ultimately show ?thesis using sends_append_genuine [OF assms] unfolding sends_def by auto
qed

text \<open>The segments of the send buffer and those a flush moves there carry their fragment.\<close>

lemma queue_genuine:
  assumes "sends ps k" and "i < length (snd_queue k)"
  shows "genuine ps (snd_nxt k + of_nat i) (piece (snd_queue k ! i))"
proof -
  obtain n where n: "n \<le> length ps" "snd_nxt k = of_nat n" "map piece (snd_queue k) = drop n ps"
    using assms(1) by (auto simp: sends_def)
  then have "length (snd_queue k) = length ps - n" by (metis length_drop length_map)
  moreover have "piece (snd_queue k ! i) = ps ! (n + i)"
    using n assms(2) by (metis nth_drop nth_map)
  ultimately show ?thesis
    using n assms(2) by (auto simp: genuine_def intro!: exI [of _ "n + i"])
qed

lemma window_room_le: "window_room k \<le> length (snd_queue k)"
  by (simp add: window_room_def)

lemma windowed_genuine:
  assumes "sends ps k"
  shows "\<forall>s \<in> set (snd_buf k @ admitted k wnd (window_room k)). genuine ps (seg_sn s) (piece s)"
proof -
  have "genuine ps (seg_sn s) (piece s)" if s: "s \<in> set (admitted k wnd (window_room k))" for s
  proof -
    obtain i where "i < window_room k" "s = numbered k wnd i (snd_queue k ! i)"
      using s by (auto simp: admitted_def)
    then show ?thesis
      using queue_genuine [OF assms, of i] window_room_le [of k] by (simp add: numbered_def piece_def)
  qed
  then show ?thesis using assms by (auto simp: sends_def)
qed

lemma sends_flush:
  assumes "kcp_wf k" and "output_cb k" and "ikcp_flush k = Inr (sent, k')" and "sends ps k"
  shows "sends ps k'"
proof (cases "updated k = 0")
  case True
  then show ?thesis using assms(3,4) by (simp add: ikcp_flush_def)
next
  case False
  note w = flush_window [OF assms(1) False assms(3,2)]
  obtain n where n: "n \<le> length ps" "snd_nxt k = of_nat n" "map piece (snd_queue k) = drop n ps"
    using assms(4) by (auto simp: sends_def)
  have "length (snd_queue k) = length ps - n" using n(3) by (metis length_drop length_map)
  moreover have "map piece (drop (window_room k) (snd_queue k)) = drop (window_room k + n) ps"
    using n(3) by (simp flip: drop_map)
  ultimately have q: "window_room k + n \<le> length ps" "snd_nxt k' = of_nat (window_room k + n)"
    "map piece (snd_queue k') = drop (window_room k + n) ps"
    using w n(1,2) window_room_le [of k] by simp_all
  have "genuine ps (seg_sn s) (piece s)" if s: "s \<in> set (snd_buf k')" for s
  proof -
    have "map content (snd_buf k') = map content (snd_buf k @ admitted k 0 (window_room k))"
      using w by (simp add: admitted_def numbered_def content_def comp_def)
    then have "content s \<in> content ` set (snd_buf k @ admitted k 0 (window_room k))"
      using s by (metis image_eqI list.set_map)
    then obtain t where "t \<in> set (snd_buf k @ admitted k 0 (window_room k))" "content s = content t" by blast
    then show ?thesis using windowed_genuine [OF assms(4)] by (auto simp: content_def piece_def)
  qed
  then show ?thesis using q unfolding sends_def by blast
qed

text \<open>What a flush puts on the wire is honest.\<close>

lemma ucast_frg: "f < 256 \<Longrightarrow> ucast (ucast (f :: u32) :: u8) = f"
proof -
  assume "f < 256"
  then have f: "unat f < 256" by (simp add: word_less_nat_alt)
  then have b: "unat (ucast f :: u8) = unat f" by (simp add: unsigned_ucast_eq take_bit_eq_mod)
  have "unat (ucast (ucast f :: u8) :: u32) = unat (ucast f :: u8)"
    using f b by (simp add: unsigned_ucast_eq [of "ucast f :: u8"] take_bit_eq_mod)
  then show ?thesis using b by (simp add: word_unat_eq_iff)
qed

lemma plan_honest:
  assumes "kcp_wf k" and "wf_wire k" and "sends ps k" and "\<forall>p \<in> set ps. fst p < 256"
  shows "\<forall>seg \<in> set (flush_plan k). honest (conv k) ps seg"
proof
  fix seg assume seg: "seg \<in> set (flush_plan k)"
  have acc: "acceptable (conv k) seg" using plan_acceptable [OF assms(1,2)] seg by blast
  show "honest (conv k) ps seg"
  proof (cases "seg \<in> set (data_plan k)")
    case True
    then obtain s where s: "seg = stamped k (seg_wnd (control_segment k)) s"
      "s \<in> set (snd_buf k @ admitted k (seg_wnd (control_segment k)) (window_room k))"
      by (auto simp: data_plan_def Let_def)
    then have g: "genuine ps (seg_sn s) (piece s)" using windowed_genuine [OF assms(3)] by blast
    then have "piece s \<in> set ps" by (auto simp: genuine_def)
    then have "ucast (ucast (seg_frg s) :: u8) = seg_frg s"
      using assms(4) by (intro ucast_frg) (auto simp: piece_def)
    then show ?thesis
      using acc g s(1) by (simp add: honest_def stamped_def header_of_def piece_def)
  next
    case False
    then have "h_cmd (fst seg) \<noteq> 81"
      using seg by (auto simp: flush_plan_def ack_plan_def probe_plan_def header_of_def
          control_segment_def Let_def)
    then show ?thesis using acc by (simp add: honest_def)
  qed
qed

lemma flush_honest:
  assumes "kcp_wf k" and "output_cb k" and "ikcp_flush k = Inr (sent, k')" and "wf_wire k"
    and "sends ps k" and "\<forall>p \<in> set ps. fst p < 256"
  shows "\<forall>d \<in> set sent. honest_datagram (conv k) ps d"
  using assms(1-3)
proof (cases rule: flush_cases)
  case (flushed segs x st)
  have "\<forall>seg \<in> set g. honest (conv k) ps seg" if "g \<in> set (pack (unat (mtu k)) (flush_plan k))" for g
  proof -
    have "set g \<subseteq> set (flush_plan k)"
      using that concat_pack [of "unat (mtu k)" "flush_plan k"] by (metis UN_upper set_concat)
    then show ?thesis using plan_honest [OF assms(1,4-6)] by blast
  qed
  then show ?thesis unfolding flushed(2) by (auto simp: honest_datagram_def)
qed simp

lemma update_sends:
  assumes "kcp_wf k" and "output_cb k" and "ikcp_update k now = Inr (sent, k')" and "wf_wire k"
    and "sends ps k" and "\<forall>p \<in> set ps. fst p < 256"
  shows "sends ps k' \<and> (\<forall>d \<in> set sent. honest_datagram (conv k) ps d)"
  using assms(1,3,2)
proof (cases rule: update_cases)
  case quiet
  have "sends ps k'" by (rule sends_same [OF assms(5)]) (simp_all add: quiet)
  then show ?thesis using quiet by simp
next
  case flushed
  let ?k = "ticked k now (next_flush k now)"
  have k: "kcp_wf ?k" "output_cb ?k" "wf_wire ?k" "conv ?k = conv k"
    using assms(1,2,4) by (simp_all add: ticked_wf ticked_frame) (simp add: ticked_def)
  have s: "sends ps ?k" by (rule sends_same [OF assms(5)]) (simp_all add: ticked_def)
  show ?thesis
    using sends_flush [OF k(1,2) flushed(1) s] flush_honest [OF k(1,2) flushed(1) k(3) s assms(6)]
    by (simp add: k(4))
qed

lemma recv_sender_frame:
  "snd_nxt (snd (snd (ikcp_recv k buf len))) = snd_nxt k"
  "snd_queue (snd (snd (ikcp_recv k buf len))) = snd_queue k"
  by (cases rule: recv_cases [of k buf len];
      simp add: recv_done_def recv_taken_def taken_def Let_def move_frame)+

text \<open>Any call but \<open>ikcp_send\<close>, with any bytes as input.\<close>

lemma perform_sends:
  assumes "kcp_wf k" and "wf_wire k" and "proper k c" and "\<not> is_send c"
    and "perform k c = Inr (r, out, sent, k')"
    and "sends ps k" and "\<forall>p \<in> set ps. fst p < 256"
  shows "sends ps k' \<and> (\<forall>d \<in> set sent. honest_datagram (conv k) ps d)"
proof (cases c)
  case (Recv buf len)
  then have "k' = snd (snd (ikcp_recv k buf len))" "sent = []"
    using assms(5) by (auto split: prod.splits)
  moreover have "sends ps (snd (snd (ikcp_recv k buf len)))"
    by (rule sends_same [OF assms(6)]) (simp_all add: recv_frame recv_sender_frame)
  ultimately show ?thesis by simp
next
  case (Input dat)
  then have "ikcp_input k dat = Inr (r, k')" and s: "sent = []" using assms(5) by auto
  then have "advances k k'" using input_advances_aux [OF assms(1)] by blast
  then have "sends ps k'"
    unfolding advances_def by (intro sends_content [OF assms(6)]) blast+
  then show ?thesis using s by simp
next
  case (Update now)
  then show ?thesis using assms(3,5) update_sends [OF assms(1) _ _ assms(2,6,7)] by auto
next
  case Flush
  then show ?thesis
    using assms(3,5) sends_flush [OF assms(1) _ _ assms(6)] flush_honest [OF assms(1) _ _ assms(2,6,7)]
    by auto
next
  case (Setmtu m)
  have "sends ps (snd (ikcp_setmtu k m))"
    by (rule sends_same [OF assms(6)]) (auto simp: ikcp_setmtu_def split: prod.split)
  then show ?thesis using Setmtu assms(5) by (auto split: prod.splits)
next
  case (Interval i)
  have "sends ps (snd (ikcp_interval k i))"
    by (rule sends_same [OF assms(6)]) (simp_all add: ikcp_interval_def)
  then show ?thesis using Interval assms(5) by (auto split: prod.splits)
next
  case (Nodelay nd i resend nc)
  have "sends ps (snd (ikcp_nodelay k nd i resend nc))"
    by (rule sends_same [OF assms(6)]) (simp_all add: ikcp_nodelay_def Let_def)
  then show ?thesis using Nodelay assms(5) by (auto split: prod.splits)
next
  case (Wndsize sw rw)
  have "sends ps (snd (ikcp_wndsize k sw rw))"
    by (rule sends_same [OF assms(6)]) (simp_all add: ikcp_wndsize_def Let_def)
  then show ?thesis using Wndsize assms(5) by (auto split: prod.splits)
next
  case (Setoutput cb)
  have "sends ps (set_output k cb)" by (rule sends_same [OF assms(6)]) (simp_all add: set_output_def)
  then show ?thesis using Setoutput assms(5) by auto
qed (use assms(4) in simp)

section \<open>The invariant\<close>

lemma flush_conv:
  assumes "kcp_wf k" and "output_cb k" and "ikcp_flush k = Inr (sent, k')"
  shows "conv k' = conv k"
  using assms
proof (cases rule: flush_cases)
  case (flushed segs x st)
  then show ?thesis
    by (simp add: ssthresh_frame charged_def windowed_def admit_def prepared_def probe_timer_frame)
qed simp

lemma update_conv:
  assumes "kcp_wf k" and "output_cb k" and "ikcp_update k now = Inr (sent, k')"
  shows "conv k' = conv k"
  using assms(1,3,2)
proof (cases rule: update_cases)
  case flushed
  have "kcp_wf (ticked k now (next_flush k now))" using assms(1) by (simp add: ticked_wf)
  from flush_conv [OF this _ flushed(1)] assms(2) show ?thesis
    by (simp add: ticked_frame) (simp add: ticked_def)
qed simp

lemma perform_conv:
  assumes "kcp_wf k" and "proper k c" and "perform k c = Inr (r, out, sent, k')"
  shows "conv k' = conv k"
proof (cases c)
  case (Send buf len)
  then show ?thesis
    using assms(1,3) send_grows [of k buf len r k'] by (auto simp: grows_to_def grown_def)
next
  case (Recv buf len)
  then show ?thesis using assms(3) recv_frame(2) [of k buf len] by (auto split: prod.splits)
next
  case (Input dat)
  then show ?thesis using assms(3) input_conv by auto
next
  case (Update now)
  then show ?thesis using assms update_conv by auto
next
  case Flush
  then show ?thesis using assms flush_conv by auto
qed (use assms(3) in \<open>auto simp: ikcp_setmtu_def ikcp_interval_def ikcp_nodelay_def ikcp_wndsize_def
    set_output_def Let_def split: prod.splits if_splits\<close>)

lemma message_frg:
  assumes "list_all2 message_pieces gs ms"
  shows "\<forall>p \<in> set (concat gs). fst p < 256"
  using assms
proof (induction rule: list_all2_induct)
  case (Cons g gs m ms)
  then obtain cs where g: "length cs \<le> 255" "g = map piece (fragments cs)"
    by (auto simp: message_pieces_def)
  have "\<forall>s \<in> set (fragments cs). seg_frg s < 256" using g(1)
  proof (induction cs)
    case (Cons c cs)
    have "unat (of_nat (length cs) :: u32) = length cs"
      using Cons.prems by (intro unat_of_nat32) simp
    then show ?case using Cons by (simp add: data_segment_def word_less_nat_alt)
  qed simp
  then show ?case using Cons.IH g(2) by (auto simp: piece_def)
qed simp

lemma created_fields:
  assumes "created b k"
  shows "snd_nxt k = 0" "snd_queue k = []" "snd_buf k = []" "rcv_nxt k = 0" "rcv_queue k = []" "rcv_buf k = []"
  using assms
  by (auto simp: created_def ikcp_create_def ikcp_malloc_def new_kcpcb_def Let_def split: if_splits)

lemma connected_ok: "connected a b w \<Longrightarrow> link_ok a b w"
  using created_inv [of a "sender w"] created_inv [of b "receiver w"]
    created_fields [of a "sender w"] created_fields [of b "receiver w"]
  by (auto simp: connected_def link_ok_def sends_def receives_def intro!: exI [of _ "[]"])

text \<open>The numbers of the stream are used once as long as it has fewer than \<open>2^32\<close> fragments.\<close>

definition link_inv :: "int \<Rightarrow> int \<Rightarrow> link \<Rightarrow> bool" where
  "link_inv a b w \<longleftrightarrow> (length (pieces w) < 2 ^ 32 \<longrightarrow> link_ok a b w)"

lemma pieces_grow: "link_step w e w' \<Longrightarrow> length (pieces w) \<le> length (pieces w')"
  by (induction rule: link_step.induct) auto

lemma link_okE:
  assumes "link_ok a b w"
  obtains gs where "kcp_inv a (sender w)" and "kcp_inv b (receiver w)"
    and "conv (sender w) = conv (receiver w)" and "sends (pieces w) (sender w)"
    and "\<forall>d \<in> forward w. honest_datagram (conv (sender w)) (pieces w) d"
    and "pieces w = concat gs" and "list_all2 message_pieces gs (posted w)"
    and "length (delivered w) \<le> length gs"
    and "delivered w = take (length (delivered w)) (posted w)"
    and "receives (pieces w) (concat (take (length (delivered w)) gs)) (receiver w)"
  using assms unfolding link_ok_def by blast

lemma ok_post:
  assumes "link_ok a b w" and "length m < 2 ^ 31" and "plentiful (mem (sender w))"
    and "ikcp_send (sender w) (Some m) (int (length m)) = Inr (r, k)"
  shows "link_ok a b (w\<lparr>sender := k,
       pieces := pieces w @ map piece (drop (length (snd_queue (sender w))) (snd_queue k)),
       posted := (if r = 0 then posted w @ [m] else posted w)\<rparr>)"
  using assms(1)
proof (cases rule: link_okE)
  case (1 gs)
  have inv: "kcp_inv a k" using 1(1) assms(4) by (rule send_inv)
  have "kcp_wf (sender w)" using 1(1) by (simp add: kcp_inv_def)
  from post_result [OF this assms(3,2,4)] show ?thesis
  proof (elim disjE conjE exE)
    fix cs assume r: "r = 0" and cs: "cs \<noteq> []" "length cs \<le> 255" "concat cs = m"
      and k: "k = enqueue (fragments cs) (sender w)"
    have d: "drop (length (snd_queue (sender w))) (snd_queue k) = fragments cs"
      by (simp add: k enqueue_def)
    have c: "conv k = conv (sender w)" by (simp add: k enqueue_def)
    have len: "length gs = length (posted w)" using 1(7) by (rule list_all2_lengthD)
    have "message_pieces (map piece (fragments cs)) m"
      using cs assms(2) by (auto simp: message_pieces_def)
    then have "list_all2 message_pieces (gs @ [map piece (fragments cs)]) (posted w @ [m])"
      using 1(7) by (simp add: list_all2_appendI)
    moreover have "delivered w = take (length (delivered w)) (posted w @ [m])"
      using 1(8,9) len by simp
    moreover have "sends (pieces w @ map piece (fragments cs)) k" unfolding k using 1(4) by (rule sends_post)
    ultimately show ?thesis
      using 1 inv r unfolding link_ok_def d
      by (auto simp: c honest_datagram_append receives_append
          intro!: exI [of _ "gs @ [map piece (fragments cs)]"])
  next
    assume r: "r \<noteq> 0" "k = sender w"
    then have "w\<lparr>sender := k,
       pieces := pieces w @ map piece (drop (length (snd_queue (sender w))) (snd_queue k)),
       posted := (if r = 0 then posted w @ [m] else posted w)\<rparr> = w" by (cases w) simp
    then show ?thesis using assms(1) by simp
  qed
qed

lemma ok_sender_call:
  assumes "link_ok a b w" and "\<not> is_send c" and "proper (sender w) c"
    and "perform (sender w) c = Inr (r, out, sent, k)"
  shows "link_ok a b (w\<lparr>sender := k, forward := forward w \<union> set sent\<rparr>)"
  using assms(1)
proof (cases rule: link_okE)
  case (1 gs)
  have wf: "kcp_wf (sender w)" "wf_wire (sender w)" using 1(1) by (simp_all add: kcp_inv_def)
  have "\<forall>p \<in> set (pieces w). fst p < 256" using message_frg [OF 1(7)] 1(6) by simp
  from perform_sends [OF wf assms(3,2,4) 1(4) this] have
    "sends (pieces w) k" "\<forall>d \<in> set sent. honest_datagram (conv (sender w)) (pieces w) d" by auto
  moreover have "kcp_inv a k" using perform_inv [OF 1(1) assms(3,4)] .
  moreover have "conv k = conv (sender w)" using perform_conv [OF wf(1) assms(3,4)] .
  ultimately show ?thesis using 1 unfolding link_ok_def by auto
qed

lemma ok_receiver:
  assumes "link_ok a b w" and "kcp_inv b k" and "conv k = conv (receiver w)"
    and "\<And>ps got. receives ps got (receiver w) \<Longrightarrow> length ps < 2 ^ 32 \<Longrightarrow>
      (\<forall>d \<in> forward w. honest_datagram (conv (receiver w)) ps d) \<Longrightarrow> receives ps got k"
    and "length (pieces w) < 2 ^ 32"
  shows "link_ok a b (w\<lparr>receiver := k\<rparr>)"
  using assms(1)
proof (cases rule: link_okE)
  case (1 gs)
  then have "receives (pieces w) (concat (take (length (delivered w)) gs)) k"
    using assms(5) by (intro assms(4)) simp_all
  then show ?thesis using 1 assms(2,3) unfolding link_ok_def by auto
qed

lemma ok_collect:
  assumes "link_ok a b w" and "0 \<le> len" and "ikcp_recv (receiver w) True len = (r, out, k)"
    and "length (pieces w) < 2 ^ 32"
  shows "link_ok a b (w\<lparr>receiver := k,
       delivered := (if 0 \<le> r then delivered w @ [out] else delivered w)\<rparr>)"
  using assms(1)
proof (cases rule: link_okE)
  case (1 gs)
  show ?thesis
  proof (cases "0 \<le> r")
    case True
    have wf: "kcp_wf (receiver w)" using 1(2) by (simp add: kcp_inv_def)
    let ?j = "length (delivered w)"
    have c: "?j < length gs" "out = posted w ! ?j" "receives (pieces w) (concat (take (Suc ?j) gs)) k"
      using receives_collect [OF wf 1(10) assms(4) 1(6,7,8) assms(2,3) True] by auto
    have lt: "?j < length (posted w)" using c(1) list_all2_lengthD [OF 1(7)] by simp
    then have m: "min (length (posted w)) (Suc ?j) = Suc ?j" by simp
    from lt have d: "delivered w @ [out] = take (Suc ?j) (posted w)"
      using 1(9) c(2) by (simp add: take_Suc_conv_app_nth)
    have "kcp_inv b k" "conv k = conv (receiver w)"
      using recv_inv [OF 1(2), of True len] recv_frame(2) [of "receiver w" True len] assms(3) by simp_all
    then show ?thesis
      using 1 c True d unfolding link_ok_def by (auto simp: m intro!: exI [of _ gs])
  next
    case False
    then have "k = receiver w" using refused_collect [OF assms(3)] by simp
    then have "w\<lparr>receiver := k, delivered := (if 0 \<le> r then delivered w @ [out] else delivered w)\<rparr> = w"
      using False by (cases w) simp
    then show ?thesis using assms(1) by simp
  qed
qed

lemma link_ok_step:
  assumes "link_step w e w'" and "link_ok a b w" and "length (pieces w) < 2 ^ 32"
  shows "link_ok a b w'"
  using assms
proof (induction rule: link_step.induct)
  case (post m w r k)
  then show ?case by (intro ok_post)
next
  case (sender_call c w r out sent k)
  then show ?case by (intro ok_sender_call)
next
  case (arrive d w r k)
  have inv: "kcp_inv b (receiver w)" using arrive.prems(1) by (simp add: link_ok_def)
  then have wf: "kcp_wf (receiver w)" by (simp add: kcp_inv_def)
  have k: "kcp_inv b k" "conv k = conv (receiver w)"
    using input_inv [OF inv arrive.hyps(2)] input_conv [OF arrive.hyps(2)] .
  have "receives ps got k" if "receives ps got (receiver w)" "length ps < 2 ^ 32"
    "\<forall>d \<in> forward w. honest_datagram (conv (receiver w)) ps d" for ps got
    using that arrive.hyps(1) by (intro receives_input [OF arrive.hyps(2) _ wf]) simp_all
  then show ?case using arrive.prems by (intro ok_receiver [OF _ k])
next
  case (collect len w r out k)
  then show ?case by (intro ok_collect)
next
  case (receiver_call c w r out sent k)
  have inv: "kcp_inv b (receiver w)" using receiver_call.prems(1) by (simp add: link_ok_def)
  then have wf: "kcp_wf (receiver w)" by (simp add: kcp_inv_def)
  note p = receiver_call.hyps(3,4)
  have "receives ps got (receiver w) \<Longrightarrow> receives ps got k" for ps got
    using perform_rcv [OF wf p(1) receiver_call.hyps(1,2) p(2)] by (simp add: same_rcv_receives)
  then have "link_ok a b (w\<lparr>receiver := k\<rparr>)"
    by (intro ok_receiver [OF receiver_call.prems(1) perform_inv [OF inv p] perform_conv [OF wf p] _
          receiver_call.prems(2)])
  moreover have "link_ok a b (w1\<lparr>backward := x\<rparr>) = link_ok a b w1" for w1 x
    by (simp add: link_ok_def)
  ultimately show ?case by simp
qed

interpretation network: step_system "connected a b" link_step "link_inv a b" for a b
proof unfold_locales
  fix w e w'
  show "connected a b w \<Longrightarrow> link_inv a b w" by (simp add: link_inv_def connected_ok)
  show "link_inv a b w \<Longrightarrow> link_step w e w' \<Longrightarrow> link_inv a b w'"
    using link_ok_step [of w e w' a b] pieces_grow [of w e w'] by (simp add: link_inv_def)
qed

section \<open>The promise\<close>

text \<open>
  C1: whatever the network does to the datagrams of the sender (loss, repetition, any delay
  and order), whatever bytes reach the sender, and whatever proper calls both clients make: the
  messages that \<open>ikcp_recv\<close> has returned at the receiver are the first of the messages that
  \<open>ikcp_send\<close> has accepted at the sender, byte for byte, in order, each once.  The bound is the
  one of the sequence numbers.
\<close>

theorem messages_delivered:
  assumes "connected a b w0" and "network.run w0 events w" and "length (pieces w) < 2 ^ 32"
  shows "delivered w = take (length (delivered w)) (posted w)"
  using network.reachable_good [OF assms(1,2)] assms(3)
  by (auto simp: link_inv_def link_ok_def)

end
