(* ===== verification/Keeping.thy ===== *)
theory Keeping
  imports Delivery
begin

text \<open>
  Nothing is lost: when the sender sees only datagrams of the receiver (again in any order, repeated,
  late or not at all), every fragment it has numbered is with the receiver or still in its own
  send buffer.  What the receiver says to the sender, in \<open>una\<close> and in acknowledgements, is vouched
  for by what it has.
\<close>

section \<open>What the receiver has\<close>

text \<open>A number is reached when it is below \<open>rcv_nxt\<close> or in the receive buffer.\<close>

definition reached :: "ikcpcb \<Rightarrow> u32 \<Rightarrow> bool" where
  "reached k sn \<longleftrightarrow> unat sn < unat (rcv_nxt k) \<or> sn \<in> seg_sn ` set (rcv_buf k)"

definition later :: "ikcpcb \<Rightarrow> ikcpcb \<Rightarrow> bool" where
  "later k k' \<longleftrightarrow> unat (rcv_nxt k) \<le> unat (rcv_nxt k') \<and> (\<forall>sn. reached k sn \<longrightarrow> reached k' sn)"

definition acks_reached :: "ikcpcb \<Rightarrow> bool" where
  "acks_reached k \<longleftrightarrow> (\<forall>p \<in> set (pending_acks k). reached k (fst p))"

lemma later_trans [trans]: "later k k1 \<Longrightarrow> later k1 k2 \<Longrightarrow> later k k2"
  by (auto simp: later_def)

lemma same_later: "same_rcv k k' \<Longrightarrow> later k k'"
  by (simp add: same_rcv_def later_def reached_def)

lemma same_reached: "same_rcv k k' \<Longrightarrow> reached k' = reached k"
  by (simp add: same_rcv_def reached_def fun_eq_iff)

lemma acks_later:
  assumes "acks_reached k" and "later k k'" and "set (pending_acks k') \<subseteq> set (pending_acks k)"
  shows "acks_reached k'"
  using assms by (auto simp: acks_reached_def later_def)

lemma receives_nxt:
  assumes "receives ps got k" and "length ps < 2 ^ 32"
  shows "unat (rcv_nxt k) = length got + length (rcv_queue k)" and "unat (rcv_nxt k) \<le> length ps"
proof -
  let ?n = "length got + length (rcv_queue k)"
  have n: "?n \<le> length ps" "rcv_nxt k = of_nat ?n"
    using assms(1) by (simp_all add: receives_def Let_def)
  have "unat (rcv_nxt k) = ?n" unfolding n(2) using n(1) assms(2) by (intro unat_of_nat32) simp
  then show "unat (rcv_nxt k) = ?n" "unat (rcv_nxt k) \<le> length ps" using n(1) by simp_all
qed

lemma run_within:
  "\<forall>s \<in> set ss. genuine ps (seg_sn s) (piece s) \<Longrightarrow> n \<le> length ps \<Longrightarrow> length ps < 2 ^ 32 \<Longrightarrow>
   n + run_length (of_nat n) ss \<le> length ps"
proof (induction ss arbitrary: n)
  case (Cons s ss)
  show ?case
  proof (cases "seg_sn s = of_nat n")
    case True
    then have "n < length ps" using Cons.prems genuine_number [of ps n "piece s"] by auto
    then have "Suc n + run_length (of_nat (Suc n)) ss \<le> length ps"
      using Cons.prems by (intro Cons.IH) auto
    then show ?thesis using True by (simp add: add.commute)
  qed (use Cons.prems(2) in auto)
qed simp

lemma later_moved:
  assumes "n \<le> run_length (rcv_nxt k) (rcv_buf k)"
    and "unat (rcv_nxt k) + run_length (rcv_nxt k) (rcv_buf k) < 2 ^ 32"
  shows "later k (moved n k)"
proof -
  let ?N = "unat (rcv_nxt k)"
  have N: "unat (rcv_nxt (moved n k)) = ?N + n"
    using assms by (simp add: moved_def unat_add32 unat_of_nat32)
  have "reached (moved n k) sn" if sn: "reached k sn" for sn
  proof (cases "sn \<in> seg_sn ` set (rcv_buf k)")
    case True
    then obtain j where j: "j < length (rcv_buf k)" "sn = seg_sn (rcv_buf k ! j)"
      by (auto simp: in_set_conv_nth)
    show ?thesis
    proof (cases "j < n")
      case True
      then have "sn = rcv_nxt k + of_nat j"
        unfolding j(2) using assms(1) by (intro run_length_sn) simp
      then have "unat sn = ?N + j"
        using True assms by (simp add: unat_add32 unat_of_nat32)
      then show ?thesis using True N by (simp add: reached_def)
    next
      case False
      then have "rcv_buf k ! j \<in> set (drop n (rcv_buf k))"
        using j(1) by (auto simp: in_set_conv_nth intro!: exI [of _ "j - n"])
      then show ?thesis using j(2) by (simp add: reached_def moved_def)
    qed
  next
    case False
    then show ?thesis using sn N by (simp add: reached_def)
  qed
  then show ?thesis using N by (simp add: later_def)
qed

lemma later_move:
  assumes "receives ps got k" and "length ps < 2 ^ 32"
    and "rcv_nxt k1 = rcv_nxt k" and "rcv_buf k1 = rcv_buf k"
  shows "later k (move_rcv_buf k1)"
proof -
  let ?n = "length got + length (rcv_queue k)"
  have "\<forall>s \<in> set (rcv_buf k). genuine ps (seg_sn s) (piece s)" "?n \<le> length ps" "rcv_nxt k = of_nat ?n"
    using assms(1) by (simp_all add: receives_def Let_def)
  from run_within [OF this(1,2) assms(2)] this(3)
  have "unat (rcv_nxt k) + run_length (rcv_nxt k) (rcv_buf k) \<le> length ps"
    using receives_nxt(1) [OF assms(1,2)] by simp
  then have "later k1 (moved m k1)" if "m \<le> run_length (rcv_nxt k) (rcv_buf k)" for m
    using that assms(2-4) by (intro later_moved) simp_all
  then have "later k1 (move_rcv_buf k1)" unfolding move_eq_moved using assms(3,4) by simp
  moreover have "later k k1" using assms(3,4) by (simp add: later_def reached_def)
  ultimately show ?thesis using later_trans by blast
qed

lemma insert_segment_sn:
  "seg_sn ` set (insert_segment r s ss) = insert (seg_sn s) (seg_sn ` set ss)"
proof (cases "seg_sn s \<in> seg_sn ` set ss")
  case False
  then have "ahead r t < ahead r s \<or> ahead r s < ahead r t" if "t \<in> set ss" for t
    using that ahead_inj [of r t s] by (metis image_eqI linorder_neqE_nat)
  then have "set ss = {t \<in> set ss. ahead r t < ahead r s} \<union> {t \<in> set ss. ahead r s < ahead r t}" by blast
  then have "seg_sn ` set ss = seg_sn ` ({t \<in> set ss. ahead r t < ahead r s} \<union> {t \<in> set ss. ahead r s < ahead r t})"
    by (rule arg_cong)
  then show ?thesis using False by (simp add: insert_segment_def image_Un)
qed (auto simp: insert_segment_def)

lemma parsed_sn: "seg_sn ` set (rcv_buf (parsed k s)) = insert (seg_sn s) (seg_sn ` set (rcv_buf k))"
  by (auto simp: parsed_def insert_segment_sn)

text \<open>Numbers below \<open>2^31\<close> compare as numbers.\<close>

lemma itimediff_below:
  "unat a < 2147483648 \<Longrightarrow> unat b < 2147483648 \<Longrightarrow> itimediff a b < 0 \<longleftrightarrow> unat a < unat b"
  "unat a < 2147483648 \<Longrightarrow> unat b < 2147483648 \<Longrightarrow> 0 < itimediff a b \<longleftrightarrow> unat b < unat a"
proof -
  assume ab: "unat a < 2147483648" "unat b < 2147483648"
  then show "0 < itimediff a b \<longleftrightarrow> unat b < unat a" using itimediff_offsets [of a 0 b] by simp
  show "itimediff a b < 0 \<longleftrightarrow> unat a < unat b"
  proof (cases "unat b \<le> unat a")
    case True
    then have "unat (a - b) = unat a - unat b" using unat_sub [of b a] by (simp add: word_le_nat_alt)
    then show ?thesis using True ab by (simp add: itimediff_lt0)
  next
    case False
    then have "unat (b - a) = unat b - unat a" "b \<noteq> a"
      using unat_sub [of a b] by (auto simp: word_le_nat_alt)
    then have "unat (a - b) = 4294967296 - (unat b - unat a)" using unat_minus_swap [of a b] by simp
    then show ?thesis using False ab by (simp add: itimediff_lt0)
  qed
qed

lemma genuine_below: "genuine ps sn p \<Longrightarrow> length ps < 2 ^ 31 \<Longrightarrow> unat sn < length ps"
  by (auto simp: genuine_def unat_of_nat32)

lemma ack_push_acks:
  assumes "wf_ack k" and "ikcp_ack_push k sn ts = Inr k'"
  shows "set (pending_acks k') \<subseteq> insert (sn, ts) (set (pending_acks k))"
  using assms(1)
proof (cases rule: ack_push_cases [of k sn ts])
  case (pushed a block m)
  let ?c = "unat (ackcount k)"
  have "pending_acks k' = take (unat (ackcount k + 1)) (a[?c := (sn, ts)])"
    using pushed(1) assms(2) by (auto simp: pending_acks_def acks_set_def)
  moreover have "unat (ackcount k + 1) \<le> Suc ?c"
    using unat_plus_if' [of "ackcount k" 1] by auto
  then have "set (take (unat (ackcount k + 1)) (a[?c := (sn, ts)])) \<subseteq> set (take (Suc ?c) (a[?c := (sn, ts)]))"
    by (rule set_take_subset_set_take)
  moreover have "take (Suc ?c) (a[?c := (sn, ts)]) = pending_acks k @ [(sn, ts)]"
    using pushed(2,5) by (simp add: take_Suc_conv_app_nth)
  ultimately show ?thesis by auto
qed (use assms(2) in simp)

lemma pushed_reached:
  assumes "kcp_wf k" and "receives ps got k" and "length ps < 2 ^ 31"
    and "genuine ps (h_sn h) (ucast (h_frg h), payload)" and "length payload = unat (h_len h)"
    and "input_push k h payload = Inr k'" and "acks_reached k"
  shows "later k k' \<and> acks_reached k' \<and>
    (itimediff (h_sn h) (rcv_nxt k + rcv_wnd k) < 0 \<longrightarrow> reached k' (h_sn h))"
proof -
  have wa: "wf_ack k" using assms(1) by (simp add: kcp_wf_def)
  have acks: "acks_reached k2"
    if "ikcp_ack_push k (h_sn h) (h_ts h) = Inr k1" "pending_acks k2 = pending_acks k1"
      "later k k2" "reached k2 (h_sn h)" for k1 k2
  proof -
    have "\<forall>p \<in> insert (h_sn h, h_ts h) (set (pending_acks k)). reached k2 (fst p)"
      using that(3,4) assms(7) by (simp add: acks_reached_def later_def)
    then show ?thesis using ack_push_acks [OF wa that(1)] that(2) by (auto simp: acks_reached_def)
  qed
  from assms(1,6) show ?thesis
  proof (cases rule: input_push_Inr)
    case beyond
    then show ?thesis using assms(7) by (simp add: later_def)
  next
    case old
    have s: "same_rcv k k'" using ack_push_rcv [OF wa old(1)] .
    have "unat (h_sn h) < 2147483648" "unat (rcv_nxt k) < 2147483648"
      using genuine_below [OF assms(4,3)] receives_nxt(2) [OF assms(2)] assms(3) by simp_all
    then have "reached k (h_sn h)" using old(3) by (simp add: itimediff_below reached_def)
    then have "reached k' (h_sn h)" using same_reached [OF s] by simp
    then show ?thesis using acks [OF old(1) refl] same_later [OF s] by simp
  next
    case (data k1 m)
    let ?seg = "received_segment h payload (fresh_segment (unat (h_len h)))"
    let ?k1 = "k1\<lparr>mem := m\<rparr>"
    have s: "same_rcv k ?k1" using data(4-7) by (simp add: same_rcv_def)
    have r: "receives ps got ?k1" using assms(2) same_rcv_receives [OF s] by simp
    have seg: "piece ?seg = (ucast (h_frg h), payload)" "seg_sn ?seg = h_sn h"
      using assms(5) by (auto simp: piece_def received_segment_def fresh_segment_def word_gt_0)
    have "in_rcv_window ?k1 (h_sn h)" using data(2,4,5) by (simp add: in_rcv_window_def)
    then have k': "k' = move_rcv_buf (parsed ?k1 ?seg)"
      using data(3,8) seg(2) by (simp add: parse_data_eq kcp_wf_def)
    have p: "later ?k1 (parsed ?k1 ?seg)" "reached (parsed ?k1 ?seg) (h_sn h)"
      using parsed_sn [of ?k1 ?seg] seg(2) by (auto simp: later_def reached_def parsed_def)
    have "receives ps got (parsed ?k1 ?seg)" using receives_parsed [OF r] assms(4) seg by simp
    then have "later (parsed ?k1 ?seg) k'" unfolding k' by (rule later_move) (use assms(3) in simp_all)
    then have "later k k'" "reached k' (h_sn h)"
      using later_trans same_later [OF s] p by (blast, simp add: later_def)
    moreover have "pending_acks k' = pending_acks k1"
      unfolding data(8) parse_data_acks by (rule pending_acks_cong) simp_all
    ultimately show ?thesis using acks [OF data(1)] by simp
  qed
qed

lemma quiet_acks: "quiet_rcv k k' \<Longrightarrow> pending_acks k' = pending_acks k"
  by (intro pending_acks_cong) (simp_all add: quiet_rcv_def)

lemma segment_reached:
  assumes "kcp_wf k" and "receives ps got k" and "length ps < 2 ^ 31"
    and "honest (conv k) ps (h, payload)" and "input_segment k h payload = Inr k'" and "acks_reached k"
  shows "later k k' \<and> acks_reached k' \<and>
    (h_cmd h = 81 \<and> itimediff (h_sn h) (rcv_nxt k + rcv_wnd k) < 0 \<longrightarrow> reached k' (h_sn h))"
proof -
  obtain k1 where k1: "kcp_wf k1" "quiet_rcv k k1" "conv k1 = conv k" "rcv_wnd k1 = rcv_wnd k"
    "if h_cmd h = 81 then input_push k1 h payload = Inr k' else quiet_rcv k1 k'"
    using input_segment_split [OF assms(1,5)] by metis
  have s: "same_rcv k k1" using k1(2) by (simp add: quiet_rcv_def)
  have a: "acks_reached k1" using acks_later [OF assms(6) same_later [OF s]] quiet_acks [OF k1(2)] by simp
  have r: "receives ps got k1" using assms(2) same_rcv_receives [OF s] by simp
  show ?thesis
  proof (cases "h_cmd h = 81")
    case True
    then have "genuine ps (h_sn h) (ucast (h_frg h), payload)" "length payload = unat (h_len h)"
      using assms(4) by (simp_all add: honest_def acceptable_def)
    from pushed_reached [OF k1(1) r assms(3) this _ a] True k1(5)
    have "later k1 k' \<and> acks_reached k' \<and>
      (itimediff (h_sn h) (rcv_nxt k1 + rcv_wnd k1) < 0 \<longrightarrow> reached k' (h_sn h))" by simp
    moreover have "rcv_nxt k1 = rcv_nxt k" using s by (simp add: same_rcv_def)
    ultimately show ?thesis using later_trans same_later [OF s] k1(4) by auto
  next
    case False
    then have q: "quiet_rcv k1 k'" using k1(5) by simp
    then have "later k1 k'" by (intro same_later) (simp add: quiet_rcv_def)
    moreover have "acks_reached k'" using acks_later [OF a \<open>later k1 k'\<close>] quiet_acks [OF q] by simp
    ultimately show ?thesis using later_trans same_later [OF s] False by blast
  qed
qed

text \<open>The state of the receiver, with what it owes.\<close>

definition keeps :: "piece list \<Rightarrow> piece list \<Rightarrow> ikcpcb \<Rightarrow> bool" where
  "keeps ps got k \<longleftrightarrow> kcp_wf k \<and> receives ps got k \<and> acks_reached k"

text \<open>A number that a flush has put on the wire and that the window of the receiver takes.\<close>

definition within :: "ikcpcb \<Rightarrow> u32 \<Rightarrow> bool" where
  "within k sn \<longleftrightarrow> itimediff sn (rcv_nxt k + rcv_wnd k) < 0"

lemma feed_keeps:
  assumes "feed segs k = Inr k'" and "\<forall>seg \<in> set segs. honest (conv k) ps seg"
    and "keeps ps got k" and "length ps < 2 ^ 31"
  shows "keeps ps got k' \<and> later k k'"
  using assms(1-3)
proof (induction segs arbitrary: k)
  case Nil
  then show ?case by (simp add: later_def)
next
  case (Cons seg segs)
  obtain h payload where seg: "seg = (h, payload)" by (cases seg)
  then obtain k1 where k1: "input_segment k h payload = Inr k1" "feed segs k1 = Inr k'"
    using Cons.prems(1) by auto
  have h: "honest (conv k) ps (h, payload)" using Cons.prems(2) seg by simp
  have k: "kcp_wf k" "receives ps got k" "acks_reached k" using Cons.prems(3) by (simp_all add: keeps_def)
  have "length payload = unat (h_len h)" using h by (simp add: honest_def acceptable_def)
  with k(1) k1(1) have "kcp_wf k1" by (rule input_segment_wf)
  moreover have "receives ps got k1"
    by (rule receives_feed [of "[(h, payload)]" k k1 ps got]) (use k k1(1) h assms(4) in simp_all)
  moreover have l: "later k k1" "acks_reached k1"
    using segment_reached [OF k(1,2) assms(4) h k1(1) k(3)] by auto
  ultimately have "keeps ps got k1" by (simp add: keeps_def)
  moreover have "conv k1 = conv k" using k1(1) by (rule input_segment_conv)
  ultimately have "keeps ps got k' \<and> later k1 k'" using Cons.IH [OF k1(2)] Cons.prems(2) by simp
  then show ?case using later_trans l(1) by blast
qed

lemma input_keeps_receiver:
  assumes "ikcp_input k (Some d) = Inr (r, k')" and "honest_datagram (conv k) ps d"
    and "keeps ps got k" and "length ps < 2 ^ 31"
  shows "keeps ps got k' \<and> later k k'"
proof -
  obtain segs where d: "d = datagram segs" and h: "\<forall>seg \<in> set segs. honest (conv k) ps seg"
    using assms(2) by (auto simp: honest_datagram_def)
  then have "\<forall>seg \<in> set segs. acceptable (conv k) seg" by (simp add: honest_def)
  from input_feed [OF assms(1) [unfolded d] this] obtain k1 c i
    where f: "feed segs k = Inr k1" and k': "k' = k1\<lparr>cwnd := c, incr := i\<rparr>" .
  have k1: "keeps ps got k1" "later k k1" using feed_keeps [OF f h assms(3,4)] by auto
  have "quiet_rcv k1 k'" by (simp add: k' quiet_defs)
  then have "same_rcv k1 k'" "pending_acks k' = pending_acks k1"
    using quiet_acks by (simp_all add: quiet_rcv_def)
  moreover have "kcp_wf k'" using input_wf [OF assms(1)] assms(3) by (simp add: keeps_def)
  ultimately show ?thesis
    using k1 same_later [of k1 k'] acks_later [of k1 k'] same_rcv_receives [of k1 k'] later_trans
    unfolding keeps_def by auto
qed

text \<open>The other calls of the receiver's client.\<close>

lemma flush_acks_gone:
  assumes "kcp_wf k" and "output_cb k" and "ikcp_flush k = Inr (sent, k')"
  shows "set (pending_acks k') \<subseteq> set (pending_acks k)"
  using assms
proof (cases rule: flush_cases)
  case (flushed segs x st)
  have "ackcount (windowed k) = 0"
    by (simp add: windowed_def admit_def prepared_def probe_timer_def Let_def)
  then have "ackcount k' = 0" unfolding flushed(3) by (simp add: ssthresh_frame charged_def)
  then show ?thesis by (simp add: pending_acks_def split: option.split)
qed simp

lemma recv_acks:
  "acklist (snd (snd (ikcp_recv k buf len))) = acklist k"
  "ackcount (snd (snd (ikcp_recv k buf len))) = ackcount k"
  by (cases rule: recv_cases [of k buf len];
      simp add: recv_done_def recv_taken_def taken_def Let_def move_frame)+

lemma perform_acklist:
  assumes "kcp_wf k" and "\<not> is_input c" and "c \<noteq> Flush" and "\<And>now. c \<noteq> Update now"
    and "perform k c = Inr (r, out, sent, k')"
  shows "acklist k' = acklist k \<and> ackcount k' = ackcount k"
proof (cases c)
  case (Send buf len)
  then show ?thesis
    using assms(1,5) send_grows [of k buf len r k'] by (auto simp: grows_to_def grown_def)
next
  case (Recv buf len)
  then show ?thesis using assms(5) recv_acks [of k buf len] by (auto split: prod.splits)
next
  case (Setmtu m)
  then show ?thesis using assms(5) by (auto simp: ikcp_setmtu_def split: prod.splits if_splits)
qed (use assms(2-5) in \<open>auto simp: ikcp_interval_def ikcp_nodelay_def ikcp_wndsize_def
    set_output_def Let_def\<close>)

lemma perform_acks:
  assumes "kcp_wf k" and "proper k c" and "\<not> is_input c" and "perform k c = Inr (r, out, sent, k')"
  shows "set (pending_acks k') \<subseteq> set (pending_acks k)"
proof (cases "c = Flush \<or> (\<exists>now. c = Update now)")
  case False
  then have "acklist k' = acklist k \<and> ackcount k' = ackcount k"
    using assms by (intro perform_acklist [of k c]) auto
  then show ?thesis using pending_acks_cong [of k' k] by simp
next
  case True
  then consider "c = Flush" | now where "c = Update now" by blast
  then show ?thesis
  proof cases
    case 1
    then show ?thesis using assms(1,2,4) flush_acks_gone by auto
  next
    case 2
    then have u: "ikcp_update k now = Inr (sent, k')" "output_cb k" using assms(2,4) by auto
    from assms(1) u show ?thesis
    proof (cases rule: update_cases)
      case quiet
      then show ?thesis by (simp add: pending_acks_def)
    next
      case flushed
      let ?k = "ticked k now (next_flush k now)"
      have "kcp_wf ?k" "output_cb ?k" using assms(1) u(2) by (simp_all add: ticked_wf ticked_frame)
      moreover have "pending_acks ?k = pending_acks k"
        by (intro pending_acks_cong) (simp_all add: ticked_def)
      ultimately show ?thesis using flush_acks_gone flushed(1) by metis
    qed
  qed
qed

lemma later_recv:
  assumes "receives ps got k" and "length ps < 2 ^ 32"
  shows "later k (snd (snd (ikcp_recv k buf len)))"
proof (cases rule: recv_cases [of k buf len])
  case (accepted out)
  let ?k = "recv_taken (len < 0) k"
  have "rcv_nxt ?k = rcv_nxt k" "rcv_buf ?k = rcv_buf k" by (simp_all add: recv_taken_def taken_def)
  with assms have "later k (move_rcv_buf ?k)" by (rule later_move)
  then show ?thesis using accepted(1)
    by (simp add: recv_done_def Let_def later_def reached_def)
qed (simp add: later_def)

section \<open>What the receiver says\<close>

text \<open>A segment of the receiver claims no more than the receiver has.\<close>

definition vouched :: "ikcpcb \<Rightarrow> header \<times> u8 list \<Rightarrow> bool" where
  "vouched r seg \<longleftrightarrow> unat (h_una (fst seg)) \<le> unat (rcv_nxt r) \<and>
     (h_cmd (fst seg) = 82 \<longrightarrow> reached r (h_sn (fst seg)))"

definition vouched_datagram :: "u32 \<Rightarrow> ikcpcb \<Rightarrow> u8 list \<Rightarrow> bool" where
  "vouched_datagram c r d \<longleftrightarrow>
     (\<exists>segs. d = datagram segs \<and> (\<forall>seg \<in> set segs. acceptable c seg \<and> vouched r seg))"

lemma vouched_later: "vouched r seg \<Longrightarrow> later r r' \<Longrightarrow> vouched r' seg"
  by (auto simp: vouched_def later_def)

lemma vouched_datagram_later: "vouched_datagram c r d \<Longrightarrow> later r r' \<Longrightarrow> vouched_datagram c r' d"
  by (auto simp: vouched_datagram_def intro: vouched_later)

lemma data_plan_push:
  assumes "wf_wire k" and "seg \<in> set (data_plan k)"
  shows "h_cmd (fst seg) = 81"
proof -
  obtain s wnd where s: "seg = stamped k wnd s" "s \<in> set (snd_buf k @ admitted k wnd (window_room k))"
    using assms(2) by (auto simp: data_plan_def Let_def)
  then show ?thesis
    using assms(1) admitted_wire [of s k wnd "window_room k"]
    by (auto simp: stamped_def header_of_def wf_wire_def)
qed

lemma plan_vouched:
  assumes "kcp_wf k" and "wf_wire k" and "acks_reached k"
  shows "\<forall>seg \<in> set (flush_plan k). vouched k seg"
proof -
  have una: "\<forall>seg \<in> set (flush_plan k). h_una (fst seg) = rcv_nxt k"
    by (auto simp: flush_plan_def ack_plan_def probe_plan_def data_plan_def stamped_def header_of_def
        control_segment_def Let_def)
  have "set (flushed_acks k) \<subseteq> set (pending_acks k)"
    unfolding flushed_acks_def by (rule set_take_subset)
  then have acks: "\<forall>seg \<in> set (ack_plan k). reached k (h_sn (fst seg))"
    using assms(3) by (force simp: ack_plan_def header_of_def acks_reached_def)
  have "\<forall>seg \<in> set (data_plan k). h_cmd (fst seg) \<noteq> 82" using data_plan_push [OF assms(2)] by auto
  moreover have "\<forall>seg \<in> set (probe_plan k). h_cmd (fst seg) \<noteq> 82"
    by (auto simp: probe_plan_def header_of_def Let_def)
  ultimately show ?thesis using una acks by (auto simp: vouched_def flush_plan_def)
qed

lemma flush_vouched:
  assumes "kcp_wf k" and "output_cb k" and "ikcp_flush k = Inr (sent, k')" and "wf_wire k"
    and "acks_reached k"
  shows "\<forall>d \<in> set sent. vouched_datagram (conv k) k d"
  using assms(1-3)
proof (cases rule: flush_cases)
  case (flushed segs x st)
  have "\<forall>seg \<in> set g. acceptable (conv k) seg \<and> vouched k seg"
    if "g \<in> set (pack (unat (mtu k)) (flush_plan k))" for g
  proof -
    have "set g \<subseteq> set (flush_plan k)"
      using that concat_pack [of "unat (mtu k)" "flush_plan k"] by (metis UN_upper set_concat)
    then show ?thesis using plan_vouched [OF assms(1,4,5)] plan_acceptable [OF assms(1,4)] by blast
  qed
  then show ?thesis unfolding flushed(2) by (auto simp: vouched_datagram_def)
qed simp

lemma perform_vouched:
  assumes "kcp_wf k" and "wf_wire k" and "proper k c" and "perform k c = Inr (r, out, sent, k')"
    and "acks_reached k"
  shows "\<forall>d \<in> set sent. vouched_datagram (conv k) k d"
proof (cases c)
  case Flush
  then show ?thesis using assms flush_vouched by auto
next
  case (Update now)
  then have u: "ikcp_update k now = Inr (sent, k')" "output_cb k" using assms(3,4) by auto
  from assms(1) u show ?thesis
  proof (cases rule: update_cases)
    case flushed
    let ?k = "ticked k now (next_flush k now)"
    have k: "kcp_wf ?k" "output_cb ?k" "wf_wire ?k" "conv ?k = conv k"
      using assms(1,2) u(2) by (simp_all add: ticked_wf ticked_frame) (simp add: ticked_def)
    have q: "quiet_rcv k ?k" by (simp add: quiet_defs ticked_def)
    then have s: "same_rcv k ?k" by (simp add: quiet_rcv_def)
    have "acks_reached ?k" using acks_later [OF assms(5) same_later [OF s]] quiet_acks [OF q] by simp
    from flush_vouched [OF k(1,2) flushed(1) k(3) this]
    have "\<forall>d \<in> set sent. vouched_datagram (conv k) ?k d" by (simp add: k(4))
    moreover have "later ?k k" using same_later [of ?k k] s by (simp add: same_rcv_def)
    ultimately show ?thesis using vouched_datagram_later by blast
  qed simp
qed (use assms(4) in \<open>auto split: prod.splits dest: bindE_InrE\<close>)

section \<open>What the sender still holds\<close>

definition kept :: "ikcpcb \<Rightarrow> ikcpcb \<Rightarrow> bool" where
  "kept r k \<longleftrightarrow>
     (\<forall>sn. unat sn < unat (snd_nxt k) \<longrightarrow> reached r sn \<or> sn \<in> seg_sn ` set (snd_buf k))"

lemma kept_later: "kept r k \<Longrightarrow> later r r' \<Longrightarrow> kept r' k"
  by (auto simp: kept_def later_def)

lemma kept_content:
  "kept r k \<Longrightarrow> snd_nxt k' = snd_nxt k \<Longrightarrow> map content (snd_buf k') = map content (snd_buf k) \<Longrightarrow> kept r k'"
proof -
  assume a: "kept r k" "snd_nxt k' = snd_nxt k" "map content (snd_buf k') = map content (snd_buf k)"
  have "map seg_sn ss = map (\<lambda>(c, m, n, f, d). n) (map content ss)" for ss
    by (simp add: content_def comp_def)
  then have "map seg_sn (snd_buf k') = map seg_sn (snd_buf k)" using a(3) by metis
  then have "seg_sn ` set (snd_buf k') = seg_sn ` set (snd_buf k)" by (metis list.set_map)
  then show ?thesis using a(1,2) by (simp add: kept_def)
qed

lemma push_snd_buf:
  assumes "kcp_wf k" and "input_push k h payload = Inr k'"
  shows "snd_buf k' = snd_buf k"
proof -
  have wa: "wf_ack k" using assms(1) by (simp add: kcp_wf_def)
  have ack: "snd_buf k1 = snd_buf k" if "ikcp_ack_push k sn ts = Inr k1" for k1 sn ts
    using wa that by (cases rule: ack_push_cases [of k sn ts]; auto simp: acks_set_def)
  from assms show ?thesis
  proof (cases rule: input_push_Inr)
    case old
    then show ?thesis using ack by blast
  next
    case (data k1 m)
    have "wf_rcv (k1\<lparr>mem := m\<rparr>)" using data(3) by (simp add: kcp_wf_def)
    then show ?thesis
      unfolding data(8) using ack [OF data(1)] by (simp add: parse_data_eq move_frame parsed_def)
  qed simp
qed

lemma input_ack_snd_buf:
  "snd_buf (input_ack k h) = snd_buf k \<or> snd_buf (input_ack k h) = fst (ack_scan (h_sn h) (snd_buf k))"
proof -
  let ?k1 = "if itimediff (current k) (h_ts h) \<ge> 0
    then ikcp_update_ack k (itimediff (current k) (h_ts h)) else k"
  have "snd_buf (input_ack k h) = snd_buf (ikcp_parse_ack ?k1 (h_sn h))"
    using shrink_fields [of "ikcp_parse_ack ?k1 (h_sn h)"] by (auto simp: input_ack_def Let_def)
  moreover have "snd_buf ?k1 = snd_buf k" by (simp add: update_ack_frame)
  ultimately show ?thesis using parse_ack_fields [of "h_sn h" ?k1] by fastforce
qed

text \<open>A segment frees what \<open>una\<close> covers and then does what its command says.\<close>

lemma input_segment_parts:
  assumes "kcp_wf k" and "input_segment k h payload = Inr k'"
  obtains k1 where "kcp_wf k1"
    and "snd_buf k1 = dropWhile (\<lambda>s. 0 < itimediff (h_una h) (seg_sn s)) (snd_buf k)"
    and "h_cmd h = 82 \<and> k' = input_ack k1 h \<or>
      h_cmd h = 81 \<and> input_push k1 h payload = Inr k' \<or>
      h_cmd h \<noteq> 82 \<and> h_cmd h \<noteq> 81 \<and> snd_buf k' = snd_buf k1"
proof -
  let ?k0 = "ikcp_parse_una (k\<lparr>rmt_wnd := ucast (h_wnd h)\<rparr>) (h_una h)"
  define k1 where "k1 = ikcp_shrink_buf ?k0"
  have "snd_buf ?k0 = dropWhile (\<lambda>s. 0 < itimediff (h_una h) (seg_sn s)) (snd_buf k)"
    by (simp add: parse_una_dropped dropped_def dropWhile_eq_drop)
  moreover have "snd_buf k1 = snd_buf ?k0" unfolding k1_def using shrink_fields [of ?k0] by auto
  moreover have "kcp_wf k1"
    unfolding k1_def using assms(1) by (intro shrink_wf parse_una_kcp_open rmt_wnd_open ucast16_less)
  moreover have "input_segment k h payload =
    (if ucast (h_cmd h) = IKCP_CMD_ACK then Inr (input_ack k1 h)
     else if ucast (h_cmd h) = IKCP_CMD_PUSH then input_push k1 h payload
     else if ucast (h_cmd h) = IKCP_CMD_WASK then Inr (k1\<lparr>probe := probe k1 OR IKCP_ASK_TELL\<rparr>)
     else Inr k1)"
    by (simp add: input_segment_def k1_def Let_def)
  then have "h_cmd h = 82 \<and> k' = input_ack k1 h \<or>
      h_cmd h = 81 \<and> input_push k1 h payload = Inr k' \<or>
      h_cmd h \<noteq> 82 \<and> h_cmd h \<noteq> 81 \<and> snd_buf k' = snd_buf k1"
    using assms(2) by (fastforce simp: ucast_cmd split: if_splits)
  ultimately show ?thesis by (intro that [of k1]) simp_all
qed

lemma segment_holds:
  assumes "kcp_wf k" and "input_segment k h payload = Inr k'" and "sn \<in> seg_sn ` set (snd_buf k)"
  shows "sn \<in> seg_sn ` set (snd_buf k') \<or> 0 < itimediff (h_una h) sn \<or> h_cmd h = 82 \<and> sn = h_sn h"
  using assms(1,2)
proof (cases rule: input_segment_parts)
  case (1 k1)
  have "set xs \<subseteq> set (dropWhile P xs) \<union> {x. P x}" for P and xs :: "ikcpseg list"
    by (induction xs) auto
  then have held: "sn \<in> seg_sn ` set (snd_buf k1) \<or> 0 < itimediff (h_una h) sn"
    using assms(3) 1(2) by fastforce
  from 1(3) show ?thesis
  proof (elim disjE conjE)
    assume ack: "h_cmd h = 82" "k' = input_ack k1 h"
    have "sn \<in> seg_sn ` set (fst (ack_scan (h_sn h) ss)) \<or> sn = h_sn h" if "sn \<in> seg_sn ` set ss" for ss
      using that by (induction ss) (auto split: prod.splits)
    then show ?thesis using held ack input_ack_snd_buf [of k1 h] by metis
  next
    assume push: "input_push k1 h payload = Inr k'"
    then show ?thesis using held push_snd_buf [OF 1(1) push] by metis
  next
    assume "snd_buf k' = snd_buf k1"
    then show ?thesis using held by metis
  qed
qed

lemma kept_feed:
  assumes "feed segs k = Inr k'" and "kcp_wf k" and "\<forall>seg \<in> set segs. acceptable c seg \<and> vouched r seg"
    and "kept r k" and "unat (snd_nxt k) < 2 ^ 31" and "unat (rcv_nxt r) < 2 ^ 31"
  shows "kept r k'"
  using assms(1-5)
proof (induction segs arbitrary: k)
  case (Cons seg segs)
  obtain h payload where seg: "seg = (h, payload)" by (cases seg)
  then obtain k1 where k1: "input_segment k h payload = Inr k1" "feed segs k1 = Inr k'"
    using Cons.prems(1) by auto
  have h: "length payload = unat (h_len h)" "unat (h_una h) \<le> unat (rcv_nxt r)"
    "h_cmd h = 82 \<Longrightarrow> reached r (h_sn h)"
    using Cons.prems(3) seg by (auto simp: acceptable_def vouched_def)
  have wf1: "kcp_wf k1" using Cons.prems(2) k1(1) h(1) by (rule input_segment_wf)
  have nxt: "snd_nxt k1 = snd_nxt k"
    using input_segment_advances [OF Cons.prems(2) k1(1)] by (simp add: advances_def)
  have "reached r sn \<or> sn \<in> seg_sn ` set (snd_buf k1)" if sn: "unat sn < unat (snd_nxt k)" for sn
  proof (cases "reached r sn")
    case False
    then have "sn \<in> seg_sn ` set (snd_buf k)" using Cons.prems(4) sn unfolding kept_def by blast
    moreover have "\<not> 0 < itimediff (h_una h) sn"
    proof
      assume "0 < itimediff (h_una h) sn"
      then have "unat sn < unat (h_una h)"
        using itimediff_below(2) [of "h_una h" sn] h(2) assms(6) sn Cons.prems(5) by simp
      then show False using False h(2) by (simp add: reached_def)
    qed
    ultimately show ?thesis using segment_holds [OF Cons.prems(2) k1(1), of sn] h(3) False by metis
  qed simp
  then have "kept r k1" by (simp add: kept_def nxt)
  then show ?case using Cons.IH [OF k1(2) wf1] Cons.prems(3,5) nxt by simp
qed simp

lemma kept_input:
  assumes "ikcp_input k (Some d) = Inr (x, k')" and "kcp_wf k" and "vouched_datagram (conv k) r d"
    and "kept r k" and "unat (snd_nxt k) < 2 ^ 31" and "unat (rcv_nxt r) < 2 ^ 31"
  shows "kept r k'"
proof -
  obtain segs where d: "d = datagram segs"
    and h: "\<forall>seg \<in> set segs. acceptable (conv k) seg \<and> vouched r seg"
    using assms(3) by (auto simp: vouched_datagram_def)
  then have "\<forall>seg \<in> set segs. acceptable (conv k) seg" by simp
  from input_feed [OF assms(1) [unfolded d] this] obtain k1 c i
    where k1: "feed segs k = Inr k1" "k' = k1\<lparr>cwnd := c, incr := i\<rparr>" .
  from kept_feed [OF k1(1) assms(2) h assms(4-6)] show ?thesis by (simp add: k1(2) kept_def)
qed

text \<open>A flush numbers segments and puts them in the send buffer.\<close>

lemma kept_flush:
  assumes "kcp_wf k" and "output_cb k" and "ikcp_flush k = Inr (sent, k')" and "kept r k"
    and "unat (snd_nxt k) + length (snd_queue k) < 2 ^ 31"
  shows "kept r k'"
proof (cases "updated k = 0")
  case True
  then show ?thesis using assms(3,4) by (simp add: ikcp_flush_def)
next
  case False
  note w = flush_window [OF assms(1) False assms(3,2)]
  let ?n = "unat (snd_nxt k)"
  have c: "map content (snd_buf k') = map content (snd_buf k) @
    map (\<lambda>i. (conv k, IKCP_CMD_PUSH, snd_nxt k + of_nat i, seg_frg (snd_queue k ! i), seg_data (snd_queue k ! i)))
      [0..<window_room k]" using w by blast
  have sn: "map seg_sn ss = map (\<lambda>(c, m, n, f, d). n) (map content ss)" for ss
    by (simp add: content_def comp_def)
  have "map seg_sn (snd_buf k') = map seg_sn (snd_buf k) @ map (\<lambda>i. snd_nxt k + of_nat i) [0..<window_room k]"
    unfolding sn c by (simp add: comp_def)
  then have "set (map seg_sn (snd_buf k')) =
      set (map seg_sn (snd_buf k)) \<union> set (map (\<lambda>i. snd_nxt k + of_nat i) [0..<window_room k])"
    by (metis set_append)
  then have buf: "seg_sn ` set (snd_buf k') =
      seg_sn ` set (snd_buf k) \<union> (\<lambda>i. snd_nxt k + of_nat i) ` {0..<window_room k}" by simp
  have room: "?n + window_room k < 2 ^ 32" using window_room_le [of k] assms(5) by simp
  then have nxt: "unat (snd_nxt k') = ?n + window_room k"
    using w by (simp add: unat_add32 unat_of_nat32)
  have "reached r sn \<or> sn \<in> seg_sn ` set (snd_buf k')" if s: "unat sn < unat (snd_nxt k')" for sn
  proof (cases "unat sn < ?n")
    case True
    then show ?thesis using assms(4) by (auto simp: kept_def buf)
  next
    case False
    then have "sn = snd_nxt k + of_nat (unat sn - ?n)" by (simp add: of_nat_diff)
    moreover have "unat sn - ?n < window_room k" using False s nxt by simp
    ultimately show ?thesis using buf by auto
  qed
  then show ?thesis by (simp add: kept_def)
qed

lemma kept_same: "kept r k \<Longrightarrow> snd_nxt k' = snd_nxt k \<Longrightarrow> snd_buf k' = snd_buf k \<Longrightarrow> kept r k'"
  by (simp add: kept_def)

lemma kept_perform:
  assumes "kcp_wf k" and "proper k c" and "\<not> is_send c" and "\<not> is_input c"
    and "perform k c = Inr (x, out, sent, k')" and "kept r k"
    and "unat (snd_nxt k) + length (snd_queue k) < 2 ^ 31"
  shows "kept r k'"
proof (cases c)
  case (Recv buf len)
  then have "k' = snd (snd (ikcp_recv k buf len))" using assms(5) by (auto split: prod.splits)
  then show ?thesis using assms(6) recv_frame(1) recv_sender_frame(1) kept_same by metis
next
  case (Update now)
  then have u: "ikcp_update k now = Inr (sent, k')" "output_cb k" using assms(2,5) by auto
  from assms(1) u show ?thesis
  proof (cases rule: update_cases)
    case quiet
    then show ?thesis using assms(6) kept_same [of r k k'] by simp
  next
    case flushed
    let ?k = "ticked k now (next_flush k now)"
    have k: "snd_nxt ?k = snd_nxt k" "snd_buf ?k = snd_buf k" "snd_queue ?k = snd_queue k"
      by (simp_all add: ticked_def)
    have "kept r ?k" using assms(6) k kept_same by metis
    then show ?thesis
      using assms(1,7) u(2) k by (intro kept_flush [OF _ _ flushed(1)]) (simp_all add: ticked_wf ticked_frame)
  qed
next
  case Flush
  then show ?thesis using assms kept_flush by auto
next
  case (Setmtu m)
  then have "snd_nxt k' = snd_nxt k \<and> snd_buf k' = snd_buf k"
    using assms(5) by (auto simp: ikcp_setmtu_def split: prod.splits if_splits)
  then show ?thesis using assms(6) kept_same by metis
next
  case (Interval i)
  then show ?thesis using assms(5,6) by (auto simp: ikcp_interval_def kept_def)
next
  case (Nodelay nd i resend nc)
  then have "snd_nxt k' = snd_nxt k \<and> snd_buf k' = snd_buf k"
    using assms(5) by (auto simp: ikcp_nodelay_def Let_def)
  then show ?thesis using assms(6) kept_same by metis
next
  case (Wndsize sw rw)
  then have "snd_nxt k' = snd_nxt k \<and> snd_buf k' = snd_buf k"
    using assms(5) by (auto simp: ikcp_wndsize_def Let_def)
  then show ?thesis using assms(6) kept_same by metis
next
  case (Setoutput cb)
  then show ?thesis using assms(5,6) by (auto simp: set_output_def kept_def)
qed (use assms(3,4) in simp_all)

section \<open>The closed system\<close>

text \<open>The sender is given datagrams of the receiver only.\<close>

definition faithful :: "link \<Rightarrow> event \<Rightarrow> bool" where
  "faithful w e \<longleftrightarrow> (\<forall>dat. e = Sender_call (Input dat) \<longrightarrow> (\<exists>d \<in> backward w. dat = Some d))"

definition closed_step :: "link \<Rightarrow> event \<Rightarrow> link \<Rightarrow> bool" where
  "closed_step w e w' \<longleftrightarrow> link_step w e w' \<and> faithful w e"

definition keeping :: "int \<Rightarrow> int \<Rightarrow> link \<Rightarrow> bool" where
  "keeping a b w \<longleftrightarrow> link_ok a b w \<and> acks_reached (receiver w) \<and>
     (\<forall>d \<in> backward w. vouched_datagram (conv (sender w)) (receiver w) d) \<and>
     kept (receiver w) (sender w)"

lemma sends_room:
  assumes "sends ps k" and "length ps < 2 ^ 31"
  shows "unat (snd_nxt k) + length (snd_queue k) = length ps"
proof -
  obtain n where n: "n \<le> length ps" "snd_nxt k = of_nat n" "map piece (snd_queue k) = drop n ps"
    using assms(1) by (auto simp: sends_def)
  have "unat (snd_nxt k) = n" unfolding n(2) using n(1) assms(2) by (intro unat_of_nat32) simp
  moreover have "length (snd_queue k) = length ps - n" using n(3) by (metis length_drop length_map)
  ultimately show ?thesis using n(1) by simp
qed

lemma keeping_ends:
  assumes "keeping a b w" and "length (pieces w) < 2 ^ 31"
  obtains got where "kcp_inv a (sender w)" and "kcp_inv b (receiver w)" and "kcp_wf (sender w)"
    and "conv (receiver w) = conv (sender w)"
    and "\<forall>d \<in> forward w. honest_datagram (conv (sender w)) (pieces w) d"
    and "keeps (pieces w) got (receiver w)" and "sends (pieces w) (sender w)"
    and "unat (snd_nxt (sender w)) + length (snd_queue (sender w)) < 2 ^ 31"
    and "unat (rcv_nxt (receiver w)) < 2 ^ 31"
proof -
  have "link_ok a b w" using assms(1) by (simp add: keeping_def)
  then show ?thesis
  proof (cases rule: link_okE)
    case (1 gs)
    let ?got = "concat (take (length (delivered w)) gs)"
    have "keeps (pieces w) ?got (receiver w)"
      using 1(2,10) assms(1) by (simp add: keeps_def keeping_def kcp_inv_def)
    moreover have "unat (rcv_nxt (receiver w)) < 2 ^ 31"
      using receives_nxt(2) [OF 1(10)] assms(2) by simp
    ultimately show ?thesis
      using 1(1-5) sends_room [OF 1(4) assms(2)] assms(2) by (intro that) (simp_all add: kcp_inv_def)
  qed
qed

lemma created_acks: "created b k \<Longrightarrow> pending_acks k = []"
  by (auto simp: created_def ikcp_create_def ikcp_malloc_def new_kcpcb_def pending_acks_def Let_def
      split: if_splits)

lemma connected_keeping: "connected a b w \<Longrightarrow> keeping a b w"
proof -
  assume c: "connected a b w"
  then have r: "created b (receiver w)" and s: "created a (sender w)" and "backward w = {}"
    by (simp_all add: connected_def)
  moreover have "pending_acks (receiver w) = []"
    using r by (rule created_acks)
  moreover have "kept (receiver w) (sender w)" using created_fields(1) [OF s] by (simp add: kept_def)
  ultimately show ?thesis
    using connected_ok [OF c] by (simp add: keeping_def acks_reached_def)
qed

text \<open>A step after which the receiver has what it had, and more.\<close>

lemma keeping_receiver:
  assumes "keeping a b w" and "link_ok a b w'" and "later (receiver w) (receiver w')"
    and "acks_reached (receiver w')" and "sender w' = sender w"
    and "\<forall>d \<in> backward w' - backward w. vouched_datagram (conv (sender w)) (receiver w) d"
  shows "keeping a b w'"
proof -
  have "\<forall>d \<in> backward w'. vouched_datagram (conv (sender w)) (receiver w) d"
    using assms(1,6) by (auto simp: keeping_def)
  then have "\<forall>d \<in> backward w'. vouched_datagram (conv (sender w)) (receiver w') d"
    using vouched_datagram_later assms(3) by blast
  moreover have "kept (receiver w') (sender w)"
    using assms(1) kept_later [OF _ assms(3)] by (simp add: keeping_def)
  ultimately show ?thesis using assms(2,4,5) by (simp add: keeping_def)
qed

lemma keeping_step:
  assumes "closed_step w e w'" and "keeping a b w" and "length (pieces w) < 2 ^ 31"
  shows "keeping a b w'"
proof -
  have link: "link_step w e w'" and true: "faithful w e" using assms(1) by (simp_all add: closed_step_def)
  have ok: "link_ok a b w'"
    using link_ok_step [OF link] assms(2,3) by (simp add: keeping_def)
  obtain got where s: "kcp_wf (sender w)"
      "unat (snd_nxt (sender w)) + length (snd_queue (sender w)) < 2 ^ 31"
    and c: "conv (receiver w) = conv (sender w)" and inv: "kcp_inv b (receiver w)"
    and f: "\<forall>d \<in> forward w. honest_datagram (conv (sender w)) (pieces w) d"
    and r: "keeps (pieces w) got (receiver w)" "unat (rcv_nxt (receiver w)) < 2 ^ 31"
    using keeping_ends [OF assms(2,3)] by metis
  have rwf: "kcp_wf (receiver w)" "wf_wire (receiver w)" "acks_reached (receiver w)"
    "receives (pieces w) got (receiver w)"
    using r(1) inv by (simp_all add: keeps_def kcp_inv_def)
  have kept: "kept (receiver w) (sender w)" using assms(2) by (simp add: keeping_def)
  show ?thesis using link true assms(2) ok
  proof (cases rule: link_step.cases)
    case (post m r k)
    have "kept (receiver w) k" using post_result [OF s(1) post(4,3,5)] kept
      by (elim disjE) (auto simp: enqueue_def kept_def)
    moreover have "conv k = conv (sender w)" using post_result [OF s(1) post(4,3,5)]
      by (elim disjE) (auto simp: enqueue_def)
    ultimately show ?thesis using assms(2) ok post by (simp add: keeping_def)
  next
    case (sender_call c r out sent k)
    have conv: "conv k = conv (sender w)" using perform_conv [OF s(1) sender_call(4,5)] .
    have "kept (receiver w) k"
    proof (cases "is_input c")
      case True
      then obtain dat where c: "c = Input dat" by (cases c) auto
      then obtain d where d: "dat = Some d" "d \<in> backward w"
        using true sender_call(1) by (auto simp: faithful_def)
      have i: "ikcp_input (sender w) (Some d) = Inr (r, k)" using sender_call(5) c d(1) by auto
      have "vouched_datagram (conv (sender w)) (receiver w) d" using assms(2) d(2) by (simp add: keeping_def)
      then show ?thesis using s(2) by (intro kept_input [OF i s(1) _ kept _ r(2)]) simp_all
    next
      case False
      then show ?thesis using kept_perform [OF s(1) sender_call(4,3) _ sender_call(5) kept s(2)] by simp
    qed
    then show ?thesis using assms(2) ok sender_call(2) conv by (simp add: keeping_def)
  next
    case (arrive d r k)
    have "keeps (pieces w) got k \<and> later (receiver w) k"
      using f c arrive(3) r(1) assms(3) by (intro input_keeps_receiver [OF arrive(4)]) simp_all
    then show ?thesis
      using arrive(2) by (intro keeping_receiver [OF assms(2) ok]) (simp_all add: keeps_def)
  next
    case (collect len r out k)
    have k: "k = snd (snd (ikcp_recv (receiver w) True len))" using collect(4) by simp
    have l: "later (receiver w) k" unfolding k using later_recv [OF rwf(4)] assms(3) by simp
    have "pending_acks k = pending_acks (receiver w)"
      unfolding k by (intro pending_acks_cong recv_acks)
    then have "acks_reached k" using acks_later [OF rwf(3) l] by simp
    then show ?thesis using collect(2) l by (intro keeping_receiver [OF assms(2) ok]) simp_all
  next
    case (receiver_call c r out sent k)
    note p = receiver_call(5,6)
    have l: "later (receiver w) k"
      using perform_rcv [OF rwf(1) p(1) receiver_call(3,4) p(2)] by (rule same_later)
    have "acks_reached k"
      using acks_later [OF rwf(3) l] perform_acks [OF rwf(1) p(1) receiver_call(4) p(2)] by simp
    moreover have "\<forall>d \<in> set sent. vouched_datagram (conv (sender w)) (receiver w) d"
      using perform_vouched [OF rwf(1,2) p rwf(3)] c by simp
    moreover have "receiver w' = k" "sender w' = sender w" "backward w' = backward w \<union> set sent"
      using receiver_call(2) by simp_all
    ultimately show ?thesis using l
      by (intro keeping_receiver [OF assms(2) ok]) auto
  qed
qed

definition closed_inv :: "int \<Rightarrow> int \<Rightarrow> link \<Rightarrow> bool" where
  "closed_inv a b w \<longleftrightarrow> (length (pieces w) < 2 ^ 31 \<longrightarrow> keeping a b w)"

interpretation closed: step_system "connected a b" closed_step "closed_inv a b" for a b
proof unfold_locales
  fix w e w'
  show "connected a b w \<Longrightarrow> closed_inv a b w" by (simp add: closed_inv_def connected_keeping)
  show "closed_inv a b w \<Longrightarrow> closed_step w e w' \<Longrightarrow> closed_inv a b w'"
    using keeping_step [of w e w' a b] pieces_grow [of w e w']
    by (auto simp: closed_inv_def closed_step_def)
qed

section \<open>Nothing is lost\<close>

lemma fragment_kept:
  assumes "keeping a b w" and "length (pieces w) < 2 ^ 31" and "i < length (pieces w)"
  shows "(unat (snd_nxt (sender w)) \<le> i \<and>
      piece (snd_queue (sender w) ! (i - unat (snd_nxt (sender w)))) = pieces w ! i) \<or>
    (\<exists>s \<in> set (snd_buf (sender w)) \<union> set (rcv_buf (receiver w)).
      seg_sn s = of_nat i \<and> piece s = pieces w ! i) \<or>
    i < unat (rcv_nxt (receiver w))"
proof -
  obtain got where g: "sends (pieces w) (sender w)" "keeps (pieces w) got (receiver w)"
    using keeping_ends [OF assms(1,2)] by metis
  have sn: "unat (of_nat i :: u32) = i" using assms(2,3) by (simp add: unat_of_nat32)
  have genuine: "piece s = pieces w ! i" if "genuine (pieces w) (of_nat i) (piece s)" for s
    using genuine_number [OF that] assms(2,3) by simp
  show ?thesis
  proof (cases "i < unat (snd_nxt (sender w))")
    case True
    then have "reached (receiver w) (of_nat i) \<or> of_nat i \<in> seg_sn ` set (snd_buf (sender w))"
      using assms(1) sn by (auto simp: keeping_def kept_def)
    moreover have "\<forall>s \<in> set (snd_buf (sender w)) \<union> set (rcv_buf (receiver w)).
        genuine (pieces w) (seg_sn s) (piece s)"
      using g by (auto simp: sends_def keeps_def receives_def)
    ultimately show ?thesis using genuine sn by (fastforce simp: reached_def)
  next
    case False
    obtain n where n: "n \<le> length (pieces w)" "snd_nxt (sender w) = of_nat n"
      "map piece (snd_queue (sender w)) = drop n (pieces w)" using g(1) by (auto simp: sends_def)
    have "unat (snd_nxt (sender w)) = n" unfolding n(2) using n(1) assms(2) by (intro unat_of_nat32) simp
    moreover have "length (snd_queue (sender w)) = length (pieces w) - n"
      using n(3) by (metis length_drop length_map)
    then have "i - n < length (snd_queue (sender w))"
      using assms(3) False calculation by linarith
    then have "piece (snd_queue (sender w) ! (i - n)) = drop n (pieces w) ! (i - n)"
      using n(3) by (metis nth_map)
    ultimately show ?thesis using False n(1) by simp
  qed
qed

text \<open>The counts that \<open>ikcp_waitsnd\<close> adds do not wrap.\<close>

lemma snd_ordered_length: "snd_ordered una ss nxt \<Longrightarrow> length ss \<le> unat (nxt - una)"
proof -
  assume "snd_ordered una ss nxt"
  then have s: "sorted_wrt (<) (offsets una ss @ [unat (nxt - una)])" by (simp add: snd_ordered_def)
  then have "set (offsets una ss) \<subseteq> {..<unat (nxt - una)}" by (auto simp: sorted_wrt_append)
  moreover have "distinct (offsets una ss)" using s by (simp add: strict_sorted_iff sorted_append)
  ultimately have "length (offsets una ss) \<le> card {..<unat (nxt - una)}"
    by (metis card_mono distinct_card finite_lessThan)
  then show ?thesis by (simp add: offsets_def)
qed

lemma waitsnd_counts:
  assumes "wf_snd k" and "length (snd_queue k) < 2 ^ 31"
  shows "ikcp_waitsnd k = 0 \<longleftrightarrow> snd_queue k = [] \<and> snd_buf k = []"
proof -
  let ?n = "length (snd_buf k) + length (snd_queue k)"
  have w: "snd_ordered (snd_una k) (snd_buf k) (snd_nxt k)" "unat (snd_nxt k - snd_una k) < 65536"
    "nsnd_buf k + nsnd_que k = of_nat ?n"
    using assms(1) by (simp_all add: wf_snd_alt)
  have "?n < 4294967296" using snd_ordered_length [OF w(1)] w(2) assms(2) by simp
  then have "unat (of_nat ?n :: u32) = ?n" by (rule unat_of_nat32)
  then have "of_nat ?n = (0 :: u32) \<longleftrightarrow> ?n = 0" by (metis unat_eq_zero)
  then have "ikcp_waitsnd k = 0 \<longleftrightarrow> ?n = 0" by (simp add: ikcp_waitsnd_def w(3) signed_eq_0_iff del: of_nat_add)
  then show ?thesis by auto
qed

text \<open>
  C2: no fragment is lost.  Whatever the network does to the datagrams of both ends, every
  fragment of an accepted message is in the send queue, in the send buffer with its number and
  its bytes, in the receive buffer with its number and its bytes, or was passed on in order (its
  number is below \<open>rcv_nxt\<close>).
\<close>

theorem nothing_lost:
  assumes "connected a b w0" and "closed.run w0 events w" and "length (pieces w) < 2 ^ 31"
    and "i < length (pieces w)"
  shows "(unat (snd_nxt (sender w)) \<le> i \<and>
      piece (snd_queue (sender w) ! (i - unat (snd_nxt (sender w)))) = pieces w ! i) \<or>
    (\<exists>s \<in> set (snd_buf (sender w)) \<union> set (rcv_buf (receiver w)).
      seg_sn s = of_nat i \<and> piece s = pieces w ! i) \<or>
    i < unat (rcv_nxt (receiver w))"
  using closed.reachable_good [OF assms(1,2)] assms(3,4)
  by (intro fragment_kept) (auto simp: closed_inv_def)

text \<open>
  \<open>ikcp_waitsnd\<close> tells the truth: when it is 0, every fragment of every accepted message has
  reached the receiver, in its buffer or passed on in order.
\<close>

lemma waitsnd_zero:
  assumes "connected a b w0" and "closed.run w0 events w" and "length (pieces w) < 2 ^ 31"
    and "ikcp_waitsnd (sender w) = 0" and "i < length (pieces w)"
  shows "i < unat (rcv_nxt (receiver w)) \<or>
    (\<exists>s \<in> set (rcv_buf (receiver w)). seg_sn s = of_nat i \<and> piece s = pieces w ! i)"
proof -
  have k: "keeping a b w" using closed.reachable_good [OF assms(1,2)] assms(3) by (simp add: closed_inv_def)
  then obtain got where g: "kcp_wf (sender w)" "sends (pieces w) (sender w)"
    "unat (snd_nxt (sender w)) + length (snd_queue (sender w)) < 2 ^ 31"
    using keeping_ends [OF k assms(3)] by metis
  then have e: "snd_queue (sender w) = []" "snd_buf (sender w) = []"
    using waitsnd_counts [of "sender w"] assms(4) by (simp_all add: kcp_wf_def)
  then have "unat (snd_nxt (sender w)) = length (pieces w)" using sends_room [OF g(2) assms(3)] by simp
  then show ?thesis using fragment_kept [OF k assms(3,5)] e assms(5) by auto
qed

end
