(* ===== verification/Exchange.thy ===== *)
theory Exchange
  imports Keeping
begin

text \<open>
  Progress: when the network is kind for the time of one round trip, that is when the datagrams of
  one flush of the sender and those of the receiver's next flush all arrive, the segments of that
  flush are with the receiver and gone from the send buffer.
\<close>

section \<open>Handing over datagrams\<close>

fun hand_over :: "u8 list list \<Rightarrow> ikcpcb \<Rightarrow> ikcpcb outcome" where
  "hand_over [] k = Inr k"
| "hand_over (d # ds) k = bindE (ikcp_input k (Some d)) (\<lambda>(r, k). hand_over ds k)"

text \<open>
  The same segment by segment; the last step of each call, the growth of the congestion window,
  writes \<open>cwnd\<close> and \<open>incr\<close> only.
\<close>

inductive absorbs :: "(header \<times> u8 list) list \<Rightarrow> ikcpcb \<Rightarrow> ikcpcb \<Rightarrow> bool" where
  none: "absorbs [] k k"
| segment: "input_segment k h payload = Inr k1 \<Longrightarrow> absorbs segs k1 k' \<Longrightarrow> absorbs ((h, payload) # segs) k k'"
| growth: "absorbs segs (k\<lparr>cwnd := c, incr := i\<rparr>) k' \<Longrightarrow> absorbs segs k k'"

lemma absorbs_feed: "feed segs k = Inr k1 \<Longrightarrow> absorbs segs' (k1\<lparr>cwnd := c, incr := i\<rparr>) k' \<Longrightarrow> absorbs (segs @ segs') k k'"
proof (induction segs arbitrary: k)
  case Nil
  then show ?case by (auto intro: absorbs.growth)
next
  case (Cons seg segs)
  then show ?case by (cases seg) (auto elim!: bindE_InrE intro: absorbs.segment)
qed

lemma hand_over_absorbs:
  assumes "hand_over (map datagram dgs) k = Inr k'" and "\<forall>seg \<in> set (concat dgs). acceptable (conv k) seg"
  shows "absorbs (concat dgs) k k'"
  using assms
proof (induction dgs arbitrary: k)
  case (Cons segs dgs)
  obtain r k1 where k1: "ikcp_input k (Some (datagram segs)) = Inr (r, k1)"
    "hand_over (map datagram dgs) k1 = Inr k'"
    using Cons.prems(1) by (auto elim: bindE_InrE split: prod.splits)
  have "\<forall>seg \<in> set segs. acceptable (conv k) seg" using Cons.prems(2) by simp
  from input_feed [OF k1(1) this] obtain k0 c i
    where f: "feed segs k = Inr k0" and e: "k1 = k0\<lparr>cwnd := c, incr := i\<rparr>" .
  have "absorbs (concat dgs) k1 k'" using Cons.IH [OF k1(2)] Cons.prems(2) input_conv [OF k1(1)] by simp
  then show ?case using absorbs_feed [OF f] e by simp
qed (simp add: absorbs.none)

text \<open>What a receiver has after some datagrams with \<open>n\<close> data segments.\<close>

definition is_push :: "header \<times> u8 list \<Rightarrow> bool" where
  "is_push seg \<longleftrightarrow> h_cmd (fst seg) = 81"

abbreviation pushes :: "(header \<times> u8 list) list \<Rightarrow> nat" where
  "pushes segs \<equiv> length (filter is_push segs)"

definition gains :: "nat \<Rightarrow> ikcpcb \<Rightarrow> ikcpcb \<Rightarrow> bool" where
  "gains n k k' \<longleftrightarrow> later k k' \<and> rcv_wnd k' = rcv_wnd k \<and> untouched k' = untouched k \<and>
     set (pending_acks k) \<subseteq> set (pending_acks k') \<and>
     unat (ackcount k') \<le> unat (ackcount k) + n"

lemma gains_refl: "gains 0 k k"
  by (simp add: gains_def later_def)

lemma gains_trans: "gains m k k1 \<Longrightarrow> gains n k1 k2 \<Longrightarrow> gains (m + n) k k2"
  unfolding gains_def using later_trans by auto

text \<open>A data segment is received: its number is reached, and its acknowledgement is waiting.\<close>

definition received :: "ikcpcb \<Rightarrow> header \<times> u8 list \<Rightarrow> bool" where
  "received k seg \<longleftrightarrow> reached k (h_sn (fst seg)) \<and>
     (h_sn (fst seg), h_ts (fst seg)) \<in> set (pending_acks k)"

lemma gains_mono: "gains m k k' \<Longrightarrow> m \<le> n \<Longrightarrow> gains n k k'"
  by (auto simp: gains_def)

lemma received_gains: "received k seg \<Longrightarrow> gains n k k' \<Longrightarrow> received k' seg"
  by (auto simp: received_def gains_def later_def)

text \<open>A number in the window stays there or below while the receiver advances.\<close>

lemma within_later:
  assumes "within k sn" and "later k k'" and "rcv_wnd k' = rcv_wnd k" and "unat sn < 2 ^ 31"
    and "unat (rcv_nxt k') < 2 ^ 30" and "unat (rcv_wnd k) < 2 ^ 30"
  shows "within k' sn"
proof -
  have n: "unat (rcv_nxt k) \<le> unat (rcv_nxt k')" using assms(2) by (simp add: later_def)
  have "unat (rcv_nxt k + rcv_wnd k) = unat (rcv_nxt k) + unat (rcv_wnd k)"
    "unat (rcv_nxt k' + rcv_wnd k) = unat (rcv_nxt k') + unat (rcv_wnd k)"
    using n assms(5,6) by (simp_all add: unat_add32)
  then show ?thesis using assms(1,3-6) n by (simp add: within_def itimediff_below)
qed

section \<open>The receiver\<close>

lemma ack_push_gains:
  assumes "wf_ack k" and "unat (ackcount k) + 1 < 2 ^ 32" and "ikcp_ack_push k sn ts = Inr k'"
  shows "(sn, ts) \<in> set (pending_acks k')" and "set (pending_acks k) \<subseteq> set (pending_acks k')"
    and "unat (ackcount k') = unat (ackcount k) + 1" and "rcv_wnd k' = rcv_wnd k"
proof -
  show "(sn, ts) \<in> set (pending_acks k')" "set (pending_acks k) \<subseteq> set (pending_acks k')"
    using ack_push_pending [OF assms] by auto
  have "ackcount k' = ackcount k + 1" "rcv_wnd k' = rcv_wnd k"
    using assms(1,3) by (cases rule: ack_push_cases [of k sn ts]; auto simp: acks_set_def)+
  then show "unat (ackcount k') = unat (ackcount k) + 1" "rcv_wnd k' = rcv_wnd k"
    using assms(2) by (simp_all add: unat_add32)
qed

lemma push_gains:
  assumes "kcp_wf k" and "unat (ackcount k) + 1 < 2 ^ 32" and "input_push k h payload = Inr k'"
  shows "set (pending_acks k) \<subseteq> set (pending_acks k') \<and> unat (ackcount k') \<le> unat (ackcount k) + 1 \<and>
    rcv_wnd k' = rcv_wnd k \<and> (within k (h_sn h) \<longrightarrow> (h_sn h, h_ts h) \<in> set (pending_acks k'))"
proof -
  have wa: "wf_ack k" using assms(1) by (simp add: kcp_wf_def)
  note ack = ack_push_gains [OF wa assms(2)]
  from assms(1,3) show ?thesis
  proof (cases rule: input_push_Inr)
    case beyond
    then show ?thesis by (simp add: within_def)
  next
    case old
    then show ?thesis using ack [OF old(1)] by simp
  next
    case (data k1 m)
    have "wf_rcv (k1\<lparr>mem := m\<rparr>)" using data(3) by (simp add: kcp_wf_def)
    then have "ackcount k' = ackcount k1" "rcv_wnd k' = rcv_wnd k1"
      unfolding data(8) by (simp_all add: parse_data_eq move_frame parsed_def)
    moreover have "pending_acks k' = pending_acks k1"
      unfolding data(8) parse_data_acks by (rule pending_acks_cong) simp_all
    ultimately show ?thesis using ack [OF data(1)] by simp
  qed
qed

lemma segment_gains:
  assumes "keeps ps got k" and "length ps < 2 ^ 31" and "honest (conv k) ps seg"
    and "unat (ackcount k) + pushes [seg] < 2 ^ 32" and "input_segment k (fst seg) (snd seg) = Inr k'"
  shows "gains (pushes [seg]) k k' \<and> (h_cmd (fst seg) = 81 \<and> within k (h_sn (fst seg)) \<longrightarrow> received k' seg)"
proof -
  let ?h = "fst seg"
  have k: "kcp_wf k" "receives ps got k" "acks_reached k" using assms(1) by (simp_all add: keeps_def)
  have r: "later k k'" "h_cmd ?h = 81 \<and> within k (h_sn ?h) \<longrightarrow> reached k' (h_sn ?h)"
    using segment_reached [OF k(1,2) assms(2) _ assms(5) k(3)] assms(3) by (auto simp: within_def)
  obtain k1 where k1: "kcp_wf k1" "quiet_rcv k k1" "rcv_wnd k1 = rcv_wnd k"
    "if h_cmd ?h = 81 then input_push k1 ?h (snd seg) = Inr k' else quiet_rcv k1 k'"
    using input_segment_split [OF k(1) assms(5)] by metis
  have q: "pending_acks k1 = pending_acks k" "ackcount k1 = ackcount k" "rcv_nxt k1 = rcv_nxt k"
    using k1(2) quiet_acks [OF k1(2)] by (simp_all add: quiet_defs)
  have u: "untouched k' = untouched k" using input_segment_untouched [OF assms(5)] .
  have w: "rcv_wnd k' = rcv_wnd k"
    using input_segment_advances [OF k(1) assms(5)] by (simp add: advances_def)
  show ?thesis
  proof (cases "h_cmd ?h = 81")
    case True
    then have p: "input_push k1 ?h (snd seg) = Inr k'" using k1(4) by simp
    have "within k1 sn = within k sn" for sn using q(3) k1(3) by (simp add: within_def)
    with push_gains [OF k1(1) _ p] show ?thesis
      using r u w q assms(4) True by (auto simp: gains_def received_def is_push_def)
  next
    case False
    then have "quiet_rcv k1 k'" using k1(4) by simp
    then have "pending_acks k' = pending_acks k" "ackcount k' = ackcount k"
      using quiet_acks [of k1 k'] q by (simp_all add: quiet_rcv_def)
    then show ?thesis using r u w False by (simp add: gains_def is_push_def)
  qed
qed

text \<open>What the receiver must be for the window to be an interval of numbers, and the count not to wrap.\<close>

definition roomy :: "piece list \<Rightarrow> piece list \<Rightarrow> nat \<Rightarrow> ikcpcb \<Rightarrow> bool" where
  "roomy ps got n k \<longleftrightarrow> keeps ps got k \<and> length ps < 2 ^ 30 \<and> unat (rcv_wnd k) < 2 ^ 30 \<and>
     unat (ackcount k) + n < 2 ^ 31"

lemma roomy_gains:
  assumes "roomy ps got (m + n) k" and "gains m k k'" and "keeps ps got k'"
  shows "roomy ps got n k'"
  using assms by (simp add: roomy_def gains_def)

lemma roomy_within:
  assumes "roomy ps got n k" and "gains m k k'" and "keeps ps got k'" and "honest c ps seg"
    and "h_cmd (fst seg) = 81" and "within k (h_sn (fst seg))"
  shows "within k' (h_sn (fst seg))"
proof (rule within_later [OF assms(6)])
  show "unat (h_sn (fst seg)) < 2 ^ 31"
    using genuine_below [of ps "h_sn (fst seg)" "(ucast (h_frg (fst seg)), snd seg)"] assms(1,4,5)
    by (simp add: honest_def roomy_def)
  show "unat (rcv_nxt k') < 2 ^ 30"
    using receives_nxt(2) [of ps got k'] assms(1,3) by (simp add: roomy_def keeps_def)
qed (use assms(1,2) in \<open>simp_all add: gains_def roomy_def\<close>)

lemma keeps_growth [simp]: "keeps ps got (k\<lparr>cwnd := c, incr := i\<rparr>) = keeps ps got k"
  by (simp add: keeps_def wf_defs receives_def acks_reached_def reached_def pending_acks_def Let_def)

lemma gains_growth [simp]:
  "gains n (k\<lparr>cwnd := c, incr := i\<rparr>) k' = gains n k k'" "within (k\<lparr>cwnd := c, incr := i\<rparr>) = within k"
  by (simp_all add: gains_def later_def reached_def untouched_def settings_def pending_acks_def
      within_def fun_eq_iff)

lemma absorbs_gains:
  assumes "absorbs segs k k'" and "\<forall>seg \<in> set segs. honest (conv k) ps seg"
    and "roomy ps got (pushes segs) k"
  shows "keeps ps got k' \<and> gains (pushes segs) k k' \<and>
    (\<forall>seg \<in> set segs. h_cmd (fst seg) = 81 \<and> within k (h_sn (fst seg)) \<longrightarrow> received k' seg)"
  using assms
proof (induction rule: absorbs.induct)
  case (none k)
  then show ?case by (simp add: gains_refl roomy_def)
next
  case (segment k h payload k1 segs k')
  let ?seg = "(h, payload)"
  have room: "roomy ps got (pushes [?seg] + pushes segs) k" using segment.prems(2) by (simp split: if_splits)
  then have k: "keeps ps got k" "length ps < 2 ^ 31" "unat (ackcount k) + pushes [?seg] < 2 ^ 32"
    by (simp_all add: roomy_def)
  have h: "honest (conv k) ps ?seg" using segment.prems(1) by simp
  have k1: "input_segment k (fst ?seg) (snd ?seg) = Inr k1" using segment.hyps(1) by simp
  note g = segment_gains [OF k(1,2) h k(3) k1]
  have kp: "keeps ps got k1" using feed_keeps [of "[?seg]" k k1 ps got] h k(1,2) segment.hyps(1) by simp
  have "conv k1 = conv k" using g by (simp add: gains_def untouched_def settings_def)
  then have IH: "keeps ps got k'" "gains (pushes segs) k1 k'"
    "\<forall>s \<in> set segs. h_cmd (fst s) = 81 \<and> within k1 (h_sn (fst s)) \<longrightarrow> received k' s"
    using segment.IH segment.prems(1) roomy_gains [OF room _ kp] g by simp_all
  have "received k' s" if s: "s \<in> set (?seg # segs)" "h_cmd (fst s) = 81" "within k (h_sn (fst s))" for s
  proof (cases "s = ?seg")
    case True
    then show ?thesis using g s(2,3) received_gains IH(2) by blast
  next
    case False
    then show ?thesis
      using IH(3) s roomy_within [OF room _ kp _ s(2,3)] g segment.prems(1) by auto
  qed
  moreover have "gains (pushes [?seg] + pushes segs) k k'" using gains_trans g IH(2) by blast
  ultimately show ?case using IH(1) by (auto split: if_splits)
next
  case (growth segs k c i k')
  then show ?case by (simp add: roomy_def)
qed

section \<open>The sender\<close>

text \<open>The numbers in the send buffer only become fewer, and an acknowledged one is gone.\<close>

definition sns :: "ikcpcb \<Rightarrow> u32 set" where
  "sns k = seg_sn ` set (snd_buf k)"

lemma advances_sns: "advances k k' \<Longrightarrow> sns k' \<subseteq> sns k"
proof -
  assume "advances k k'"
  then have "content ` set (snd_buf k') \<subseteq> content ` set (snd_buf k)" by (simp add: advances_def)
  then have "(\<lambda>(c, m, n, f, d). n) ` content ` set (snd_buf k') \<subseteq>
      (\<lambda>(c, m, n, f, d). n) ` content ` set (snd_buf k)" by (rule image_mono)
  then show ?thesis by (simp add: sns_def image_image content_def)
qed

lemma snd_ordered_distinct: "snd_ordered una ss nxt \<Longrightarrow> distinct (map seg_sn ss)"
  by (induction ss) (force simp: snd_ordered_Cons)+

lemma ack_scan_gone:
  assumes "distinct (map seg_sn ss)"
  shows "sn \<notin> seg_sn ` set (fst (ack_scan sn ss))"
  using assms
proof (induction ss)
  case (Cons s ss)
  then show ?case by (cases "ack_scan sn ss") auto
qed simp

lemma input_ack_gone:
  assumes "kcp_wf k"
  shows "h_sn h \<notin> sns (input_ack k h)"
proof (cases "h_sn h \<in> sns k")
  case False
  have "sns (input_ack k h) \<subseteq> sns k" using input_ack_advances [of k h] advances_sns assms by blast
  then show ?thesis using False by blast
next
  case True
  let ?k1 = "if itimediff (current k) (h_ts h) \<ge> 0
    then ikcp_update_ack k (itimediff (current k) (h_ts h)) else k"
  obtain s where s: "s \<in> set (snd_buf k)" "seg_sn s = h_sn h" using True by (auto simp: sns_def)
  have o: "snd_ordered (snd_una k) (snd_buf k) (snd_nxt k)" "unat (snd_nxt k - snd_una k) < 65536"
    using assms by (simp_all add: kcp_wf_def wf_snd_alt)
  have u: "unat (h_sn h - snd_una k) < unat (snd_nxt k - snd_una k)"
    using snd_ordered_window [OF o(1) s(1)] s(2) by simp
  then have "unat (snd_nxt k - h_sn h) = unat (snd_nxt k - snd_una k) - unat (h_sn h - snd_una k)"
    by (intro offset_diff) simp
  moreover have "h_sn h \<noteq> snd_nxt k" using u by auto
  then have "unat (h_sn h - snd_nxt k) = 4294967296 - unat (snd_nxt k - h_sn h)" by (rule unat_minus_swap)
  ultimately have "\<not> itimediff (h_sn h) (snd_nxt k) \<ge> 0" using o(2) by (simp add: not_le itimediff_lt0)
  moreover have "\<not> itimediff (h_sn h) (snd_una k) < 0" using u o(2) by (simp add: itimediff_lt0)
  ultimately have "snd_buf (ikcp_parse_ack ?k1 (h_sn h)) = fst (ack_scan (h_sn h) (snd_buf k))"
    by (auto simp: ikcp_parse_ack_def update_ack_frame Let_def split: prod.split)
  moreover have "snd_buf (input_ack k h) = snd_buf (ikcp_parse_ack ?k1 (h_sn h))"
    using shrink_fields [of "ikcp_parse_ack ?k1 (h_sn h)"] by (auto simp: input_ack_def Let_def)
  ultimately show ?thesis using ack_scan_gone [OF snd_ordered_distinct [OF o(1)]] by (simp add: sns_def)
qed

lemma segment_gone:
  assumes "kcp_wf k" and "input_segment k h payload = Inr k'"
  shows "sns k' \<subseteq> sns k" and "h_cmd h = 82 \<Longrightarrow> h_sn h \<notin> sns k'"
proof -
  show "sns k' \<subseteq> sns k" using advances_sns input_segment_advances [OF assms] by blast
  show "h_sn h \<notin> sns k'" if "h_cmd h = 82"
    using assms
  proof (cases rule: input_segment_parts)
    case (1 k1)
    then have "k' = input_ack k1 h" using that by auto
    then show ?thesis using input_ack_gone [OF 1(1)] by simp
  qed
qed

lemma absorbs_gone:
  assumes "absorbs segs k k'" and "kcp_wf k" and "\<forall>seg \<in> set segs. acceptable c seg"
  shows "sns k' \<subseteq> sns k \<and> (\<forall>seg \<in> set segs. h_cmd (fst seg) = 82 \<longrightarrow> h_sn (fst seg) \<notin> sns k')"
  using assms
proof (induction rule: absorbs.induct)
  case (segment k h payload k1 segs k')
  have "length payload = unat (h_len h)" using segment.prems(2) by (simp add: acceptable_def)
  with segment.prems(1) segment.hyps(1) have "kcp_wf k1" by (rule input_segment_wf)
  then show ?case
    using segment.IH segment.prems(2) segment_gone [OF segment.prems(1) segment.hyps(1)] by auto
next
  case (growth segs k c i k')
  then show ?case by (simp add: wf_defs sns_def)
qed simp

section \<open>The round trip\<close>

text \<open>With memory, datagrams can be handed over.\<close>

lemma hand_over_returns:
  assumes "kcp_inv b k" and "plentiful (mem k)"
  shows "\<exists>k'. hand_over ds k = Inr k' \<and> kcp_inv b k' \<and> plentiful (mem k')"
  using assms
proof (induction ds arbitrary: k)
  case (Cons d ds)
  then have k: "kcp_wf k" "accounted b k" by (simp_all add: kcp_inv_def)
  obtain r k1 where k1: "ikcp_input k (Some d) = Inr (r, k1)"
    using input_returns [OF k Cons.prems(2)] by blast
  from Cons.IH [OF input_inv [OF Cons.prems(1) k1] input_plentiful [OF k k1 Cons.prems(2)]]
  show ?case using k1 by simp
qed simp

lemma flush_datagrams:
  assumes "kcp_wf k" and "wf_wire k" and "output_cb k" and "updated k \<noteq> 0"
    and "ikcp_flush k = Inr (sent, k')"
  obtains dgs where "sent = map datagram dgs" and "concat dgs = flush_plan k"
proof -
  have "sent = map datagram (pack (unat (mtu k)) (flush_plan k))"
    using flush_result [OF assms(1,3,4)] assms(5) by auto
  then show ?thesis using that concat_pack by blast
qed

lemma flush_mem:
  assumes "kcp_wf k" and "output_cb k" and "ikcp_flush k = Inr (sent, k')"
  shows "mem k' = mem k"
  using assms
proof (cases rule: flush_cases)
  case (flushed segs x st)
  then show ?thesis
    by (simp add: ssthresh_frame charged_def windowed_def admit_def prepared_def probe_timer_frame)
qed simp

lemma update_mem:
  assumes "kcp_wf k" and "output_cb k" and "ikcp_update k now = Inr (sent, k')"
  shows "mem k' = mem k"
  using assms(1,3,2)
proof (cases rule: update_cases)
  case flushed
  have "kcp_wf (ticked k now (next_flush k now))" using assms(1) by (simp add: ticked_wf)
  from flush_mem [OF this _ flushed(1)] assms(2) show ?thesis
    by (simp add: ticked_frame) (simp add: ticked_def)
qed simp

lemma pending_flushed:
  assumes "unat (ackcount k) < 2 ^ 31"
  shows "flushed_acks k = pending_acks k"
proof -
  have "nat (sint (ackcount k)) = unat (ackcount k)" using sint_small [of "ackcount k"] assms by simp
  then show ?thesis by (simp add: flushed_acks_def pending_acks_def split: option.split)
qed

text \<open>What the flush of a receiver acknowledges is gone at the sender that gets it.\<close>

lemma acknowledged_gone:
  assumes "received r seg" and "unat (ackcount r) < 2 ^ 31" and "kcp_wf r" and "wf_wire r"
    and "output_cb r" and "updated r \<noteq> 0" and "ikcp_flush r = Inr (replies, r')"
    and "hand_over replies k = Inr k'" and "kcp_wf k" and "conv k = conv r"
  shows "h_sn (fst seg) \<notin> sns k'"
proof -
  obtain dgs where d: "replies = map datagram dgs" "concat dgs = flush_plan r"
    using flush_datagrams [OF assms(3-7)] .
  have ok: "\<forall>seg \<in> set (concat dgs). acceptable (conv k) seg"
    unfolding d(2) assms(10) using assms(3,4) by (rule plan_acceptable)
  then have a: "absorbs (concat dgs) k k'" using assms(8) d(1) hand_over_absorbs by blast
  let ?ack = "(header_of (control_segment r\<lparr>seg_sn := h_sn (fst seg), seg_ts := h_ts (fst seg)\<rparr>), [])"
  have "?ack \<in> set (ack_plan r)"
    using assms(1) unfolding ack_plan_def pending_flushed [OF assms(2)]
    by (force simp: received_def)
  then have "?ack \<in> set (concat dgs)" unfolding d(2) by (simp add: flush_plan_def)
  moreover have "h_cmd (fst ?ack) = 82" "h_sn (fst ?ack) = h_sn (fst seg)"
    by (simp_all add: header_of_def control_segment_def)
  ultimately show ?thesis using absorbs_gone [OF a assms(9) ok] by metis
qed

text \<open>A flush sends at most 65535 data segments: the send buffer is no longer than the window.\<close>

lemma plan_pushes:
  assumes "kcp_wf k"
  shows "pushes (flush_plan k) \<le> 65535"
proof -
  have "\<not> is_push seg" if "seg \<in> set (ack_plan k) \<union> set (probe_plan k)" for seg
    using that by (auto simp: is_push_def ack_plan_def probe_plan_def header_of_def control_segment_def
        fresh_segment_def Let_def split: if_splits)
  then have "filter is_push (ack_plan k) = []" "filter is_push (probe_plan k) = []"
    by (auto simp: filter_empty_conv)
  then have "pushes (flush_plan k) = pushes (data_plan k)" by (simp add: flush_plan_def)
  also have "\<dots> \<le> length (snd_buf (windowed k))"
    unfolding data_plan_def Let_def windowed_frame(9) [symmetric]
    by (metis length_filter_le length_map le_trans)
  also have "\<dots> \<le> 65535"
  proof -
    have "wf_snd (windowed k)" using assms by (simp add: kcp_wf_def windowed_wf_snd)
    then show ?thesis using snd_ordered_length by (fastforce simp: wf_snd_alt)
  qed
  finally show ?thesis .
qed

text \<open>The first half of the round trip: what the receiver has after the datagrams of a flush.\<close>

lemma flush_received:
  assumes "keeping a b w" and "length (pieces w) < 2 ^ 30"
    and "output_cb (sender w)" and "updated (sender w) \<noteq> 0" and "plentiful (mem (receiver w))"
    and "unat (rcv_wnd (receiver w)) < 2 ^ 30"
    and "unat (ackcount (receiver w)) + 65536 \<le> 2 ^ 31"
    and "ikcp_flush (sender w) = Inr (sent, k)"
  obtains r where "hand_over sent (receiver w) = Inr r" and "kcp_inv b r"
    and "gains 65535 (receiver w) r"
    and "\<forall>seg \<in> set (data_plan (sender w)). within (receiver w) (h_sn (fst seg)) \<longrightarrow> received r seg"
proof -
  obtain gs where gs: "pieces w = concat gs" "list_all2 message_pieces gs (posted w)"
    using assms(1) by (auto simp: keeping_def link_ok_def)
  then have frg: "\<forall>p \<in> set (pieces w). fst p < 256" using message_frg by simp
  have short: "length (pieces w) < 2 ^ 31" using assms(2) by simp
  obtain got where e: "kcp_inv a (sender w)" "kcp_inv b (receiver w)" "conv (receiver w) = conv (sender w)"
    "keeps (pieces w) got (receiver w)" "sends (pieces w) (sender w)"
    using keeping_ends [OF assms(1) short] by metis
  have wf: "kcp_wf (sender w)" "wf_wire (sender w)" using e(1) by (simp_all add: kcp_inv_def)
  obtain dgs where d: "sent = map datagram dgs" "concat dgs = flush_plan (sender w)"
    using flush_datagrams [OF wf assms(3,4,8)] .
  have h: "\<forall>seg \<in> set (concat dgs). honest (conv (receiver w)) (pieces w) seg"
    unfolding d(2) e(3) using wf e(5) frg by (rule plan_honest)
  obtain r where r: "hand_over sent (receiver w) = Inr r" "kcp_inv b r"
    using hand_over_returns [OF e(2) assms(5)] by blast
  have few: "pushes (concat dgs) \<le> 65535" unfolding d(2) using wf(1) by (rule plan_pushes)
  then have "roomy (pieces w) got (pushes (concat dgs)) (receiver w)"
    using e(4) assms(2,6,7) by (simp add: roomy_def)
  moreover have "absorbs (concat dgs) (receiver w) r"
    using hand_over_absorbs r(1) h unfolding d(1) by (simp add: honest_def)
  ultimately have g: "gains 65535 (receiver w) r"
    "\<forall>seg \<in> set (flush_plan (sender w)). h_cmd (fst seg) = 81 \<and> within (receiver w) (h_sn (fst seg)) \<longrightarrow>
      received r seg"
    using absorbs_gains [OF _ h] gains_mono [OF _ few] unfolding d(2) by auto
  then show ?thesis
    using r data_plan_push [OF wf(2)] by (intro that [of r]) (auto simp: flush_plan_def)
qed

text \<open>
  C7: one undisturbed round trip is enough.  When the datagrams of a flush of the sender all
  arrive, and then those of the receiver's next flush, every data segment of the flush that the
  receiver's window takes has reached the receiver and is gone from the send buffer.
\<close>

theorem round_trip_clears:
  assumes "connected a b w0" and "closed.run w0 events w" and "length (pieces w) < 2 ^ 30"
    and "output_cb (sender w)" and "updated (sender w) \<noteq> 0" and "plentiful (mem (sender w))"
    and "output_cb (receiver w)" and "updated (receiver w) \<noteq> 0" and "plentiful (mem (receiver w))"
    and "unat (rcv_wnd (receiver w)) < 2 ^ 30"
    and "unat (ackcount (receiver w)) + 65536 \<le> 2 ^ 31"
  shows "\<exists>sent k r replies r' k'. ikcp_flush (sender w) = Inr (sent, k) \<and>
    hand_over sent (receiver w) = Inr r \<and> ikcp_flush r = Inr (replies, r') \<and> hand_over replies k = Inr k' \<and>
    (\<forall>(h, payload) \<in> set (data_plan (sender w)).
      itimediff (h_sn h) (rcv_nxt (receiver w) + rcv_wnd (receiver w)) < 0 \<longrightarrow>
      reached r (h_sn h) \<and> h_sn h \<notin> seg_sn ` set (snd_buf k'))"
proof -
  have k: "keeping a b w" using closed.reachable_good [OF assms(1,2)] assms(3) by (simp add: closed_inv_def)
  then have s: "kcp_inv a (sender w)" and c: "conv (receiver w) = conv (sender w)"
    by (simp_all add: keeping_def link_ok_def)
  then have wf: "kcp_wf (sender w)" by (simp add: kcp_inv_def)
  obtain sent k1 where f: "ikcp_flush (sender w) = Inr (sent, k1)"
    using flush_result [OF wf assms(4,5)] by blast
  obtain r where r: "hand_over sent (receiver w) = Inr r" "kcp_inv b r"
    "gains 65535 (receiver w) r"
    "\<forall>seg \<in> set (data_plan (sender w)). within (receiver w) (h_sn (fst seg)) \<longrightarrow> received r seg"
    using flush_received [OF k assms(3-5,9-11) f] .
  then have rs: "output_cb r" "updated r \<noteq> 0" "conv r = conv (sender w)" "unat (ackcount r) < 2 ^ 31"
    using assms(7,8,11) c by (simp_all add: gains_def untouched_def settings_def)
  have rwf: "kcp_wf r" "wf_wire r" using r(2) by (simp_all add: kcp_inv_def)
  obtain replies r' where b: "ikcp_flush r = Inr (replies, r')"
    using flush_result [OF rwf(1) rs(1,2)] by blast
  have k1: "kcp_inv a k1" "conv k1 = conv r" "plentiful (mem k1)"
    using flush_inv [OF s assms(4) f] flush_conv [OF wf assms(4) f] flush_mem [OF wf assms(4) f]
      rs(3) assms(6) by simp_all
  obtain k' where k': "hand_over replies k1 = Inr k'" using hand_over_returns [OF k1(1,3)] by blast
  have "kcp_wf k1" using k1(1) by (simp add: kcp_inv_def)
  note gone = acknowledged_gone [OF _ rs(4) rwf rs(1,2) b k' this k1(2)]
  have "reached r (h_sn h) \<and> h_sn h \<notin> seg_sn ` set (snd_buf k')"
    if "(h, payload) \<in> set (data_plan (sender w))"
      "itimediff (h_sn h) (rcv_nxt (receiver w) + rcv_wnd (receiver w)) < 0" for h payload
  proof -
    have "received r (h, payload)" using r(4) that by (auto simp: within_def)
    then show ?thesis using gone [of "(h, payload)"] by (simp add: received_def sns_def)
  qed
  then show ?thesis using f r(1) b k' by blast
qed

end
