(* ===== verification/Replies.thy ===== *)
theory Replies
  imports Exchange
begin

text \<open>
  What an end tells its peer: the window it announces, the probes and their answers, and the state
  a flush leaves.  A receiver is settled when nothing in its buffer could move to its queue.
\<close>

section \<open>Settled receivers\<close>

definition settled :: "ikcpcb \<Rightarrow> bool" where
  "settled k \<longleftrightarrow> (case rcv_buf k of [] \<Rightarrow> True
     | s # ss \<Rightarrow> seg_sn s = rcv_nxt k \<longrightarrow> rcv_wnd k \<le> nrcv_que k)"

lemma settled_move: "settled (move_rcv_buf k)"
proof (induction k rule: move_rcv_buf.induct)
  case (1 k)
  then show ?case
    by (cases "rcv_buf k") (auto simp: move_rcv_buf.simps [of k] settled_def)
qed

lemma settled_same:
  assumes "same_rcv k k'" and "kcp_wf k" and "kcp_wf k'" and "rcv_wnd k' = rcv_wnd k"
  shows "settled k' = settled k"
proof -
  have "nrcv_que k' = nrcv_que k" using assms(1-3) by (simp add: same_rcv_def kcp_wf_def wf_rcv_def)
  then show ?thesis using assms(1,4) by (simp add: settled_def same_rcv_def split: list.split)
qed

lemma push_settled:
  assumes "kcp_wf k" and "input_push k h payload = Inr k'" and "settled k"
  shows "settled k'"
  using assms(1,2)
proof (cases rule: input_push_Inr)
  case old
  have "wf_ack k" using assms(1) by (simp add: kcp_wf_def)
  moreover from this old(1) have "same_rcv k k'" by (rule ack_push_rcv)
  ultimately show ?thesis
    using settled_same [of k k'] ack_push_wf [OF assms(1) old(1)] assms(1,3) old(1)
    by (cases rule: ack_push_cases [of k "h_sn h" "h_ts h"]) (auto simp: acks_set_def settled_def)
next
  case (data k1 m)
  have "wf_rcv (k1\<lparr>mem := m\<rparr>)" using data(3) by (simp add: kcp_wf_def)
  moreover have "in_rcv_window (k1\<lparr>mem := m\<rparr>) (seg_sn (received_segment h payload (fresh_segment (unat (h_len h)))))"
    using data(2,4,5) by (simp add: in_rcv_window_def received_segment_def)
  ultimately show ?thesis unfolding data(8) by (simp add: parse_data_eq settled_move)
qed (use assms(3) in simp)

lemma segment_settled:
  assumes "kcp_wf k" and "input_segment k h payload = Inr k'" and "length payload = unat (h_len h)"
    and "settled k"
  shows "settled k'"
  using assms(1,2)
proof (cases rule: input_segment_split)
  case (1 k1)
  have wf: "kcp_wf k'" using assms(1-3) by (rule input_segment_wf)
  have "settled k1" using settled_same [of k k1] 1 assms(1,4) by (simp add: quiet_rcv_def)
  moreover have "rcv_wnd k' = rcv_wnd k1"
    using input_segment_advances [OF assms(1,2)] 1(4) by (simp add: advances_def)
  ultimately show ?thesis
    using push_settled [OF 1(1)] settled_same [of k1 k'] 1(1,5) wf by (auto simp: quiet_rcv_def split: if_splits)
qed

lemma growth_same [simp]:
  "kcp_wf (k\<lparr>cwnd := c, incr := i\<rparr>) = kcp_wf k" "settled (k\<lparr>cwnd := c, incr := i\<rparr>) = settled k"
  "sns (k\<lparr>cwnd := c, incr := i\<rparr>) = sns k"
  by (simp_all add: wf_defs settled_def sns_def split: list.split)

lemma absorbs_settled:
  assumes "absorbs segs k k'" and "kcp_wf k" and "\<forall>seg \<in> set segs. acceptable c seg" and "settled k"
  shows "settled k'"
  using assms
proof (induction rule: absorbs.induct)
  case (segment k h payload k1 segs k')
  have "length payload = unat (h_len h)" using segment.prems(2) by (simp add: acceptable_def)
  then show ?case
    using segment input_segment_wf [OF segment.prems(1) segment.hyps(1)]
      segment_settled [OF segment.prems(1) segment.hyps(1)] by auto
qed simp_all

text \<open>A settled receiver with room in its queue has not buffered the next number.\<close>

lemma settled_next:
  assumes "settled k" and "wf_rcv k" and "nrcv_que k < rcv_wnd k"
  shows "\<not> reached k (rcv_nxt k)"
proof -
  have o: "rcv_ordered (rcv_nxt k) (rcv_buf k)" using assms(2) by (simp add: wf_rcv_alt)
  have "rcv_nxt k \<notin> seg_sn ` set (rcv_buf k)"
  proof (cases "rcv_buf k")
    case (Cons s ss)
    then have "seg_sn s \<noteq> rcv_nxt k" using assms(1,3) by (auto simp: settled_def)
    moreover have "seg_sn t \<noteq> rcv_nxt k" if "t \<in> set ss" for t
    proof -
      have "unat (seg_sn s - rcv_nxt k) < unat (seg_sn t - rcv_nxt k)"
        using o that unfolding Cons rcv_ordered_Cons by blast
      then show ?thesis by auto
    qed
    ultimately show ?thesis using Cons by force
  qed simp
  then show ?thesis by (simp add: reached_def)
qed

section \<open>Announcements\<close>

text \<open>The window that the segments of a flush announce.\<close>

definition announced :: "ikcpcb \<Rightarrow> u32" where
  "announced k = ucast (ucast (seg_wnd (control_segment k)) :: u16)"

lemma announced_room:
  assumes "wf_rcv k" and "nrcv_que k < rcv_wnd k" and "unat (rcv_wnd k) < 65536"
  shows "announced k = rcv_wnd k - nrcv_que k" and "0 < announced k"
proof -
  have n: "unat (nrcv_que k) < unat (rcv_wnd k)" using assms(2) by (simp add: word_less_nat_alt)
  then have u: "unat (rcv_wnd k - nrcv_que k) = unat (rcv_wnd k) - unat (nrcv_que k)"
    by (simp add: unat_sub word_le_nat_alt)
  have "sint (rcv_wnd k - nrcv_que k) = int (unat (rcv_wnd k - nrcv_que k))"
    using u assms(3) by (intro sint_small) simp
  then have "seg_wnd (control_segment k) = rcv_wnd k - nrcv_que k"
    using assms(2) by (simp add: control_segment_def ikcp_wnd_unused_def)
  then show "announced k = rcv_wnd k - nrcv_que k"
    using u assms(3) unfolding announced_def word_unat_eq_iff
    by (simp add: unsigned_ucast_eq take_bit_eq_mod unat_mod)
  then show "0 < announced k" using u n by (simp add: word_less_nat_alt)
qed

text \<open>A window of 65536 does not fit in the 16 bits of the header: it announces 0.\<close>

lemma announced_wraps: "rcv_wnd k = 65536 \<Longrightarrow> nrcv_que k = 0 \<Longrightarrow> announced k = 0"
  by (simp add: announced_def control_segment_def ikcp_wnd_unused_def)

text \<open>From \<open>2^31\<close> waiting acknowledgements on, the signed \<open>count\<close> is negative: a flush sends none of them.\<close>

lemma acks_dropped:
  assumes "2 ^ 31 \<le> unat (ackcount k)"
  shows "ack_plan k = []"
proof -
  have "itimediff (ackcount k) 0 < 0" using assms by (simp add: itimediff_lt0)
  then have "nat (sint (ackcount k)) = 0" by (simp add: itimediff_def)
  then show ?thesis by (simp add: ack_plan_def flushed_acks_def)
qed

lemma plan_announces:
  assumes "seg \<in> set (flush_plan k)"
  shows "h_una (fst seg) = rcv_nxt k" and "ucast (h_wnd (fst seg)) = announced k"
  using assms by (auto simp: flush_plan_def ack_plan_def probe_plan_def data_plan_def stamped_def
      header_of_def control_segment_def announced_def Let_def)

text \<open>
  What the peer learns: the window, and when the acknowledgement covers the whole send buffer,
  the buffer is empty.
\<close>

lemma segment_window: "input_segment k h payload = Inr k' \<Longrightarrow> rmt_wnd k' = ucast (h_wnd h)"
  using input_segment_outlook [of k h payload k'] by (simp add: outlook_def)

lemma segment_covers:
  assumes "kcp_wf k" and "input_segment k h payload = Inr k'"
    and "\<forall>sn \<in> sns k. 0 < itimediff (h_una h) sn"
  shows "snd_buf k' = []"
  using assms(1,2)
proof (cases rule: input_segment_parts)
  case (1 k1)
  have "snd_buf k1 = []" unfolding 1(2) using assms(3) by (simp add: sns_def)
  then show ?thesis
    using 1(3) input_ack_snd_buf [of k1 h] push_snd_buf [OF 1(1), of h payload k'] by auto
qed

lemma absorbs_informs:
  assumes "absorbs segs k k'" and "kcp_wf k" and "\<forall>seg \<in> set segs. acceptable c seg"
    and "\<forall>seg \<in> set segs. h_una (fst seg) = una \<and> ucast (h_wnd (fst seg)) = wnd"
  shows "(segs \<noteq> [] \<or> rmt_wnd k = wnd \<longrightarrow> rmt_wnd k' = wnd) \<and>
    ((segs \<noteq> [] \<or> snd_buf k = []) \<and> (\<forall>sn \<in> sns k. 0 < itimediff una sn) \<longrightarrow> snd_buf k' = [])"
  using assms
proof (induction rule: absorbs.induct)
  case (segment k h payload k1 segs k')
  have "length payload = unat (h_len h)" using segment.prems(2) by (simp add: acceptable_def)
  with segment.prems(1) segment.hyps(1) have wf: "kcp_wf k1" by (rule input_segment_wf)
  have h: "h_una h = una" "ucast (h_wnd h) = wnd" using segment.prems(3) by simp_all
  have w: "rmt_wnd k1 = wnd" using segment_window [OF segment.hyps(1)] h(2) by simp
  have e: "(\<forall>sn \<in> sns k. 0 < itimediff una sn) \<longrightarrow> snd_buf k1 = [] \<and> sns k1 = {}"
    using segment_covers [OF segment.prems(1) segment.hyps(1)] h(1) by (simp add: sns_def)
  show ?case using segment.IH [OF wf] segment.prems(2,3) w e by auto
qed simp_all

text \<open>A window probe is remembered until the next flush.\<close>

definition asked :: "ikcpcb \<Rightarrow> bool" where
  "asked k \<longleftrightarrow> probe k AND IKCP_ASK_TELL \<noteq> 0"

lemma segment_asked:
  assumes "input_segment k h payload = Inr k'" and "asked k \<or> h_cmd h = 83"
  shows "asked k'"
proof -
  have "(p OR 2) AND 2 = (2 :: u32)" for p by (simp add: word_bw_comms word_ao_absorbs)
  then show ?thesis
    using assms(2) input_segment_outlook [OF assms(1)] by (auto simp: asked_def outlook_def)
qed

lemma absorbs_asked:
  "absorbs segs k k' \<Longrightarrow> asked k \<or> (\<exists>seg \<in> set segs. h_cmd (fst seg) = 83) \<Longrightarrow> asked k'"
proof (induction rule: absorbs.induct)
  case (segment k h payload k1 segs k')
  then show ?case using segment_asked [OF segment.hyps(1)] by auto
qed (simp_all add: asked_def)

lemma asked_plan: "asked k \<Longrightarrow> probe_plan k \<noteq> []"
proof -
  assume "asked k"
  moreover have "probe (probe_timer k) = probe k \<or> probe (probe_timer k) = probe k OR IKCP_ASK_SEND"
    by (simp add: probe_timer_def Let_def)
  moreover have "(p OR 1) AND 2 = p AND (2 :: u32)" for p
    by (simp add: word_ao_dist)
  ultimately show ?thesis by (auto simp: asked_def probe_plan_def Let_def)
qed

text \<open>The sending side of an end under incoming segments.\<close>

lemma absorbs_advances:
  assumes "absorbs segs k k'" and "kcp_wf k" and "\<forall>seg \<in> set segs. acceptable c seg"
  shows "advances k k' \<and> untouched k' = untouched k"
  using assms
proof (induction rule: absorbs.induct)
  case (segment k h payload k1 segs k')
  have "length payload = unat (h_len h)" using segment.prems(2) by (simp add: acceptable_def)
  with segment.prems(1) segment.hyps(1) have wf: "kcp_wf k1" by (rule input_segment_wf)
  have "advances k k1" using segment.prems(1) segment.hyps(1) by (rule input_segment_advances)
  then show ?case
    using segment.IH [OF wf] segment.prems(2) advances_trans input_segment_untouched [OF segment.hyps(1)]
    by auto
next
  case (growth segs k c i k')
  then show ?case by (simp add: advances_def untouched_def settings_def)
qed (simp add: advances_refl)

section \<open>After a flush\<close>

lemma flush_stays:
  assumes "kcp_wf k" and "output_cb k" and "updated k \<noteq> 0" and "ikcp_flush k = Inr (sent, k')"
  shows "untouched k' = untouched k \<and> rmt_wnd k' = rmt_wnd k \<and> rcv_wnd k' = rcv_wnd k \<and>
    nrcv_que k' = nrcv_que k \<and> nocwnd k' = nocwnd k \<and> cwnd k' \<noteq> 0 \<and> ackcount k' = 0 \<and>
    (rmt_wnd k = 0 \<and> probe_wait k = 0 \<longrightarrow> probe_wait k' \<noteq> 0)"
  using assms(1,2,4)
proof (cases rule: flush_cases)
  case (flushed segs x st)
  have "probe_wait k' = probe_wait (probe_timer k)"
    unfolding flushed(3) by (simp add: update_ssthresh_def Let_def charged_def windowed_def admit_def
        prepared_def probe_timer_def)
  moreover have "rmt_wnd k = 0 \<and> probe_wait k = 0 \<longrightarrow> probe_wait (probe_timer k) \<noteq> 0"
    by (simp add: probe_timer_def)
  ultimately show ?thesis
    unfolding flushed(3) by (simp add: update_ssthresh_def Let_def charged_def windowed_def admit_def
        prepared_def probe_timer_frame untouched_def settings_def)
qed (use assms(3) in simp)

end
