(* ===== verification/Moves.thy ===== *)
theory Moves
  imports Replies
begin

text \<open>
  Moves of the closed system that its clients and a kind network can make from a state that is
  ready: the sender flushes at a time of its choice, its datagrams arrive, the receiver flushes,
  its datagrams reach the sender.
\<close>

section \<open>States and moves\<close>

text \<open>
  Both ends have a callback, were updated before and have memory; the send window is not empty;
  the receive window fits in the 16 bits of the header and takes the longest message.
\<close>

definition able :: "ikcpcb \<Rightarrow> bool" where
  "able k \<longleftrightarrow> output_cb k \<and> updated k \<noteq> 0 \<and> plentiful (mem k)"

definition ready :: "link \<Rightarrow> bool" where
  "ready w \<longleftrightarrow> length (pieces w) < 2 ^ 30 \<and> able (sender w) \<and> able (receiver w) \<and>
     0 < snd_wnd (sender w) \<and> unat (rcv_wnd (receiver w)) < 65536 \<and>
     (\<forall>p \<in> set (pieces w). fst p < rcv_wnd (receiver w)) \<and> settled (receiver w)"

definition follows :: "link \<Rightarrow> link \<Rightarrow> bool" where
  "follows w w' \<longleftrightarrow> (\<exists>events. closed.run w events w') \<and> ready w' \<and> pieces w' = pieces w \<and> posted w' = posted w \<and>
     rcv_wnd (receiver w') = rcv_wnd (receiver w) \<and>
     unat (snd_nxt (sender w)) \<le> unat (snd_nxt (sender w')) \<and>
     unat (rcv_nxt (receiver w)) \<le> unat (rcv_nxt (receiver w')) \<and>
     length (delivered w) \<le> length (delivered w')"

lemma follows_refl: "ready w \<Longrightarrow> follows w w"
  unfolding follows_def by (blast intro: closed.run.stop)

lemma follows_trans [trans]: "follows w w1 \<Longrightarrow> follows w1 w2 \<Longrightarrow> follows w w2"
  unfolding follows_def by (fastforce intro: closed.run_append order_trans)

lemma follows_keeping:
  assumes "keeping a b w" and "follows w w'"
  shows "keeping a b w'"
proof -
  obtain es where "closed.run w es w'" "length (pieces w') < 2 ^ 31"
    using assms(2) by (auto simp: follows_def ready_def)
  moreover have "closed_inv a b w" using assms(1) by (simp add: closed_inv_def)
  ultimately show ?thesis using closed.run_good [of w es w' a b] by (simp add: closed_inv_def)
qed

lemma follows_ok: "keeping a b w \<Longrightarrow> follows w w' \<Longrightarrow> keeping a b w' \<and> ready w'"
  using follows_keeping by (auto simp: follows_def)

text \<open>What is left to do.\<close>

definition lag :: "link \<Rightarrow> nat" where
  "lag w = (length (pieces w) - unat (snd_nxt (sender w))) + (length (pieces w) - unat (rcv_nxt (receiver w))) +
     (length (posted w) - length (delivered w))"

definition further :: "link \<Rightarrow> link \<Rightarrow> bool" where
  "further w w' \<longleftrightarrow> unat (snd_nxt (sender w)) < unat (snd_nxt (sender w')) \<or>
     unat (rcv_nxt (receiver w)) < unat (rcv_nxt (receiver w')) \<or> length (delivered w) < length (delivered w')"

lemma further_trans: "further w w1 \<Longrightarrow> follows w1 w2 \<Longrightarrow> further w w2" "follows w w1 \<Longrightarrow> further w1 w2 \<Longrightarrow> further w w2"
  by (auto simp: further_def follows_def)

lemma keeping_bounds:
  assumes "keeping a b w" and "length (pieces w) < 2 ^ 31"
  shows "unat (snd_nxt (sender w)) \<le> length (pieces w)" and "unat (rcv_nxt (receiver w)) \<le> length (pieces w)"
    and "length (delivered w) \<le> length (posted w)"
proof -
  obtain got where g: "keeps (pieces w) got (receiver w)" "sends (pieces w) (sender w)"
    using keeping_ends [OF assms] by metis
  show "unat (snd_nxt (sender w)) \<le> length (pieces w)" using sends_room [OF g(2) assms(2)] by simp
  show "unat (rcv_nxt (receiver w)) \<le> length (pieces w)"
    using receives_nxt(2) [of "pieces w" got] g(1) assms(2) by (simp add: keeps_def)
  have "link_ok a b w" using assms(1) by (simp add: keeping_def)
  then show "length (delivered w) \<le> length (posted w)"
    by (cases rule: link_okE) (metis length_take min.bounded_iff order_refl)
qed

lemma further_lag:
  assumes "keeping a b w" and "ready w" and "follows w w'" and "further w w'"
  shows "lag w' < lag w"
  using keeping_bounds [OF assms(1)] keeping_bounds [OF follows_keeping [OF assms(1,3)]] assms(2-4)
  unfolding lag_def further_def follows_def ready_def by auto

section \<open>Steps\<close>

text \<open>The sender flushes at any time: an update sets the clock and flushes, or a flush follows it.\<close>

lemma ticked_same:
  "snd_nxt (ticked k now tf) = snd_nxt k" "snd_una (ticked k now tf) = snd_una k"
  "snd_queue (ticked k now tf) = snd_queue k" "snd_buf (ticked k now tf) = snd_buf k"
  "current (ticked k now tf) = now" "conv (ticked k now tf) = conv k" "mem (ticked k now tf) = mem k"
  "snd_wnd (ticked k now tf) = snd_wnd k" "rmt_wnd (ticked k now tf) = rmt_wnd k"
  "cwnd (ticked k now tf) = cwnd k" "nocwnd (ticked k now tf) = nocwnd k"
  "probe_wait (ticked k now tf) = probe_wait k" "ts_probe (ticked k now tf) = ts_probe k"
  by (simp_all add: ticked_def)

lemma ticked_able: "able k \<Longrightarrow> able (ticked k now tf)"
  by (simp add: able_def ticked_frame ticked_same)

lemma keeping_ticked: "keeping a b w \<Longrightarrow> keeping a b (w\<lparr>sender := ticked (sender w) now tf\<rparr>)"
  by (auto simp: keeping_def link_ok_def kcp_inv_def ticked_wf ticked_frame ticked_same sends_def kept_def)

lemma flush_able:
  assumes "kcp_wf k" and "able k" and "ikcp_flush k = Inr (sent, k')"
  shows "able k' \<and> snd_wnd k' = snd_wnd k"
  using flush_stays [OF assms(1) _ _ assms(3)] flush_mem [OF assms(1) _ assms(3)] assms(2)
  by (simp add: able_def untouched_def settings_def)

lemma sender_flush:
  fixes now :: u32
  assumes "keeping a b w" and "ready w"
  obtains tf sent k w' where "ikcp_flush (ticked (sender w) now tf) = Inr (sent, k)" and "follows w w'"
    and "w' = w\<lparr>sender := k, forward := forward w'\<rparr>" and "set sent \<subseteq> forward w'"
proof -
  let ?k = "sender w"
  have short: "length (pieces w) < 2 ^ 31" using assms(2) by (simp add: ready_def)
  obtain got where e: "kcp_wf ?k" "unat (snd_nxt ?k) + length (snd_queue ?k) < 2 ^ 31" "kcp_inv a ?k"
    using keeping_ends [OF assms(1) short] by metis
  have able: "able ?k" using assms(2) by (simp add: ready_def)
  then have cb: "output_cb ?k" "updated ?k \<noteq> 0" by (simp_all add: able_def)
  have ready': "follows w (w\<lparr>sender := k, forward := F\<rparr>)"
    if f: "ikcp_flush (ticked ?k now tf) = Inr (sent, k)"
      and r: "closed.run w events (w\<lparr>sender := k, forward := F\<rparr>)" for tf sent k events F
  proof -
    let ?t = "ticked ?k now tf"
    have wf: "kcp_wf ?t" using e(1) by (rule ticked_wf)
    have a: "able k" "snd_wnd k = snd_wnd ?k"
      using flush_able [OF wf ticked_able [OF able] f] by (simp_all add: ticked_same)
    have "snd_nxt k = snd_nxt ?k + of_nat (window_room ?t)"
      using flush_window [OF wf _ f] cb by (simp add: ticked_frame ticked_same)
    moreover have "window_room ?t \<le> length (snd_queue ?k)"
      using window_room_le [of ?t] by (simp add: ticked_same)
    ultimately have "unat (snd_nxt ?k) \<le> unat (snd_nxt k)"
      using e(2) by (simp add: unat_add32 unat_of_nat32)
    then show ?thesis using a r assms(2) by (auto simp: follows_def ready_def)
  qed
  obtain s1 k1 where u: "ikcp_update ?k now = Inr (s1, k1)"
    using update_returns [OF e(1) cb(1), of a now] e(3) by (auto simp: kcp_inv_def)
  have step: "closed_step w (Sender_call (Update now)) (w\<lparr>sender := k1, forward := forward w \<union> set s1\<rparr>)"
    using link_step.sender_call [of "Update now" w 0 "[]" s1 k1] u cb(1)
    by (simp add: closed_step_def faithful_def)
  from e(1) u cb(1) show ?thesis
  proof (cases rule: update_cases)
    case quiet
    have k1: "k1 = ticked ?k now (ts_flush ?k)" using quiet(2,3) by (simp add: ticked_def)
    have "kcp_wf k1" "output_cb k1" "updated k1 \<noteq> 0"
      unfolding k1 using e(1) cb by (simp_all add: ticked_wf ticked_frame)
    then obtain s2 k2 where f: "ikcp_flush k1 = Inr (s2, k2)" using flush_result by blast
    let ?w1 = "w\<lparr>sender := k1, forward := forward w \<union> set s1\<rparr>"
    let ?w2 = "w\<lparr>sender := k2, forward := forward ?w1 \<union> set s2\<rparr>"
    have "closed_step ?w1 (Sender_call Flush) ?w2"
      using link_step.sender_call [of Flush ?w1 0 "[]" s2 k2] f \<open>output_cb k1\<close>
      by (simp add: closed_step_def faithful_def)
    then have "closed.run w [Sender_call (Update now), Sender_call Flush] ?w2"
      using step by (blast intro: closed.run.intros)
    from that [OF f [unfolded k1] ready' [OF f [unfolded k1] this]] show ?thesis by simp
  next
    case flushed
    have "closed.run w [Sender_call (Update now)] (w\<lparr>sender := k1, forward := forward w \<union> set s1\<rparr>)"
      using step by (blast intro: closed.run.intros)
    from that [OF flushed(1) ready' [OF flushed(1) this]] show ?thesis by simp
  qed
qed

text \<open>Datagrams of the sender arrive, those of the receiver are given to the sender.\<close>

lemma arrive_run:
  "set ds \<subseteq> forward w \<Longrightarrow> hand_over ds (receiver w) = Inr r \<Longrightarrow>
   closed.run w (map Arrive ds) (w\<lparr>receiver := r\<rparr>)"
proof (induction ds arbitrary: w)
  case Nil
  then have "w\<lparr>receiver := r\<rparr> = w" by (cases w) simp
  then show ?case by (simp add: closed.run.stop)
next
  case (Cons d ds)
  obtain x r1 where r1: "ikcp_input (receiver w) (Some d) = Inr (x, r1)" "hand_over ds r1 = Inr r"
    using Cons.prems(2) by (auto elim: bindE_InrE split: prod.splits)
  have "closed_step w (Arrive d) (w\<lparr>receiver := r1\<rparr>)"
    using link_step.arrive [of d w x r1] Cons.prems(1) r1(1) by (simp add: closed_step_def faithful_def)
  moreover have "closed.run (w\<lparr>receiver := r1\<rparr>) (map Arrive ds) (w\<lparr>receiver := r\<rparr>)"
    using Cons.IH [of "w\<lparr>receiver := r1\<rparr>"] Cons.prems(1) r1(2) by simp
  ultimately show ?case by (auto intro: closed.run.more)
qed

lemma answer_run:
  "set ds \<subseteq> backward w \<Longrightarrow> hand_over ds (sender w) = Inr k \<Longrightarrow>
   closed.run w (map (\<lambda>d. Sender_call (Input (Some d))) ds) (w\<lparr>sender := k\<rparr>)"
proof (induction ds arbitrary: w)
  case Nil
  then have "w\<lparr>sender := k\<rparr> = w" by (cases w) simp
  then show ?case by (simp add: closed.run.stop)
next
  case (Cons d ds)
  obtain x k1 where k1: "ikcp_input (sender w) (Some d) = Inr (x, k1)" "hand_over ds k1 = Inr k"
    using Cons.prems(2) by (auto elim: bindE_InrE split: prod.splits)
  have "closed_step w (Sender_call (Input (Some d))) (w\<lparr>sender := k1\<rparr>)"
    using link_step.sender_call [of "Input (Some d)" w x "[]" "[]" k1] Cons.prems(1) k1(1)
    by (simp add: closed_step_def faithful_def)
  moreover have "closed.run (w\<lparr>sender := k1\<rparr>) (map (\<lambda>d. Sender_call (Input (Some d))) ds) (w\<lparr>sender := k\<rparr>)"
    using Cons.IH [of "w\<lparr>sender := k1\<rparr>"] Cons.prems(1) k1(2) by simp
  ultimately show ?case by (auto intro: closed.run.more)
qed

lemma receiver_flush:
  assumes "keeping a b w" and "ready w"
  obtains replies r w' where "ikcp_flush (receiver w) = Inr (replies, r)" and "follows w w'"
    and "w' = w\<lparr>receiver := r, backward := backward w \<union> set replies\<rparr>" and "same_rcv (receiver w) r"
    and "announced r = announced (receiver w)" and "ackcount r = 0"
proof -
  let ?r = "receiver w"
  have short: "length (pieces w) < 2 ^ 31" using assms(2) by (simp add: ready_def)
  then have wf: "kcp_wf ?r" using assms(1) by (simp add: keeping_def link_ok_def kcp_inv_def)
  have able: "able ?r" using assms(2) by (simp add: ready_def)
  then have cb: "output_cb ?r" "updated ?r \<noteq> 0" by (simp_all add: able_def)
  obtain replies r where f: "ikcp_flush ?r = Inr (replies, r)" using flush_result [OF wf cb] by blast
  let ?w = "w\<lparr>receiver := r, backward := backward w \<union> set replies\<rparr>"
  have "closed_step w (Receiver_call Flush) ?w"
    using link_step.receiver_call [of Flush w 0 "[]" replies r] f cb(1)
    by (simp add: closed_step_def faithful_def)
  then have run: "closed.run w [Receiver_call Flush] ?w" by (blast intro: closed.run.intros)
  note stays = flush_stays [OF wf cb f]
  have same: "same_rcv ?r r" using flush_rcv [OF wf cb(1) f] by (simp add: same_rcv_def)
  have "kcp_wf r" using flush_keeps_wf [OF wf cb(1) f] .
  then have "settled r" using settled_same [OF same wf] stays assms(2) by (simp add: ready_def)
  moreover have "able r" using flush_able [OF wf able f] by simp
  ultimately have "follows w ?w"
    using run stays same assms(2) by (auto simp: follows_def ready_def same_rcv_def)
  moreover have "announced r = announced ?r"
    using stays by (simp add: announced_def control_segment_def ikcp_wnd_unused_def)
  ultimately show ?thesis using that [OF f] same stays by simp
qed

text \<open>The numbers in the send buffer are below the next one.\<close>

lemma sender_numbers:
  assumes "kcp_wf k" and "sends ps k" and "length ps < 2 ^ 30" and "sn \<in> sns k"
  shows "unat sn < unat (snd_nxt k)"
proof -
  have wf: "snd_ordered (snd_una k) (snd_buf k) (snd_nxt k)" "first_sn (snd_nxt k) (snd_buf k) = snd_una k"
    "unat (snd_nxt k - snd_una k) < 65536"
    using assms(1) by (simp_all add: kcp_wf_def wf_snd_alt)
  obtain s where s: "s \<in> set (snd_buf k)" "sn = seg_sn s" using assms(4) by (auto simp: sns_def)
  have small: "unat (seg_sn t) < 2 ^ 30" if "t \<in> set (snd_buf k)" for t
    using assms(2,3) that genuine_below [of ps "seg_sn t" "piece t"] by (auto simp: sends_def)
  obtain t ts where "snd_buf k = t # ts" using s(1) by (cases "snd_buf k") auto
  then have una: "unat (snd_una k) < 2 ^ 30" using small [of t] wf(2) by simp
  have sum: "unat (snd_una k + d) = unat (snd_una k) + unat d" if "unat d < 65536" for d
    using una that by (intro unat_add32) simp
  have "unat (sn - snd_una k) < unat (snd_nxt k - snd_una k)"
    using snd_ordered_window [OF wf(1) s(1)] s(2) by simp
  then show ?thesis
    using sum [of "sn - snd_una k"] sum [of "snd_nxt k - snd_una k"] wf(3) by simp
qed

section \<open>An exchange\<close>

text \<open>The receiver takes the datagrams of the flush of \<open>t\<close>.\<close>

lemma arrivals:
  assumes "keeping a b w" and "ready w" and "ackcount (receiver w) = 0"
    and "keeping a b w1" and "ready w1" and "w1 = w\<lparr>sender := k, forward := F\<rparr>"
    and "ikcp_flush (ticked (sender w) now tf) = Inr (sent, k)" and "set sent \<subseteq> F"
  defines "t \<equiv> ticked (sender w) now tf"
  obtains r where "follows w1 (w1\<lparr>receiver := r\<rparr>)" and "advances (receiver w) r"
    and "unat (ackcount r) < 2 ^ 31"
    and "\<forall>seg \<in> set (data_plan t). within (receiver w) (h_sn (fst seg)) \<longrightarrow> received r seg"
    and "(\<exists>seg \<in> set (probe_plan t). h_cmd (fst seg) = 83) \<longrightarrow> asked r"
proof -
  let ?w0 = "w\<lparr>sender := t\<rparr>" and ?r = "receiver w"
  have k0: "keeping a b ?w0" unfolding t_def using assms(1) by (rule keeping_ticked)
  have rw: "length (pieces w) < 2 ^ 30" "able (sender w)" "able ?r" "unat (rcv_wnd ?r) < 65536"
    using assms(2) by (simp_all add: ready_def)
  then have t: "able t" unfolding t_def by (simp add: ticked_able)
  then have cb: "output_cb t" "updated t \<noteq> 0" by (simp_all add: able_def)
  have f: "ikcp_flush t = Inr (sent, k)" using assms(7) by (simp add: t_def)
  have "plentiful (mem ?r)" using rw(3) by (simp add: able_def)
  then obtain r where r: "hand_over sent ?r = Inr r" "kcp_inv b r" "gains 65535 ?r r"
    "\<forall>seg \<in> set (data_plan t). within ?r (h_sn (fst seg)) \<longrightarrow> received r seg"
    using flush_received [OF k0, of sent k] rw cb f assms(3) by auto
  have inv: "kcp_inv b ?r" "kcp_wf t" "wf_wire t" "conv t = conv ?r"
    using k0 by (simp_all add: keeping_def link_ok_def kcp_inv_def)
  have "plentiful (mem r)" using hand_over_returns [OF inv(1), of sent] r(1) rw(3) by (auto simp: able_def)
  then have able: "able r" "rcv_wnd r = rcv_wnd ?r" "unat (rcv_nxt ?r) \<le> unat (rcv_nxt r)"
    using r(3) rw(3) by (auto simp: able_def gains_def untouched_def settings_def later_def)
  have wf: "kcp_wf ?r" using inv(1) by (simp add: kcp_inv_def)
  obtain dgs where d: "sent = map datagram dgs" "concat dgs = flush_plan t"
    using flush_datagrams [OF inv(2,3) cb f] .
  have a: "\<forall>seg \<in> set (concat dgs). acceptable (conv ?r) seg"
    using plan_acceptable [OF inv(2,3)] d(2) inv(4) by simp
  then have ab: "absorbs (concat dgs) ?r r" using hand_over_absorbs r(1) d(1) by blast
  have "settled r" using absorbs_settled [OF ab wf a] assms(2) by (simp add: ready_def)
  moreover have "closed.run w1 (map Arrive sent) (w1\<lparr>receiver := r\<rparr>)"
    using arrive_run [of sent w1 r] r(1) assms(6,8) by simp
  ultimately have "follows w1 (w1\<lparr>receiver := r\<rparr>)"
    using assms(5) able unfolding assms(6) by (auto simp: follows_def ready_def)
  moreover have "unat (ackcount r) < 2 ^ 31" using r(3) assms(3) by (simp add: gains_def)
  moreover have "(\<exists>seg \<in> set (probe_plan t). h_cmd (fst seg) = 83) \<longrightarrow> asked r"
    using absorbs_asked [OF ab] d(2) by (auto simp: flush_plan_def)
  ultimately show ?thesis using that absorbs_advances [OF ab wf a] r(4) by blast
qed

text \<open>The sender takes the datagrams of the receiver's flush.\<close>

lemma answers_taken:
  assumes "keeping a b w" and "ready w" and "follows w w1"
    and "ikcp_flush (receiver w) = Inr (replies, r')"
    and "w1 = w\<lparr>receiver := r', backward := backward w \<union> set replies\<rparr>"
  obtains k where "follows w1 (w1\<lparr>sender := k\<rparr>)" and "snd_nxt k = snd_nxt (sender w)"
    and "flush_plan (receiver w) \<noteq> [] \<longrightarrow> rmt_wnd k = announced (receiver w) \<and>
      (unat (snd_nxt (sender w)) \<le> unat (rcv_nxt (receiver w)) \<longrightarrow> snd_buf k = [])"
proof -
  let ?r = "receiver w" and ?k = "sender w"
  have short: "length (pieces w) < 2 ^ 31" using assms(2) by (simp add: ready_def)
  obtain got where e: "kcp_inv a ?k" "kcp_inv b ?r" "conv ?r = conv ?k" "sends (pieces w) ?k"
      "unat (rcv_nxt ?r) < 2 ^ 31"
    using keeping_ends [OF assms(1) short] by metis
  then have wf: "kcp_wf ?k" "kcp_wf ?r" "wf_wire ?r" by (simp_all add: kcp_inv_def)
  have able: "able ?k" "able ?r" using assms(2) by (simp_all add: ready_def)
  then have cb: "output_cb ?r" "updated ?r \<noteq> 0" by (simp_all add: able_def)
  obtain dgs where d: "replies = map datagram dgs" "concat dgs = flush_plan ?r"
    using flush_datagrams [OF wf(2,3) cb assms(4)] .
  obtain k where k: "hand_over replies ?k = Inr k" "plentiful (mem k)"
    using hand_over_returns [OF e(1), of replies] able(1) by (auto simp: able_def)
  have a: "\<forall>seg \<in> set (concat dgs). acceptable (conv ?k) seg"
    using plan_acceptable [OF wf(2,3)] d(2) e(3) by simp
  then have ab: "absorbs (concat dgs) ?k k" using hand_over_absorbs k(1) d(1) by blast
  have adv: "snd_nxt k = snd_nxt ?k" "untouched k = untouched ?k"
    using absorbs_advances [OF ab wf(1) a] by (simp_all add: advances_def)
  then have "able k" "snd_wnd k = snd_wnd ?k"
    using able(1) k(2) by (auto simp: able_def untouched_def settings_def)
  moreover have "closed.run w1 (map (\<lambda>d. Sender_call (Input (Some d))) replies) (w1\<lparr>sender := k\<rparr>)"
    using answer_run [of replies w1 k] k(1) assms(5) by simp
  ultimately have "follows w1 (w1\<lparr>sender := k\<rparr>)"
    using assms(3) adv(1) unfolding assms(5) by (auto simp: follows_def ready_def)
  moreover have "rmt_wnd k = announced ?r \<and> (unat (snd_nxt ?k) \<le> unat (rcv_nxt ?r) \<longrightarrow> snd_buf k = [])"
    if ne: "flush_plan ?r \<noteq> []"
  proof -
    have "\<forall>seg \<in> set (concat dgs). h_una (fst seg) = rcv_nxt ?r \<and> ucast (h_wnd (fst seg)) = announced ?r"
      unfolding d(2) using plan_announces [of _ ?r] by blast
    note i = absorbs_informs [OF ab wf(1) a this]
    have "0 < itimediff (rcv_nxt ?r) sn"
      if "unat (snd_nxt ?k) \<le> unat (rcv_nxt ?r)" "sn \<in> sns ?k" for sn
    proof -
      have "unat sn < unat (snd_nxt ?k)"
        using sender_numbers [OF wf(1) e(4) _ that(2)] assms(2) by (simp add: ready_def)
      then show ?thesis using itimediff_below(2) [of "rcv_nxt ?r" sn] that(1) e(5) by simp
    qed
    then show ?thesis using i ne d(2) by auto
  qed
  ultimately show ?thesis using that adv(1) by blast
qed

text \<open>One round trip: what the receiver has then, and what the sender has learnt.\<close>

lemma exchange:
  fixes now :: u32
  assumes "keeping a b w" and "ready w"
  obtains tf w' where "follows w w'"
    and "\<forall>seg \<in> set (data_plan (ticked (sender w) now tf)).
      within (receiver w) (h_sn (fst seg)) \<longrightarrow> reached (receiver w') (h_sn (fst seg))"
    and "rcv_nxt (receiver w') = rcv_nxt (receiver w) \<longrightarrow> nrcv_que (receiver w') = nrcv_que (receiver w)"
    and "(\<exists>seg \<in> set (data_plan (ticked (sender w) now tf)). within (receiver w) (h_sn (fst seg))) \<or>
      (\<exists>seg \<in> set (probe_plan (ticked (sender w) now tf)). h_cmd (fst seg) = 83) \<longrightarrow>
      rmt_wnd (sender w') = announced (receiver w') \<and>
      (unat (snd_nxt (sender w')) \<le> unat (rcv_nxt (receiver w')) \<longrightarrow> snd_buf (sender w') = [])"
proof -
  obtain replies0 r0 w0 where w0: "follows w w0" "w0 = w\<lparr>receiver := r0, backward := backward w \<union> set replies0\<rparr>"
    "same_rcv (receiver w) r0" "ackcount r0 = 0"
    using receiver_flush [OF assms] by metis
  have k0: "keeping a b w0" "ready w0"
    using follows_ok [OF assms(1) w0(1)] by simp_all
  obtain tf sent k w1 where w1: "ikcp_flush (ticked (sender w0) now tf) = Inr (sent, k)" "follows w0 w1"
    "w1 = w0\<lparr>sender := k, forward := forward w1\<rparr>" "set sent \<subseteq> forward w1"
    using sender_flush [OF k0] by metis
  have k1: "keeping a b w1" "ready w1"
    using follows_ok [OF k0(1) w1(2)] by simp_all
  let ?t = "ticked (sender w) now tf"
  have same: "sender w0 = sender w" "receiver w0 = r0" "ackcount (receiver w0) = 0"
    using w0(2,4) by simp_all
  obtain r where r: "follows w1 (w1\<lparr>receiver := r\<rparr>)" "advances r0 r" "unat (ackcount r) < 2 ^ 31"
    "\<forall>seg \<in> set (data_plan ?t). within r0 (h_sn (fst seg)) \<longrightarrow> received r seg"
    "(\<exists>seg \<in> set (probe_plan ?t). h_cmd (fst seg) = 83) \<longrightarrow> asked r"
    using arrivals [OF k0 same(3) k1 w1(3,1,4)] unfolding same(1,2) by metis
  let ?w2 = "w1\<lparr>receiver := r\<rparr>"
  have k2: "keeping a b ?w2" "ready ?w2"
    using follows_ok [OF k1(1) r(1)] by simp_all
  have r2: "receiver ?w2 = r" by simp
  obtain replies r' w3 where w3: "ikcp_flush (receiver ?w2) = Inr (replies, r')" "follows ?w2 w3"
    "w3 = ?w2\<lparr>receiver := r', backward := backward ?w2 \<union> set replies\<rparr>" "same_rcv r r'"
    "announced r' = announced r"
    by (rule receiver_flush [OF k2, unfolded r2]) (simp add: r2)
  obtain k' where k': "follows w3 (w3\<lparr>sender := k'\<rparr>)" "snd_nxt k' = snd_nxt (sender ?w2)"
    "flush_plan r \<noteq> [] \<longrightarrow> rmt_wnd k' = announced r \<and>
      (unat (snd_nxt (sender ?w2)) \<le> unat (rcv_nxt r) \<longrightarrow> snd_buf k' = [])"
    by (rule answers_taken [OF k2 w3(2,1,3), unfolded r2]) simp
  let ?w = "w3\<lparr>sender := k'\<rparr>"
  have "follows w ?w" using w0(1) w1(2) r(1) w3(2) k'(1) follows_trans by meson
  moreover have within: "within r0 = within (receiver w)"
    using w0 by (auto simp: follows_def same_rcv_def within_def fun_eq_iff)
  then have "\<forall>seg \<in> set (data_plan ?t). within (receiver w) (h_sn (fst seg)) \<longrightarrow> reached (receiver ?w) (h_sn (fst seg))"
    using r(4) same_reached [OF w3(4)] w3(3) by (simp add: received_def)
  moreover have "nrcv_que (receiver ?w) = nrcv_que (receiver w)"
    if nxt: "rcv_nxt (receiver ?w) = rcv_nxt (receiver w)"
  proof -
    have wf: "wf_rcv r'" "wf_rcv (receiver w)"
      using follows_keeping [OF k2(1) w3(2)] assms(1) w3(3)
      by (simp_all add: keeping_def link_ok_def kcp_inv_def kcp_wf_def)
    obtain new where new: "rcv_queue r = rcv_queue r0 @ new" "rcv_nxt r = rcv_nxt r0 + of_nat (length new)"
      using r(2) by (auto simp: advances_def)
    have q: "rcv_queue r' = rcv_queue (receiver w) @ new" "of_nat (length new) = (0 :: u32)"
      using new nxt w3(3,4) w0(3) by (simp_all add: same_rcv_def)
    then have "length new < 2 ^ 32" using wf(1) by (simp add: wf_rcv_def)
    then have "new = []" using q(2) unat_of_nat32 [of "length new"] by simp
    then show ?thesis using wf q(1) w3(3) by (simp add: wf_rcv_def)
  qed
  moreover have "rmt_wnd (sender ?w) = announced (receiver ?w) \<and>
      (unat (snd_nxt (sender ?w)) \<le> unat (rcv_nxt (receiver ?w)) \<longrightarrow> snd_buf (sender ?w) = [])"
    if "(\<exists>seg \<in> set (data_plan ?t). within (receiver w) (h_sn (fst seg))) \<or>
      (\<exists>seg \<in> set (probe_plan ?t). h_cmd (fst seg) = 83)"
  proof -
    have "pending_acks r \<noteq> [] \<or> asked r"
      using that r(4,5) unfolding within by (auto simp: received_def)
    then have "flush_plan r \<noteq> []"
      using pending_flushed [OF r(3)] asked_plan [of r] by (auto simp: flush_plan_def ack_plan_def)
    then show ?thesis using k'(2,3) w3 by (simp add: same_rcv_def)
  qed
  ultimately show ?thesis using that by blast
qed

end
