(* ===== verification/Drain.thy ===== *)
theory Drain
  imports Moves
begin

text \<open>
  Liveness of the closed system: from every state that its clients have set up and that the network
  has brought about, there is a continuation in which every accepted message is delivered.
\<close>

section \<open>Progress\<close>

text \<open>A segment of the send buffer is due at its time, and its number is sent.\<close>

lemma due_sent:
  assumes "s \<in> set (snd_buf k)"
  shows "\<exists>seg \<in> set (data_plan (ticked k (seg_resendts s) tf)). h_sn (fst seg) = seg_sn s"
proof -
  let ?t = "ticked k (seg_resendts s) tf"
  let ?seg = "stamped ?t (seg_wnd (control_segment ?t)) s"
  have "due (flush_resent ?t) ?t s" by (simp add: due_def ticked_same)
  then have "?seg \<in> set (data_plan ?t)" using assms by (auto simp: data_plan_def Let_def ticked_same)
  moreover have "h_sn (fst ?seg) = seg_sn s" by (simp add: stamped_def header_of_def)
  ultimately show ?thesis by blast
qed

text \<open>Some number below \<open>rcv_nxt\<close>, and the next one when the window is not empty, are in the window.\<close>

lemma within_next: "0 < rcv_wnd k \<Longrightarrow> unat (rcv_wnd k) < 65536 \<Longrightarrow> within k (rcv_nxt k)"
  using window_open [of "rcv_nxt k" "rcv_nxt k" "rcv_wnd k"]
  by (simp add: within_def word_less_nat_alt)

lemma within_below:
  assumes "unat sn < unat (rcv_nxt k)" and "unat (rcv_nxt k) < 2 ^ 30" and "unat (rcv_wnd k) < 65536"
  shows "within k sn"
proof -
  have "unat (rcv_nxt k + rcv_wnd k) = unat (rcv_nxt k) + unat (rcv_wnd k)"
    using assms by (intro unat_add32) simp
  then show ?thesis using assms itimediff_below(1) [of sn "rcv_nxt k + rcv_wnd k"] by (simp add: within_def)
qed

text \<open>The next segment is sent again when its time has come, and moves the receiver on.\<close>

lemma retransmit:
  assumes "keeping a b w" and "ready w" and "unat (rcv_nxt (receiver w)) < unat (snd_nxt (sender w))"
    and "nrcv_que (receiver w) < rcv_wnd (receiver w)"
  obtains w' where "follows w w'" and "further w w'"
proof -
  let ?r = "receiver w"
  have wf: "wf_rcv ?r" using assms(1) by (simp add: keeping_def link_ok_def kcp_inv_def kcp_wf_def)
  have "settled ?r" using assms(2) by (simp add: ready_def)
  then have "\<not> reached ?r (rcv_nxt ?r)" using settled_next wf assms(4) by blast
  then have "rcv_nxt ?r \<in> seg_sn ` set (snd_buf (sender w))"
    using assms(1,3) by (auto simp: keeping_def kept_def)
  then obtain s where s: "s \<in> set (snd_buf (sender w))" "seg_sn s = rcv_nxt ?r" by auto
  obtain tf w' where w': "follows w w'"
    "\<forall>seg \<in> set (data_plan (ticked (sender w) (seg_resendts s) tf)).
      within ?r (h_sn (fst seg)) \<longrightarrow> reached (receiver w') (h_sn (fst seg))"
    "rcv_nxt (receiver w') = rcv_nxt ?r \<longrightarrow> nrcv_que (receiver w') = nrcv_que ?r"
    using exchange [OF assms(1,2)] by metis
  have "0 < rcv_wnd ?r" using assms(4) by (metis not_less0 word_less_nat_alt unat_0 word_gt_0 word_not_simps(1))
  then have "within ?r (rcv_nxt ?r)" using within_next assms(2) by (simp add: ready_def)
  then have reached: "reached (receiver w') (rcv_nxt ?r)" using w'(2) due_sent [OF s(1)] s(2) by metis
  have "rcv_nxt (receiver w') \<noteq> rcv_nxt ?r"
  proof
    assume same: "rcv_nxt (receiver w') = rcv_nxt ?r"
    have "keeping a b w'" using follows_keeping assms(1) w'(1) by blast
    then have "wf_rcv (receiver w')" by (simp add: keeping_def link_ok_def kcp_inv_def kcp_wf_def)
    moreover have "settled (receiver w')" "nrcv_que (receiver w') < rcv_wnd (receiver w')"
      using w'(1,3) same assms(4) by (simp_all add: follows_def ready_def)
    ultimately show False using settled_next [of "receiver w'"] reached same by simp
  qed
  then have "unat (rcv_nxt (receiver w')) \<noteq> unat (rcv_nxt ?r)" by (simp add: word_unat_eq_iff)
  then have "further w w'" using w'(1) by (auto simp: follows_def further_def)
  with w'(1) show ?thesis by (rule that)
qed

text \<open>A sender without unacknowledged segments that knows of room at the receiver.\<close>

definition clear :: "link \<Rightarrow> bool" where
  "clear w \<longleftrightarrow> snd_buf (sender w) = [] \<and> rmt_wnd (sender w) \<noteq> 0"

lemma exchange_clears:
  assumes "keeping a b w" and "ready w" and "unat (snd_nxt (sender w)) \<le> unat (rcv_nxt (receiver w))"
    and "nrcv_que (receiver w) < rcv_wnd (receiver w)"
    and "\<And>tf. (\<exists>seg \<in> set (data_plan (ticked (sender w) now tf)). within (receiver w) (h_sn (fst seg))) \<or>
      (\<exists>seg \<in> set (probe_plan (ticked (sender w) now tf)). h_cmd (fst seg) = 83)"
  obtains w' where "follows w w'" and "further w w' \<or> clear w'"
proof -
  obtain w' where w': "follows w w'"
    "rcv_nxt (receiver w') = rcv_nxt (receiver w) \<longrightarrow> nrcv_que (receiver w') = nrcv_que (receiver w)"
    "rmt_wnd (sender w') = announced (receiver w')"
    "unat (snd_nxt (sender w')) \<le> unat (rcv_nxt (receiver w')) \<longrightarrow> snd_buf (sender w') = []"
    using exchange [OF assms(1,2), of now] assms(5) by metis
  have "clear w'" if "\<not> further w w'"
  proof -
    have same: "snd_nxt (sender w') = snd_nxt (sender w)" "rcv_nxt (receiver w') = rcv_nxt (receiver w)"
      using that w'(1) by (simp_all add: further_def follows_def word_unat_eq_iff)
    have "keeping a b w'" using follows_keeping assms(1) w'(1) by blast
    then have "wf_rcv (receiver w')" by (simp add: keeping_def link_ok_def kcp_inv_def kcp_wf_def)
    moreover have "nrcv_que (receiver w') < rcv_wnd (receiver w')" "unat (rcv_wnd (receiver w')) < 65536"
      using w'(1,2) same assms(2,4) by (simp_all add: follows_def ready_def)
    ultimately have "0 < announced (receiver w')" by (rule announced_room)
    then show ?thesis using w'(3,4) same assms(3) by (auto simp: clear_def)
  qed
  then show ?thesis using that w'(1) by blast
qed

lemma acknowledged:
  assumes "keeping a b w" and "ready w" and "unat (snd_nxt (sender w)) \<le> unat (rcv_nxt (receiver w))"
    and "nrcv_que (receiver w) < rcv_wnd (receiver w)" and "snd_buf (sender w) \<noteq> []"
  obtains w' where "follows w w'" and "further w w' \<or> clear w'"
proof -
  let ?k = "sender w" and ?r = "receiver w"
  have short: "length (pieces w) < 2 ^ 31" "length (pieces w) < 2 ^ 30" using assms(2) by (simp_all add: ready_def)
  obtain got where e: "kcp_wf ?k" "sends (pieces w) ?k"
    using keeping_ends [OF assms(1) short(1)] by metis
  obtain s ss where s: "snd_buf ?k = s # ss" using assms(5) by (cases "snd_buf ?k") auto
  then have "unat (seg_sn s) < unat (snd_nxt ?k)"
    using sender_numbers [OF e short(2), of "seg_sn s"] by (simp add: sns_def)
  then have "within ?r (seg_sn s)"
    using assms(2,3) keeping_bounds(2) [OF assms(1) short(1)]
    by (intro within_below) (auto simp: ready_def)
  then have "\<exists>seg \<in> set (data_plan (ticked ?k (seg_resendts s) tf)). within ?r (h_sn (fst seg))" for tf
    using due_sent [of s ?k tf] s by (metis list.set_intros(1))
  then show ?thesis using exchange_clears [OF assms(1-4), of "seg_resendts s"] that by blast
qed

text \<open>The window probe, when its time has come.\<close>

lemma probe_due:
  assumes "rmt_wnd k = 0" and "probe_wait k \<noteq> 0"
  shows "\<exists>seg \<in> set (probe_plan (ticked k (ts_probe k) tf)). h_cmd (fst seg) = 83"
proof -
  let ?t = "ticked k (ts_probe k) tf"
  have "(p OR 1) AND 1 = (1 :: u32)" for p by (simp add: word_bw_comms word_ao_absorbs)
  then have "probe (probe_timer ?t) AND IKCP_ASK_SEND \<noteq> 0"
    using assms by (simp add: probe_timer_def ticked_same Let_def)
  then show ?thesis by (simp add: probe_plan_def header_of_def Let_def)
qed

lemma probed:
  assumes "keeping a b w" and "ready w" and "unat (snd_nxt (sender w)) \<le> unat (rcv_nxt (receiver w))"
    and "nrcv_que (receiver w) < rcv_wnd (receiver w)"
    and "rmt_wnd (sender w) = 0" and "probe_wait (sender w) \<noteq> 0"
  obtains w' where "follows w w'" and "further w w' \<or> clear w'"
  using exchange_clears [OF assms(1-4), of "ts_probe (sender w)"] probe_due [OF assms(5,6)] that by blast

text \<open>A flush admits as many segments as the window has room for.\<close>

lemma flush_move:
  assumes "keeping a b w" and "ready w"
  obtains w' where "follows w w'" and "receiver w' = receiver w"
    and "unat (snd_nxt (sender w')) = unat (snd_nxt (sender w)) + window_room (sender w)"
    and "window_room (sender w) = 0 \<longrightarrow> snd_queue (sender w') = snd_queue (sender w) \<and>
      (snd_buf (sender w) = [] \<longrightarrow> snd_buf (sender w') = [])"
    and "rmt_wnd (sender w') = rmt_wnd (sender w)" and "cwnd (sender w') \<noteq> 0"
    and "rmt_wnd (sender w) = 0 \<and> probe_wait (sender w) = 0 \<longrightarrow> probe_wait (sender w') \<noteq> 0"
proof -
  let ?k = "sender w"
  have short: "length (pieces w) < 2 ^ 31" using assms(2) by (simp add: ready_def)
  obtain got where e: "kcp_wf ?k" "unat (snd_nxt ?k) + length (snd_queue ?k) < 2 ^ 31"
    using keeping_ends [OF assms(1) short] by metis
  obtain tf sent k w' where f: "ikcp_flush (ticked ?k 0 tf) = Inr (sent, k)" "follows w w'"
    "w' = w\<lparr>sender := k, forward := forward w'\<rparr>"
    using sender_flush [OF assms, of 0] by metis
  let ?t = "ticked ?k 0 tf"
  have t: "kcp_wf ?t" "output_cb ?t" "updated ?t \<noteq> 0"
    using e(1) assms(2) by (simp_all add: ticked_wf ticked_frame ready_def able_def)
  have room: "window_room ?t = window_room ?k"
    by (simp add: window_room_def flush_cwnd_def ticked_same Let_def)
  note win = flush_window [OF t(1,3) f(1) t(2), unfolded room ticked_same]
  note stays = flush_stays [OF t f(1), unfolded ticked_same]
  have "unat (snd_nxt ?k + of_nat (window_room ?k)) = unat (snd_nxt ?k) + window_room ?k"
    using e(2) window_room_le [of ?k] by (simp add: unat_add32 unat_of_nat32)
  then have nxt: "unat (snd_nxt k) = unat (snd_nxt ?k) + window_room ?k" using win by simp
  have buf: "window_room ?k = 0 \<Longrightarrow> snd_buf ?k = [] \<Longrightarrow> snd_buf k = []" using win by auto
  have sk: "sender w' = k" "receiver w' = receiver w" using f(3) by (cases w', simp)+
  show ?thesis
    by (rule that [OF f(2) sk(2)]) (use sk(1) nxt win stays buf in simp_all)
qed

lemma unprobed:
  assumes "keeping a b w" and "ready w" and "unat (snd_nxt (sender w)) \<le> unat (rcv_nxt (receiver w))"
    and "nrcv_que (receiver w) < rcv_wnd (receiver w)" and "rmt_wnd (sender w) = 0"
  obtains w' where "follows w w'" and "further w w' \<or> clear w'"
proof (cases "probe_wait (sender w) = 0")
  case True
  obtain w1 where w1: "follows w w1" "receiver w1 = receiver w"
    "rmt_wnd (sender w1) = 0" "probe_wait (sender w1) \<noteq> 0"
    using flush_move [OF assms(1,2)] assms(5) True by metis
  have k1: "keeping a b w1" "ready w1"
    using follows_ok [OF assms(1) w1(1)] by simp_all
  show ?thesis
  proof (cases "unat (snd_nxt (sender w1)) \<le> unat (rcv_nxt (receiver w1))")
    case True
    then obtain w2 where w2: "follows w1 w2" "further w1 w2 \<or> clear w2"
      using probed [OF k1 True _ w1(3,4)] assms(4) w1(2) by metis
    then show ?thesis using that follows_trans [OF w1(1)] further_trans(2) [OF w1(1)] by blast
  next
    case False
    then have "further w w1" using assms(3) w1(2) by (simp add: further_def)
    with w1(1) show ?thesis using that by blast
  qed
qed (use probed [OF assms] that in blast)

text \<open>With a window and nothing on its way, two flushes send the next segment.\<close>

lemma room_open:
  assumes "kcp_wf k" and "snd_buf k = []" and "snd_queue k \<noteq> []" and "snd_wnd k \<noteq> 0" and "rmt_wnd k \<noteq> 0"
    and "cwnd k \<noteq> 0"
  shows "0 < window_room k"
proof -
  have "snd_una k = snd_nxt k" using assms(1,2) by (simp add: kcp_wf_def wf_snd_alt)
  moreover have "flush_cwnd k \<noteq> 0" using assms(4-6) by (simp add: flush_cwnd_def imin_def Let_def)
  then have "0 < unat (flush_cwnd k)" by (simp add: unat_gt_0)
  ultimately show ?thesis using assms(3) by (simp add: window_room_def)
qed

lemma admitted_moves:
  assumes "keeping a b w" and "ready w" and "clear w" and "snd_queue (sender w) \<noteq> []"
  obtains w' where "follows w w'" and "further w w'"
proof -
  obtain w1 where w1: "follows w w1" "receiver w1 = receiver w"
    "unat (snd_nxt (sender w1)) = unat (snd_nxt (sender w)) + window_room (sender w)"
    "window_room (sender w) = 0 \<longrightarrow> snd_queue (sender w1) = snd_queue (sender w) \<and>
      (snd_buf (sender w) = [] \<longrightarrow> snd_buf (sender w1) = [])"
    "rmt_wnd (sender w1) = rmt_wnd (sender w)" "cwnd (sender w1) \<noteq> 0"
    using flush_move [OF assms(1,2)] by metis
  show ?thesis
  proof (cases "window_room (sender w) = 0")
    case False
    then have "further w w1" using w1(3) by (simp add: further_def)
    with w1(1) show ?thesis by (rule that)
  next
    case True
    have k1: "keeping a b w1" "ready w1"
      using follows_ok [OF assms(1) w1(1)] by simp_all
    then have "kcp_wf (sender w1)" "snd_wnd (sender w1) \<noteq> 0"
      by (simp_all add: keeping_def link_ok_def kcp_inv_def ready_def word_gt_0)
    then have room: "0 < window_room (sender w1)"
      using True w1(4-6) assms(3,4) by (intro room_open) (simp_all add: clear_def)
    obtain w2 where w2: "follows w1 w2"
      "unat (snd_nxt (sender w2)) = unat (snd_nxt (sender w1)) + window_room (sender w1)"
      using flush_move [OF k1] by metis
    then have "further w1 w2" using room by (simp add: further_def)
    then show ?thesis using that follows_trans [OF w1(1) w2(1)] further_trans(2) [OF w1(1)] by blast
  qed
qed

text \<open>A first message that is complete is collected.\<close>

lemma recv_done_able: "able (recv_done rec k) = able k" "rcv_wnd (recv_done rec k) = rcv_wnd k"
  by (simp_all add: recv_done_def Let_def able_def move_frame) (simp_all add: move_eq_moved moved_def)

lemma recv_done_settled: "settled (recv_done rec k)"
  using settled_move [of k] by (simp add: recv_done_def Let_def settled_def split: list.splits)

lemma recv_taken_able: "able (recv_taken ispeek k) = able k" "rcv_wnd (recv_taken ispeek k) = rcv_wnd k"
  by (simp_all add: recv_taken_def taken_def able_def)

lemma front_size:
  assumes "kcp_wf k" and "receives (concat gs) (concat (take j gs)) k" and "list_all2 message_pieces gs ms"
    and "rcv_queue k \<noteq> []" and "unat (seg_frg (hd (rcv_queue k))) < length (rcv_queue k)"
  shows "0 \<le> ikcp_peeksize k"
proof -
  let ?q = "rcv_queue k"
  have q: "map piece ?q = take (length ?q) (concat (drop j gs))" using assms(2) by (rule queue_front)
  then have "j < length gs" using assms(4) by (cases "j < length gs") auto
  then obtain g gs' m where g: "drop j gs = g # gs'" "message_pieces g m"
    using assms(3) by (metis Cons_nth_drop_Suc list_all2_nthD)
  have f: "message_of ?q = (take (length g) ?q, drop (length g) ?q)"
    "concat (map seg_data (take (length g) ?q)) = m"
    using front_message [OF q [unfolded g(1) concat.simps] g(2) assms(4)] assms(5) by auto
  have "\<forall>s \<in> set (take (length g) ?q). seg_sound s"
    using assms(1) by (auto simp: kcp_wf_def wf_rcv_def seg_received_def dest: in_set_takeD)
  moreover have "length m < 2147483648" using g(2) by (auto simp: message_pieces_def)
  ultimately have "merged_len 0 (take (length g) ?q) = int (length m)"
    using merged_len_data [of "take (length g) ?q"] f(2) by simp
  moreover have "unat (nrcv_que k) = length ?q"
    using assms(1) by (simp add: kcp_wf_def wf_rcv_def unat_of_nat32)
  moreover have "seg_frg (hd ?q) < 256"
    using assms(1,4) by (simp add: kcp_wf_def wf_rcv_def seg_received_def)
  then have "unat (seg_frg (hd ?q) + 1) = unat (seg_frg (hd ?q)) + 1"
    by (subst unat_add32) (simp_all add: word_less_nat_alt)
  ultimately show ?thesis
    using peeksize_merged [of k "hd ?q" "tl ?q"] assms(4,5) f(1) by (simp add: word_le_nat_alt)
qed

lemma collects:
  assumes "keeping a b w" and "ready w" and "rcv_queue (receiver w) \<noteq> []"
    and "unat (seg_frg (hd (rcv_queue (receiver w)))) < length (rcv_queue (receiver w))"
  obtains w' where "follows w w'" and "further w w'"
proof -
  let ?r = "receiver w"
  have ok: "link_ok a b w" and short: "length (pieces w) < 2 ^ 32"
    using assms(1,2) by (simp_all add: keeping_def ready_def)
  let ?n = "ikcp_peeksize ?r"
  have "0 \<le> ?n \<and> (\<exists>got. receives (pieces w) got ?r)"
    using ok
  proof (cases rule: link_okE)
    case (1 gs)
    then show ?thesis
      using front_size [of ?r gs "length (delivered w)" "posted w"] assms(3,4) by (auto simp: kcp_inv_def)
  qed
  then have n: "0 \<le> ?n" and recv: "\<exists>got. receives (pieces w) got ?r" by simp_all
  define k where "k = recv_done (nrcv_que ?r \<ge> rcv_wnd ?r) (recv_taken False ?r)"
  obtain out where res: "ikcp_recv ?r True ?n = (?n, out, k)"
    using recv_accepts [OF assms(3) n, of ?n True] n by (simp add: recv_room_def k_def)
  let ?w = "w\<lparr>receiver := k, delivered := delivered w @ [out]\<rparr>"
  have "closed_step w (Collect ?n) ?w"
    using link_step.collect [OF n res] n by (simp add: closed_step_def faithful_def)
  then have run: "closed.run w [Collect ?n] ?w" by (blast intro: closed.run.intros)
  have "unat (rcv_nxt ?r) \<le> unat (rcv_nxt k)"
    using later_recv [of "pieces w" _ ?r True ?n] recv short res by (auto simp: later_def)
  moreover have "able k" "rcv_wnd k = rcv_wnd ?r" "settled k"
    using assms(2) by (simp_all add: k_def recv_done_able recv_done_settled recv_taken_able ready_def)
  ultimately have "follows w ?w" using run assms(2) by (auto simp: follows_def ready_def)
  moreover have "further w ?w" by (simp add: further_def)
  ultimately show ?thesis by (rule that)
qed

section \<open>Every message arrives\<close>

text \<open>When something is left to deliver, the queue has room or its first message is complete.\<close>

lemma room_or_message:
  assumes "keeping a b w" and "ready w" and "pieces w \<noteq> []"
    and "\<not> (rcv_queue (receiver w) \<noteq> [] \<and>
      unat (seg_frg (hd (rcv_queue (receiver w)))) < length (rcv_queue (receiver w)))"
  shows "nrcv_que (receiver w) < rcv_wnd (receiver w)"
proof (rule ccontr)
  let ?r = "receiver w" and ?q = "rcv_queue (receiver w)"
  assume full: "\<not> nrcv_que ?r < rcv_wnd ?r"
  have short: "length (pieces w) < 2 ^ 31" using assms(2) by (simp add: ready_def)
  obtain got where e: "kcp_inv b ?r" "keeps (pieces w) got ?r" using keeping_ends [OF assms(1) short] by metis
  have "unat (nrcv_que ?r) = length ?q"
    using e(1) by (simp add: kcp_inv_def kcp_wf_def wf_rcv_def unat_of_nat32)
  then have len: "unat (rcv_wnd ?r) \<le> length ?q" using full by (simp add: word_less_nat_alt)
  have small: "unat (fst p) < unat (rcv_wnd ?r)" if "p \<in> set (pieces w)" for p
    using assms(2) that by (auto simp: ready_def word_less_nat_alt)
  obtain p where "p \<in> set (pieces w)" using assms(3) by (cases "pieces w") auto
  then have "0 < unat (rcv_wnd ?r)" using small by fastforce
  then have ne: "?q \<noteq> []" using len by auto
  have "set (map piece ?q) \<subseteq> set (pieces w)"
    using e(2) set_take_subset [of "length got + length ?q" "pieces w"]
    unfolding keeps_def receives_def Let_def by (metis (no_types) le_sup_iff set_append)
  then have "piece (hd ?q) \<in> set (pieces w)" using ne hd_in_set by fastforce
  then have "unat (seg_frg (hd ?q)) < length ?q" using small len by (fastforce simp: piece_def)
  then show False using assms(4) ne by blast
qed

text \<open>When the whole stream is with the receiver and something is not delivered, a message is complete.\<close>

lemma last_message:
  assumes "link_ok a b w" and "unat (rcv_nxt (receiver w)) = length (pieces w)" and "length (pieces w) < 2 ^ 32"
    and "delivered w \<noteq> posted w"
  shows "rcv_queue (receiver w) \<noteq> [] \<and>
    unat (seg_frg (hd (rcv_queue (receiver w)))) < length (rcv_queue (receiver w))"
  using assms(1)
proof (cases rule: link_okE)
  case (1 gs)
  let ?j = "length (delivered w)" and ?q = "rcv_queue (receiver w)"
  have j: "?j < length gs"
  proof (rule ccontr)
    assume "\<not> ?j < length gs"
    then have "?j = length (posted w)" using 1(8) list_all2_lengthD [OF 1(7)] by simp
    then show False using 1(9) assms(4) by simp
  qed
  then obtain g gs' m where g: "drop ?j gs = g # gs'" "message_pieces g m"
    using 1(7) by (metis Cons_nth_drop_Suc list_all2_nthD)
  have "length (concat (take ?j gs)) + length ?q = length (concat gs)"
    using receives_nxt(1) [OF 1(10)] assms(2,3) 1(6) by simp
  moreover have "concat gs = concat (take ?j gs) @ concat (drop ?j gs)" by (simp flip: concat_append)
  then have "length (concat gs) = length (concat (take ?j gs)) + length (concat (drop ?j gs))"
    by (metis length_append)
  ultimately have "length ?q = length (concat (drop ?j gs))" by simp
  then have q: "map piece ?q = g @ concat gs'"
    using queue_front [of gs ?j "receiver w"] 1(6,10) g(1) by simp
  obtain cs where cs: "cs \<noteq> []" "length cs \<le> 255" "g = map piece (fragments cs)"
    using g(2) by (auto simp: message_pieces_def)
  obtain c ds where ds: "cs = c # ds" using cs(1) by (cases cs) auto
  then have p: "map piece ?q = piece (data_segment (length ds) c) # map piece (fragments ds) @ concat gs'"
    using q cs(3) by simp
  then have ne: "?q \<noteq> []" by auto
  have "length ?q = length (map piece ?q)" by simp
  then have len: "length ds < length ?q" unfolding p by simp
  have "piece (hd ?q) = piece (data_segment (length ds) c)" using p by (cases ?q) auto
  then have "seg_frg (hd ?q) = of_nat (length ds)" by (simp add: piece_def data_segment_def)
  then have "unat (seg_frg (hd ?q)) = length ds" using cs(2) ds by (simp add: unat_of_nat32)
  then show ?thesis using ne len by simp
qed

lemma message_pieces_Nil: "\<not> message_pieces [] m"
  by (auto simp: message_pieces_def neq_Nil_conv)

lemma progress:
  assumes "keeping a b w" and "ready w" and "delivered w \<noteq> posted w"
  obtains w' where "follows w w'" and "further w w'"
proof (cases "rcv_queue (receiver w) \<noteq> [] \<and>
    unat (seg_frg (hd (rcv_queue (receiver w)))) < length (rcv_queue (receiver w))")
  case True
  then show ?thesis using collects [OF assms(1,2)] that by blast
next
  case False
  have ok: "link_ok a b w" and short: "length (pieces w) < 2 ^ 31"
    using assms(1,2) by (simp_all add: keeping_def ready_def)
  have "pieces w \<noteq> []"
    using ok
  proof (cases rule: link_okE)
    case (1 gs)
    have "gs \<noteq> []" using 1(7,9) assms(3) by (cases gs) auto
    then show ?thesis using 1(6,7) by (cases gs) (auto simp: list_all2_Cons1 message_pieces_Nil)
  qed
  then have room: "nrcv_que (receiver w) < rcv_wnd (receiver w)"
    using room_or_message [OF assms(1,2)] False by blast
  show ?thesis
  proof (cases "unat (rcv_nxt (receiver w)) < unat (snd_nxt (sender w))")
    case True
    then show ?thesis using retransmit [OF assms(1,2) _ room] that by blast
  next
    case behind: False
    then have le: "unat (snd_nxt (sender w)) \<le> unat (rcv_nxt (receiver w))" by simp
    obtain got where "sends (pieces w) (sender w)" using keeping_ends [OF assms(1) short] by metis
    note sent = sends_room [OF this short]
    have queue: "snd_queue (sender w) \<noteq> []"
    proof
      assume "snd_queue (sender w) = []"
      then have "unat (rcv_nxt (receiver w)) = length (pieces w)"
        using sent le keeping_bounds(2) [OF assms(1) short] by simp
      then show False using last_message [OF ok _ _ assms(3)] False short by simp
    qed
    obtain w1 where w1: "follows w w1" "further w w1 \<or> clear w1"
    proof (cases "snd_buf (sender w) = [] \<and> rmt_wnd (sender w) \<noteq> 0")
      case True
      then show ?thesis using that [OF follows_refl [OF assms(2)]] by (simp add: clear_def)
    next
      case stuck: False
      then show ?thesis
        using acknowledged [OF assms(1,2) le room] unprobed [OF assms(1,2) le room] that by blast
    qed
    show ?thesis
    proof (cases "further w w1")
      case True
      with w1(1) show ?thesis by (rule that)
    next
      case False
      have k1: "keeping a b w1" "ready w1" using follows_ok [OF assms(1) w1(1)] by simp_all
      then have short1: "length (pieces w1) < 2 ^ 31" by (simp add: ready_def)
      obtain got1 where "sends (pieces w1) (sender w1)" using keeping_ends [OF k1(1) short1] by metis
      note sent1 = sends_room [OF this short1]
      have "unat (snd_nxt (sender w1)) = unat (snd_nxt (sender w))" "pieces w1 = pieces w"
        using False w1(1) by (simp_all add: further_def follows_def)
      then have "snd_queue (sender w1) \<noteq> []" using sent sent1 queue by (metis add_left_cancel length_0_conv)
      then obtain w2 where "follows w1 w2" "further w1 w2"
        using admitted_moves [OF k1(1,2)] False w1(2) by blast
      then show ?thesis
        using that follows_trans [OF w1(1)] further_trans(2) [OF w1(1)] by blast
    qed
  qed
qed

lemma drains: "keeping a b w \<Longrightarrow> ready w \<Longrightarrow> \<exists>w'. follows w w' \<and> delivered w' = posted w'"
proof (induction "lag w" arbitrary: w rule: less_induct)
  case less
  show ?case
  proof (cases "delivered w = posted w")
    case True
    then show ?thesis using follows_refl less.prems(2) by blast
  next
    case False
    from progress [OF less.prems False] obtain w1 where w1: "follows w w1" "further w w1" .
    have "keeping a b w1" "ready w1"
      using follows_ok [OF less.prems(1) w1(1)] by simp_all
    from less.hyps [OF further_lag [OF less.prems w1] this] obtain w2
      where "follows w1 w2" "delivered w2 = posted w2" by blast
    then show ?thesis using follows_trans [OF w1(1)] by blast
  qed
qed

text \<open>
  C3: every accepted message can still arrive.  From every state of the closed system, whatever was
  lost, delayed, duplicated or reordered so far, there is a continuation in which every message that
  \<open>ikcp_send\<close> accepted is returned by the receiver's \<open>ikcp_recv\<close>, when both ends have a callback, were
  updated and have memory, the send window is not empty, the receive window is below 65536 and takes
  the longest message, and nothing in the receive buffer could move to the queue.
\<close>

theorem every_message_arrives:
  assumes "connected a b w0" and "closed.run w0 events w" and "ready w"
  shows "\<exists>more w'. closed.run w more w' \<and> posted w' = posted w \<and> delivered w' = posted w"
proof -
  have "keeping a b w"
    using closed.reachable_good [OF assms(1,2)] assms(3) by (simp add: closed_inv_def ready_def)
  from drains [OF this assms(3)] obtain w' where "follows w w'" "delivered w' = posted w'" by blast
  then show ?thesis unfolding follows_def by metis
qed

end
