(* ===== verification/Duplex.thy ===== *)
theory Duplex
  imports Drain
begin

text \<open>
  Both directions at once: two ends that send to each other and receive from each other, over a
  network that loses, repeats, delays and reorders the datagrams of both.  Each direction is a
  closed system, in which the other direction is some of the calls.
\<close>

section \<open>The system\<close>

text \<open>
  An end: its control block, the datagrams it has handed to its callback, and as history the
  fragments it queued, the messages it accepted and those it returned.
\<close>

record peer =
  kcb :: ikcpcb
  emitted :: "u8 list set"
  stream :: "piece list"
  accepted :: "u8 list list"
  returned :: "u8 list list"

datatype act =
    Post_message "u8 list"     \<comment> \<open>the client calls \<open>ikcp_send\<close>\<close>
  | Take_message int           \<comment> \<open>the client calls \<open>ikcp_recv\<close>\<close>
  | Get_datagram "u8 list"     \<comment> \<open>a datagram of the other end arrives\<close>
  | Other_call call            \<comment> \<open>any other call\<close>

text \<open>What an end can do when the other end has sent the datagrams \<open>inbox\<close> so far.\<close>

inductive acts :: "u8 list set \<Rightarrow> peer \<Rightarrow> act \<Rightarrow> peer \<Rightarrow> bool" for inbox where
  post: "length m < 2 ^ 31 \<Longrightarrow> plentiful (mem (kcb p)) \<Longrightarrow>
     ikcp_send (kcb p) (Some m) (int (length m)) = Inr (r, k) \<Longrightarrow>
     acts inbox p (Post_message m) (p\<lparr>kcb := k,
       stream := stream p @ map piece (drop (length (snd_queue (kcb p))) (snd_queue k)),
       accepted := (if r = 0 then accepted p @ [m] else accepted p)\<rparr>)"
| take: "0 \<le> len \<Longrightarrow> ikcp_recv (kcb p) True len = (r, out, k) \<Longrightarrow>
     acts inbox p (Take_message len) (p\<lparr>kcb := k,
       returned := (if 0 \<le> r then returned p @ [out] else returned p)\<rparr>)"
| get: "d \<in> inbox \<Longrightarrow> ikcp_input (kcb p) (Some d) = Inr (r, k) \<Longrightarrow>
     acts inbox p (Get_datagram d) (p\<lparr>kcb := k\<rparr>)"
| other: "\<not> is_send c \<Longrightarrow> \<not> is_recv c \<Longrightarrow> \<not> is_input c \<Longrightarrow> proper (kcb p) c \<Longrightarrow>
     perform (kcb p) c = Inr (r, out, sent, k) \<Longrightarrow>
     acts inbox p (Other_call c) (p\<lparr>kcb := k, emitted := emitted p \<union> set sent\<rparr>)"

text \<open>A step is taken by the first end (\<open>True\<close>) or by the second.\<close>

fun duplex_step :: "peer \<times> peer \<Rightarrow> bool \<times> act \<Rightarrow> peer \<times> peer \<Rightarrow> bool" where
  "duplex_step (p, q) (first, e) (p', q') \<longleftrightarrow>
     (if first then acts (emitted q) p e p' \<and> q' = q else acts (emitted p) q e q' \<and> p' = p)"

definition idle :: "int \<Rightarrow> peer \<Rightarrow> bool" where
  "idle a p \<longleftrightarrow> created a (kcb p) \<and> emitted p = {} \<and> stream p = [] \<and> accepted p = [] \<and> returned p = []"

fun joined :: "int \<Rightarrow> int \<Rightarrow> peer \<times> peer \<Rightarrow> bool" where
  "joined a b (p, q) \<longleftrightarrow> idle a p \<and> idle b q \<and> conv (kcb p) = conv (kcb q)"

section \<open>Each direction is a closed system\<close>

definition direction :: "peer \<Rightarrow> peer \<Rightarrow> link" where
  "direction p q = \<lparr>sender = kcb p, receiver = kcb q, forward = emitted p, backward = emitted q,
     pieces = stream p, posted = accepted p, delivered = returned q\<rparr>"

lemma joined_connected: "joined a b (p, q) \<Longrightarrow> connected a b (direction p q) \<and> connected b a (direction q p)"
  by (simp add: idle_def connected_def direction_def)

text \<open>The acts of the first end are steps at the sender, those of the second steps at the receiver.\<close>

lemma acts_sender:
  assumes "acts (emitted q) p e p'"
  shows "\<exists>event. closed_step (direction p q) event (direction p' q)"
  using assms
proof (cases rule: acts.cases)
  case (post m r k)
  then show ?thesis using link_step.post [of m "direction p q" r k]
    by (auto simp: closed_step_def faithful_def direction_def)
next
  case (take len r out k)
  then show ?thesis using link_step.sender_call [of "Recv True len" "direction p q" r out "[]" k]
    by (auto simp: closed_step_def faithful_def direction_def)
next
  case (get d r k)
  then show ?thesis using link_step.sender_call [of "Input (Some d)" "direction p q" r "[]" "[]" k]
    by (auto simp: closed_step_def faithful_def direction_def)
next
  case (other c r out sent k)
  have "\<forall>dat. c \<noteq> Input dat" using other(5) by auto
  then show ?thesis using other link_step.sender_call [of c "direction p q" r out sent k]
    by (auto simp: closed_step_def faithful_def direction_def)
qed

lemma acts_receiver:
  assumes "acts (emitted p) q e q'"
  shows "\<exists>event. closed_step (direction p q) event (direction p q')"
  using assms
proof (cases rule: acts.cases)
  case (post m r k)
  then show ?thesis
    using link_step.receiver_call [of "Send (Some m) (int (length m))" "direction p q" r "[]" "[]" k]
    by (auto simp: closed_step_def faithful_def direction_def)
next
  case (take len r out k)
  then show ?thesis using link_step.collect [of len "direction p q" r out k]
    by (auto simp: closed_step_def faithful_def direction_def)
next
  case (get d r k)
  then show ?thesis using link_step.arrive [of d "direction p q" r k]
    by (auto simp: closed_step_def faithful_def direction_def)
next
  case (other c r out sent k)
  then show ?thesis using link_step.receiver_call [of c "direction p q" r out sent k]
    by (auto simp: closed_step_def faithful_def direction_def)
qed

lemma duplex_directions:
  assumes "duplex_step (p, q) e (p', q')"
  shows "\<exists>f g. closed_step (direction p q) f (direction p' q') \<and> closed_step (direction q p) g (direction q' p')"
  using assms acts_sender [of q p _ p'] acts_receiver [of q p _ p'] acts_sender [of p q _ q'] acts_receiver [of p q _ q']
  by (cases e) (auto split: if_splits)

fun duplex_inv :: "int \<Rightarrow> int \<Rightarrow> peer \<times> peer \<Rightarrow> bool" where
  "duplex_inv a b (p, q) \<longleftrightarrow> closed_inv a b (direction p q) \<and> closed_inv b a (direction q p)"

lemma duplex_inv_step: "duplex_inv a b s \<Longrightarrow> duplex_step s e s' \<Longrightarrow> duplex_inv a b s'"
proof -
  assume inv: "duplex_inv a b s" and step: "duplex_step s e s'"
  obtain p q p' q' where s: "s = (p, q)" "s' = (p', q')" by (cases s; cases s')
  from duplex_directions [OF step [unfolded s]] obtain f g
    where "closed_step (direction p q) f (direction p' q')" "closed_step (direction q p) g (direction q' p')"
    by blast
  then show "duplex_inv a b s'" using inv closed.good_step unfolding s duplex_inv.simps by blast
qed

interpretation duplex: step_system "joined a b" duplex_step "duplex_inv a b" for a b
proof unfold_locales
  fix s e s'
  show "joined a b s \<Longrightarrow> duplex_inv a b s"
    using joined_connected closed.good_start by (cases s) auto
  show "duplex_inv a b s \<Longrightarrow> duplex_step s e s' \<Longrightarrow> duplex_inv a b s'"
    by (rule duplex_inv_step)
qed

section \<open>What the ends deliver\<close>

lemma direction_prefix:
  assumes "closed_inv a b (direction p q)" and "length (stream p) < 2 ^ 31"
  shows "returned q = take (length (returned q)) (accepted p)"
  using assms by (auto simp: closed_inv_def keeping_def link_ok_def direction_def)

lemma direction_rest:
  assumes "closed_inv a b (direction p q)" and "length (stream p) < 2 ^ 31"
    and "ikcp_waitsnd (kcb p) = 0" and "rcv_queue (kcb q) = []" and "rcv_buf (kcb q) = []"
  shows "returned q = accepted p"
proof (rule ccontr)
  let ?w = "direction p q"
  assume "returned q \<noteq> accepted p"
  then have ne: "delivered ?w \<noteq> posted ?w" by (simp add: direction_def)
  have short: "length (pieces ?w) < 2 ^ 31" using assms(2) by (simp add: direction_def)
  then have k: "keeping a b ?w" using assms(1) by (simp add: closed_inv_def)
  then have ok: "link_ok a b ?w" by (simp add: keeping_def)
  obtain got where g: "kcp_wf (sender ?w)" "sends (pieces ?w) (sender ?w)"
    "unat (snd_nxt (sender ?w)) + length (snd_queue (sender ?w)) < 2 ^ 31"
    using keeping_ends [OF k short] by metis
  then have e: "snd_queue (sender ?w) = []" "snd_buf (sender ?w) = []"
    using waitsnd_counts [of "sender ?w"] assms(3) by (simp_all add: kcp_wf_def direction_def)
  have nxt: "unat (snd_nxt (sender ?w)) = length (pieces ?w)" using sends_room [OF g(2) short] e by simp
  have "unat (rcv_nxt (receiver ?w)) = length (pieces ?w)"
  proof (rule ccontr)
    assume "unat (rcv_nxt (receiver ?w)) \<noteq> length (pieces ?w)"
    then have "unat (rcv_nxt (receiver ?w)) < unat (snd_nxt (sender ?w))"
      using keeping_bounds(2) [OF k short] nxt by simp
    then have "reached (receiver ?w) (rcv_nxt (receiver ?w))"
      using k e(2) by (auto simp: keeping_def kept_def)
    then show False using assms(5) by (simp add: reached_def direction_def)
  qed
  then show False using last_message [OF ok _ _ ne] short assms(4) by (simp add: direction_def)
qed

text \<open>
  C4: both directions of a conversation deliver.  Two ends that send to each other at the same time,
  over a network that loses, repeats, delays and reorders datagrams: each end's \<open>ikcp_recv\<close> has
  returned the first of the messages that the other end's \<open>ikcp_send\<close> accepted; and when
  \<open>ikcp_waitsnd\<close> of an end is 0 and the receive queue and buffer of the other are empty, all of them.
\<close>

theorem both_directions_delivered:
  assumes "joined a b s0" and "duplex.run s0 events (p, q)"
    and "length (stream p) < 2 ^ 31" and "length (stream q) < 2 ^ 31"
  shows "returned q = take (length (returned q)) (accepted p) \<and>
    returned p = take (length (returned p)) (accepted q) \<and>
    (ikcp_waitsnd (kcb p) = 0 \<and> rcv_queue (kcb q) = [] \<and> rcv_buf (kcb q) = [] \<longrightarrow> returned q = accepted p) \<and>
    (ikcp_waitsnd (kcb q) = 0 \<and> rcv_queue (kcb p) = [] \<and> rcv_buf (kcb p) = [] \<longrightarrow> returned p = accepted q)"
proof -
  have "closed_inv a b (direction p q)" "closed_inv b a (direction q p)"
    using duplex.reachable_good [OF assms(1,2)] by simp_all
  then show ?thesis using direction_prefix direction_rest assms(3,4) by blast
qed

end
