(* ===== verification/Witnesses.thy ===== *)
theory Witnesses
  imports Machine Lutil Iqueue Delivery
begin

text \<open>
  Concrete control blocks, heaps and datagrams at which the hypotheses of the properties
  hold, and the properties applied to them.
\<close>

section \<open>Sample control blocks\<close>

definition mem0 :: memory where
  "mem0 = \<lparr>answers = (\<lambda>_. True), live = 2\<rparr>"

text \<open>A new control block with a callback.\<close>

definition k0 :: ikcpcb where
  "k0 = (new_kcpcb 7 4272 mem0)\<lparr>output_cb := True\<rparr>"

text \<open>
  Two fragments of a message fill the receive queue; the next segment waits in the buffer.
\<close>

definition k_recv :: ikcpcb where
  "k_recv = k0\<lparr>mem := mem0\<lparr>live := 5\<rparr>,
     rcv_queue := [data_segment 1 [1, 2], data_segment 0 [3]], nrcv_que := 2, rcv_nxt := 2,
     rcv_wnd := 2, rcv_buf := [(data_segment 0 [4])\<lparr>seg_sn := 2\<rparr>], nrcv_buf := 1\<rparr>"

text \<open>Numbers 4294967295, 0 and 1 are in flight, across the wrap-around; one more is queued.\<close>

definition sent_segment :: "u32 \<Rightarrow> u8 list \<Rightarrow> ikcpseg" where
  "sent_segment sn d = (data_segment 0 d)\<lparr>seg_sn := sn, seg_conv := 7, seg_cmd := 81,
     seg_xmit := 1, seg_resendts := 300, seg_rto := 200\<rparr>"

definition k_send :: ikcpcb where
  "k_send = k0\<lparr>mem := mem0\<lparr>live := 6\<rparr>, updated := 1, current := 100, ts_flush := 150, cwnd := 4,
     snd_una := -1, snd_nxt := 2,
     snd_buf := [sent_segment (-1) [1], sent_segment 0 [2], sent_segment 1 [3]], nsnd_buf := 3,
     snd_queue := [data_segment 0 [4]], nsnd_que := 1\<rparr>"

lemma k0_facts: "kcp_wf k0" "accounted 0 k0" "wf_wire k0" "output_cb k0" "conv k0 = 7" "mss k0 = 1376"
  "plentiful (mem k0)"
  by (simp_all add: k0_def new_kcpcb_def wf_defs accounted_def owned_def wf_wire_def mem0_def)

lemma k_recv_facts: "kcp_wf k_recv" "accounted 0 k_recv"
  by (simp_all add: k_recv_def k0_def new_kcpcb_def wf_defs accounted_def owned_def mem0_def
      data_segment_def fresh_segment_def seg_received_def seg_sound_def)

lemma k_send_facts: "kcp_wf k_send" "accounted 0 k_send" "wf_wire k_send" "output_cb k_send"
  "updated k_send \<noteq> 0"
  by (simp_all add: k_send_def k0_def new_kcpcb_def wf_defs accounted_def owned_def mem0_def
      data_segment_def fresh_segment_def seg_fits_def seg_sound_def sent_segment_def wf_wire_def)

section \<open>Creation, sending, receiving\<close>

theorem release_frees_all_witness: "accounted 0 k_recv \<and> live (ikcp_release k_recv) = 0"
  using release_frees_all [of 0 k_recv] k_recv_facts(2) by blast

lemma chunks_small: "chunks 1376 [1, 2, 3 :: u8] = [[1, 2, 3]]"
  by simp

theorem send_queues_fragments_witness:
  "ikcp_send k0 (Some [1, 2, 3]) 3 = Inr (0, enqueue [data_segment 0 [1, 2, 3]] k0)"
  using send_queues_fragments [of k0 "[1, 2, 3]"] k0_facts by (simp add: mem0_def k0_def new_kcpcb_def)

theorem send_rejects_witness: "ikcp_send k0 None 400000 = Inr (-2, k0)"
  using send_rejects [of k0 400000 None] k0_facts by simp

definition k_poor :: ikcpcb where
  "k_poor = k0\<lparr>mem := mem0\<lparr>answers := (\<lambda>n. n < 1)\<rparr>\<rparr>"

theorem send_out_of_memory_witness:
  "\<exists>k'. ikcp_send k_poor (Some (replicate 2000 0)) 2000 = Inr (-2, k') \<and>
    length (snd_queue k') = 1"
proof -
  have wf: "kcp_wf k_poor" using k0_facts(1) by (simp add: k_poor_def wf_defs)
  have m: "unat (mss k_poor) = 1376" using k0_facts(6) by (simp add: k_poor_def)
  have c: "length (chunks 1376 (replicate 2000 (0 :: u8))) = 2" by (subst length_chunks) simp_all
  obtain k' where "ikcp_send k_poor (Some (replicate 2000 0)) (int (length (replicate 2000 (0 :: u8)))) = Inr (-2, k')"
    "snd_queue k' = snd_queue k_poor @ take 1 (fragments (chunks (unat (mss k_poor)) (replicate 2000 0)))"
    using send_out_of_memory [OF wf, of "replicate 2000 0" 1] c unfolding m
    by (auto simp: k_poor_def mem0_def)
  moreover have "snd_queue k_poor = []" by (simp add: k_poor_def k0_def new_kcpcb_def)
  ultimately show ?thesis using c m by (intro exI [of _ k']) simp
qed

theorem recv_delivers_message_witness:
  "\<exists>k'. ikcp_recv k_recv True 10 = (3, [1, 2, 3], k') \<and>
    rcv_queue k' = rcv_buf k_recv \<and> rcv_buf k' = [] \<and> rcv_nxt k' = 3"
proof -
  have q: "rcv_queue k_recv = data_segment 1 [1, 2] # [data_segment 0 [3]]" by (simp add: k_recv_def)
  have m: "message_of (rcv_queue k_recv) = ([data_segment 1 [1, 2], data_segment 0 [3]], [])"
    by (simp add: q data_segment_def)
  have n: "min (run_length (rcv_nxt k_recv) (rcv_buf k_recv))
      (unat (rcv_wnd k_recv) - length (snd (message_of (rcv_queue k_recv)))) = 1"
    unfolding m by (simp add: k_recv_def)
  have f: "seg_frg (data_segment 1 [1, 2]) + 1 \<le> nrcv_que k_recv"
    by (simp add: k_recv_def data_segment_def)
  show ?thesis
    using recv_delivers_message [OF k_recv_facts(1) q, of 10] f unfolding n m
    by (simp add: data_segment_def) (simp add: k_recv_def)
qed


definition k_stuck :: ikcpcb where
  "k_stuck = k0\<lparr>rcv_queue := [data_segment 1 [9]], nrcv_que := 1, rcv_nxt := 1, rcv_wnd := 1\<rparr>"


section \<open>Acknowledgements\<close>

theorem ack_push_appends_witness:
  "case ikcp_ack_push k0 5 6 of Inl e \<Rightarrow> False
   | Inr k' \<Rightarrow> pending_acks k' = [(5, 6)] \<and> accounted 0 k'"
proof -
  have "wf_ack k0" "ackcount k0 = 0" "pending_acks k0 = []" "answers (mem k0) 0"
    using k0_facts by (simp_all add: kcp_wf_def) (simp_all add: k0_def new_kcpcb_def pending_acks_def mem0_def)
  then show ?thesis
    using ack_push_appends [of k0 5 6 0] k0_facts(2) by (auto split: sum.splits)
qed

theorem parse_una_exact_witness:
  "snd_buf (ikcp_parse_una k_send 1) = [sent_segment 1 [3]]"
proof -
  have "wf_snd k_send" using k_send_facts(1) by (simp add: kcp_wf_def)
  from parse_una_exact [OF this, of 1] show ?thesis
    by (simp add: k_send_def sent_segment_def)
qed

theorem update_ack_rto_bounds_witness:
  "rx_minrto k0 \<le> rx_rto (ikcp_update_ack k0 70000) \<and> rx_rto (ikcp_update_ack k0 70000) \<le> 60000"
  by (rule update_ack_rto_bounds) (simp_all add: k0_def new_kcpcb_def)

theorem update_ack_smooths_witness:
  "rx_srtt (ikcp_update_ack (k0\<lparr>rx_srtt := 100, rx_rttval := 50\<rparr>) 180) = 110 \<and>
   rx_rttval (ikcp_update_ack (k0\<lparr>rx_srtt := 100, rx_rttval := 50\<rparr>) 180) = 57 \<and>
   rx_rto (ikcp_update_ack (k0\<lparr>rx_srtt := 100, rx_rttval := 50\<rparr>) 180) = 338"
  using update_ack_smooths [of 180 "k0\<lparr>rx_srtt := 100, rx_rttval := 50\<rparr>"]
  by (simp add: k0_def new_kcpcb_def)

section \<open>Input\<close>

theorem parse_data_inserts_witness:
  "rcv_queue (ikcp_parse_data k0 ((data_segment 0 [8])\<lparr>seg_sn := 0\<rparr>)) @
   rcv_buf (ikcp_parse_data k0 ((data_segment 0 [8])\<lparr>seg_sn := 0\<rparr>)) = [(data_segment 0 [8])\<lparr>seg_sn := 0\<rparr>]"
proof -
  have "wf_rcv k0" using k0_facts(1) by (simp add: kcp_wf_def)
  moreover have "in_rcv_window k0 (seg_sn ((data_segment 0 [8])\<lparr>seg_sn := 0\<rparr>))"
    by (simp add: in_rcv_window_def k0_def new_kcpcb_def itimediff_def)
  ultimately have "rcv_queue (ikcp_parse_data k0 ((data_segment 0 [8])\<lparr>seg_sn := 0\<rparr>)) @
      rcv_buf (ikcp_parse_data k0 ((data_segment 0 [8])\<lparr>seg_sn := 0\<rparr>)) = rcv_queue k0 @
      insert_segment (rcv_nxt k0) ((data_segment 0 [8])\<lparr>seg_sn := 0\<rparr>) (rcv_buf k0)"
    using parse_data_inserts by blast
  then show ?thesis by (simp add: insert_segment_def k0_def new_kcpcb_def)
qed


text \<open>A window announcement that acknowledges the first two numbers in flight.\<close>

definition wins_header :: header where
  "wins_header = \<lparr>h_conv = 7, h_cmd = 84, h_frg = 0, h_wnd = 5, h_ts = 0, h_sn = 0, h_una = 1, h_len = 0\<rparr>"

definition push_header :: header where
  "push_header = \<lparr>h_conv = 7, h_cmd = 81, h_frg = 0, h_wnd = 5, h_ts = 9, h_sn = 0, h_una = 0, h_len = 1\<rparr>"

theorem input_datagram_witness:
  "bindE (input_loop (datagram [(wins_header, []), (push_header, [8])]) k0) (\<lambda>(r, k). Inr k) =
   feed [(wins_header, []), (push_header, [8])] k0"
proof -
  have "\<forall>seg \<in> set [(wins_header, []), (push_header, [8])]. acceptable (conv k0) seg"
    by (simp add: acceptable_def wins_header_def push_header_def k0_facts valid_cmd_def)
  then show ?thesis by (rule input_datagram)
qed

theorem input_advances_witness:
  "\<exists>r k'. ikcp_input k_send (Some (datagram [(wins_header, [])])) = Inr (r, k') \<and>
     snd_nxt k' = 2 \<and> snd_queue k' = [data_segment 0 [4]] \<and> unat (snd_nxt k_send - snd_una k') \<le> 3"
proof -
  have p: "plentiful (mem k_send)" by (simp add: k_send_def mem0_def)
  obtain r k' where i: "ikcp_input k_send (Some (datagram [(wins_header, [])])) = Inr (r, k')"
    using input_keeps [OF k_send_facts(1,2), of "Some (datagram [(wins_header, [])])"] p
    by (cases "ikcp_input k_send (Some (datagram [(wins_header, [])]))") auto
  have "snd_nxt k_send = 2" "snd_una k_send = -1" "snd_queue k_send = [data_segment 0 [4]]"
    by (simp_all add: k_send_def)
  then show ?thesis using input_advances [OF k_send_facts(1) i] i by auto
qed

section \<open>Flush\<close>

theorem flush_safe_witness:
  "\<exists>sent k'. ikcp_flush k_send = Inr (sent, k') \<and> kcp_wf k' \<and> accounted 0 k' \<and>
    (\<forall>d \<in> set sent. 0 < length d \<and> length d \<le> unat (mtu k_send))"
  by (rule flush_safe [OF k_send_facts(1,4,2)])

lemma k_send_flushes:
  obtains sent k' where "ikcp_flush k_send = Inr (sent, k')"
  using flush_returns [OF k_send_facts(1,4,2)] by auto

theorem flush_sends_plan_witness:
  "\<exists>k'. ikcp_flush k_send = Inr (map datagram (pack 1400 (flush_plan k_send)), k')"
proof -
  have "unat (mtu k_send) = 1400" by (simp add: k_send_def k0_def new_kcpcb_def)
  then show ?thesis using flush_sends_plan [OF k_send_facts(1,4,5)] by simp
qed

lemma k_send_room: "window_room k_send = 1"
  by (simp add: window_room_def flush_cwnd_def k_send_def k0_def new_kcpcb_def imin_def Let_def)

theorem flush_moves_window_witness:
  "\<exists>sent k'. ikcp_flush k_send = Inr (sent, k') \<and> snd_queue k' = [] \<and> snd_nxt k' = 3"
proof -
  obtain sent k' where f: "ikcp_flush k_send = Inr (sent, k')" by (rule k_send_flushes)
  have "snd_queue k_send = [data_segment 0 [4]]" "snd_nxt k_send = 2" by (simp_all add: k_send_def)
  then show ?thesis
    using flush_moves_window [OF k_send_facts(1,5) f k_send_facts(4)] f by (simp add: k_send_room)
qed


theorem flush_read_by_peer_witness:
  "\<exists>sent k' dgs. ikcp_flush k_send = Inr (sent, k') \<and> sent = map datagram dgs \<and>
     concat dgs = flush_plan k_send"
proof -
  obtain sent k' where f: "ikcp_flush k_send = Inr (sent, k')" by (rule k_send_flushes)
  have "conv k0 = conv k_send" by (simp add: k_send_def)
  from flush_read_by_peer [OF k_send_facts(1,3,4,5) f this] show ?thesis using f by blast
qed

section \<open>Timer\<close>

theorem check_bounds_witness:
  "unat (ikcp_check k_send 100 - 100) \<le> 100"
  using check_bounds [of k_send 100] by (simp add: k_send_def k0_def new_kcpcb_def)

lemma k_send_check: "ikcp_check k_send 100 = 150"
  by (simp add: k_send_def k0_def new_kcpcb_def ikcp_check_def itimediff_def sent_segment_def
      data_segment_def fresh_segment_def)

theorem check_sound_witness: "ikcp_update k_send 120 = Inr ([], k_send\<lparr>current := 120\<rparr>)"
  by (rule check_sound [of 120 100]) (simp add: k_send_check)

theorem update_safe_witness:
  "\<exists>sent k'. ikcp_update k_send 150 = Inr (sent, k') \<and> accounted 0 k' \<and>
    (\<forall>d \<in> set sent. 0 < length d \<and> length d \<le> unat (mtu k_send))"
  by (rule update_safe [OF k_send_facts(1,4,2)])

section \<open>Sessions\<close>

definition k_new :: ikcpcb where
  "k_new = new_kcpcb 7 4272 \<lparr>answers = (\<lambda>_. True), live = 2\<rparr>"

lemma k_new_created: "created 0 k_new"
proof -
  have "ikcp_create \<lparr>answers = (\<lambda>_. True), live = 0\<rparr> 7 = Inr k_new"
    by (simp add: ikcp_create_def ikcp_malloc_def k_new_def Let_def)
  then show ?thesis by (auto simp: created_def intro!: exI [of _ "\<lparr>answers = (\<lambda>_. True), live = 0\<rparr>"])
qed

lemma k_new_k0: "set_output k_new True = k0"
  by (simp add: set_output_def k_new_def k0_def mem0_def)

lemma k_new_run: "session.run k_new [Setoutput True, Send (Some [1, 2, 3]) 3]
   (enqueue [data_segment 0 [1, 2, 3]] k0)"
proof -
  have "kcp_step k_new (Setoutput True) k0"
    by (rule kcp_step.intros [where r = 0]) (simp_all add: k_new_k0)
  moreover have "ikcp_send k0 (Some [1, 2, 3]) 3 = Inr (0, enqueue [data_segment 0 [1, 2, 3]] k0)"
    using send_enqueues [of k0 "[1, 2, 3]"] k0_facts by (simp add: mem0_def k0_def new_kcpcb_def)
  then have "kcp_step k0 (Send (Some [1, 2, 3]) 3) (enqueue [data_segment 0 [1, 2, 3]] k0)"
    by (intro kcp_step.intros [where r = 0 and out = "[]" and sent = "[]"]) simp_all
  ultimately show ?thesis by (blast intro: session.run.stop session.run.more)
qed


theorem session_no_leak_witness:
  "live (ikcp_release (enqueue [data_segment 0 [1, 2, 3]] k0)) = 0"
  by (rule session_no_leak [OF k_new_created k_new_run])

theorem session_types_witness:
  "nsnd_que (enqueue [data_segment 0 [1, 2, 3]] k0) = of_nat (length (snd_queue (enqueue [data_segment 0 [1, 2, 3]] k0))) \<and>
   mss (enqueue [data_segment 0 [1, 2, 3]] k0) = mtu (enqueue [data_segment 0 [1, 2, 3]] k0) - 24 \<and>
   10 \<le> interval (enqueue [data_segment 0 [1, 2, 3]] k0)"
  using session_types [OF k_new_created k_new_run] by blast


section \<open>Helpers and lists\<close>

theorem netbytes_roundtrip_witness:
  "l_netbytes2uint32 (l_uint322netbytes 258 @ [9]) = Inr 258 \<and>
   (\<exists>x. l_netbytes2uint32 [0, 0, 1, 2] = Inr x \<and> l_uint322netbytes x = [0, 0, 1, 2])"
  using netbytes_roundtrip [of 258 "[9]" "[0, 0, 1, 2]"] by simp


text \<open>Two rings on one heap: the head 10 with the nodes 1, 2, 3, and the head 20 with 4, 5.\<close>

definition two_rings :: heap where
  "two_rings = \<lparr>nxt = (\<lambda>_. 0)(10 := 1, 1 := 2, 2 := 3, 3 := 10, 20 := 4, 4 := 5, 5 := 20),
     prv = (\<lambda>_. 0)(10 := 3, 1 := 10, 2 := 1, 3 := 2, 20 := 5, 4 := 20, 5 := 4)\<rparr>"

lemma two_rings_facts: "ring two_rings 10 [1, 2, 3]" "ring two_rings 20 [4, 5]" "apart 20 [4, 5] 10 [1, 2, 3]"
  by (simp_all add: ring_def two_rings_def apart_def)

theorem iqueue_list_operations_witness:
  "ring (iqueue_add 9 2 two_rings) 10 [1, 2, 9, 3] \<and> ring (iqueue_del 2 two_rings) 10 [1, 3]"
  using iqueue_list_operations [of two_rings 10 "[1]" 2 "[3]" 9] two_rings_facts(1) by simp

theorem iqueue_foreach_terminates_witness:
  "((\<exists>n visited. iqueue_foreach n (nxt two_rings 5) 10 two_rings = Some visited) \<longleftrightarrow>
     (\<exists>m. (nxt two_rings ^^ Suc m) 5 = 10)) \<and>
   iqueue_foreach 3 (nxt two_rings 10) 10 two_rings = Some [1, 2, 3] \<and>
   iqueue_foreach 2 (nxt two_rings 10) 10 two_rings = None"
  using iqueue_foreach_terminates [OF two_rings_facts(1), of two_rings 5 10 3]
    iqueue_foreach_terminates [OF two_rings_facts(1), of two_rings 5 10 2] by simp

theorem iqueue_splice_joins_witness:
  "ring (iqueue_splice_init 20 10 two_rings) 10 [4, 5, 1, 2, 3]"
  using iqueue_splice_joins [OF two_rings_facts(2,1,3)] by simp

section \<open>Two ends\<close>

text \<open>A message of three bytes: queued, flushed, arrived and taken out.\<close>

definition k_open :: ikcpcb where
  "k_open = k_new\<lparr>output_cb := True, nocwnd := 1\<rparr>"

definition link0 :: link where
  "link0 = \<lparr>sender = k_new, receiver = k_new, forward = {}, backward = {}, pieces = [], posted = [],
     delivered = []\<rparr>"

definition hello_datagram :: "u8 list" where
  "hello_datagram = [7,0,0,0, 81, 0, 32,0, 0,0,0,0, 0,0,0,0, 0,0,0,0, 3,0,0,0, 1,2,3]"

lemma link0_connected: "connected 0 0 link0"
  by (simp add: connected_def link0_def k_new_created)

lemma k_open_send: "case ikcp_send k_open (Some [1, 2, 3]) 3 of Inl e \<Rightarrow> False
  | Inr (r, k) \<Rightarrow> r = 0 \<and> map piece (snd_queue k) = [(0, [1, 2, 3])] \<and> output_cb k \<and>
      (case ikcp_update k 0 of Inl e \<Rightarrow> False | Inr (sent, k') \<Rightarrow> sent = [hello_datagram])"
  by code_simp

lemma k_new_receives: "case ikcp_input k_new (Some hello_datagram) of Inl e \<Rightarrow> False
  | Inr (r, k) \<Rightarrow> fst (ikcp_recv k True 10) = 3 \<and> fst (snd (ikcp_recv k True 10)) = [1, 2, 3]"
  by code_simp

lemma hello_values:
  obtains k1 k2 r k3 k4 where "ikcp_send k_open (Some [1, 2, 3]) 3 = Inr (0, k1)"
    and "map piece (snd_queue k1) = [(0, [1, 2, 3])]" and "output_cb k1"
    and "ikcp_update k1 0 = Inr ([hello_datagram], k2)" and "ikcp_input k_new (Some hello_datagram) = Inr (r, k3)"
    and "ikcp_recv k3 True 10 = (3, [1, 2, 3], k4)" and "snd_queue k_open = []" and "plentiful (mem k_open)"
proof -
  obtain r1 k1 where s: "ikcp_send k_open (Some [1, 2, 3]) 3 = Inr (r1, k1)"
    using k_open_send by (cases "ikcp_send k_open (Some [1, 2, 3]) 3") auto
  then have k1: "ikcp_send k_open (Some [1, 2, 3]) 3 = Inr (0, k1)"
    "map piece (snd_queue k1) = [(0, [1, 2, 3])]" "output_cb k1"
    "case ikcp_update k1 0 of Inl e \<Rightarrow> False | Inr (sent, k') \<Rightarrow> sent = [hello_datagram]"
    using k_open_send unfolding s by simp_all
  then obtain k2 where k2: "ikcp_update k1 0 = Inr ([hello_datagram], k2)"
    by (auto split: sum.splits)
  obtain r k3 where k3: "ikcp_input k_new (Some hello_datagram) = Inr (r, k3)"
    "fst (ikcp_recv k3 True 10) = 3" "fst (snd (ikcp_recv k3 True 10)) = [1, 2, 3]"
    using k_new_receives by (auto split: sum.splits)
  then obtain k4 where k4: "ikcp_recv k3 True 10 = (3, [1, 2, 3], k4)" by (metis prod.collapse)
  have "snd_queue k_open = []" "plentiful (mem k_open)"
    by (simp_all add: k_open_def k_new_def new_kcpcb_def)
  then show ?thesis using that [OF k1(1-3) k2 k3(1) k4] by simp
qed

lemma hello_run:
  obtains w where "network.run link0 [Sender_call (Setoutput True), Sender_call (Nodelay (-1) (-1) (-1) 1),
      Post [1, 2, 3], Sender_call (Update 0), Arrive hello_datagram, Collect 10] w"
    and "delivered w = [[1, 2, 3]]" and "posted w = [[1, 2, 3]]" and "pieces w = [(0, [1, 2, 3])]"
proof -
  obtain k1 k2 r k3 k4 where k1: "ikcp_send k_open (Some [1, 2, 3]) 3 = Inr (0, k1)"
    "map piece (snd_queue k1) = [(0, [1, 2, 3])]" "output_cb k1"
    and k2: "ikcp_update k1 0 = Inr ([hello_datagram], k2)"
    and k3: "ikcp_input k_new (Some hello_datagram) = Inr (r, k3)"
    and k4: "ikcp_recv k3 True 10 = (3, [1, 2, 3], k4)"
    and k0: "snd_queue k_open = []" "plentiful (mem k_open)" by (rule hello_values)
  let ?w1 = "link0\<lparr>sender := k_new\<lparr>output_cb := True\<rparr>\<rparr>"
  let ?w2 = "link0\<lparr>sender := k_open\<rparr>"
  let ?w3 = "link0\<lparr>sender := k1, pieces := [(0, [1, 2, 3])], posted := [[1, 2, 3]]\<rparr>"
  let ?w4 = "?w3\<lparr>sender := k2, forward := {hello_datagram}\<rparr>"
  let ?w5 = "?w4\<lparr>receiver := k3\<rparr>"
  let ?w6 = "?w5\<lparr>receiver := k4, delivered := [[1, 2, 3]]\<rparr>"
  have "link_step link0 (Sender_call (Setoutput True)) ?w1"
    using link_step.sender_call [of "Setoutput True" link0] by (simp add: set_output_def link0_def)
  moreover have "link_step ?w1 (Sender_call (Nodelay (-1) (-1) (-1) 1)) ?w2"
    using link_step.sender_call [of "Nodelay (-1) (-1) (-1) 1" ?w1]
    by (simp add: ikcp_nodelay_def link0_def k_open_def)
  moreover have "link_step ?w2 (Post [1, 2, 3]) ?w3"
    using link_step.post [of "[1, 2, 3]" ?w2 0 k1] k0 k1(1,2) by (simp add: link0_def)
  moreover have "link_step ?w3 (Sender_call (Update 0)) ?w4"
    using link_step.sender_call [of "Update 0" ?w3 0 "[]" "[hello_datagram]" k2] k1(3) k2
    by (simp add: link0_def)
  moreover have "link_step ?w4 (Arrive hello_datagram) ?w5"
    using link_step.arrive [of hello_datagram ?w4 r k3] k3 by (simp add: link0_def)
  moreover have "link_step ?w5 (Collect 10) ?w6"
    using link_step.collect [of 10 ?w5 3 "[1, 2, 3]" k4] k4 by (simp add: link0_def)
  ultimately show ?thesis
    by (intro that [of ?w6]) (blast intro: network.run.intros, simp_all)
qed

theorem messages_delivered_witness:
  "\<exists>events w. network.run link0 events w \<and> delivered w = [[1, 2, 3]] \<and> delivered w = take 1 (posted w)"
proof (rule hello_run)
  fix w assume w: "network.run link0 [Sender_call (Setoutput True), Sender_call (Nodelay (-1) (-1) (-1) 1),
      Post [1, 2, 3], Sender_call (Update 0), Arrive hello_datagram, Collect 10] w"
    "delivered w = [[1, 2, 3]]" "pieces w = [(0, [1, 2, 3])]"
  then show ?thesis using messages_delivered [OF link0_connected w(1)] by auto
qed

end
