(* ===== verification/Link_Witnesses.thy ===== *)
theory Link_Witnesses
  imports Witnesses Duplex
begin

text \<open>
  A link with one message on its way, and the same link after a round trip; the properties of the
  closed system applied to them.
\<close>

definition hello_ack :: "u8 list" where
  "hello_ack = [7,0,0,0, 82, 0, 31,0, 0,0,0,0, 0,0,0,0, 1,0,0,0, 0,0,0,0]"

definition k_cb :: ikcpcb where
  "k_cb = k_new\<lparr>output_cb := True\<rparr>"

lemma k_open_updates: "case ikcp_update k_open 0 of Inl e \<Rightarrow> False
  | Inr (sent, k3) \<Rightarrow> sent = [] \<and> snd_queue k3 = [] \<and>
     (case ikcp_send k3 (Some [1, 2, 3]) 3 of Inl e \<Rightarrow> False
      | Inr (r, k4) \<Rightarrow> r = 0 \<and> map piece (snd_queue k4) = [(0, [1, 2, 3])] \<and> output_cb k4 \<and>
          updated k4 \<noteq> 0 \<and> snd_wnd k4 = 32 \<and> map (h_sn \<circ> fst) (data_plan k4) = [0] \<and>
          (case ikcp_flush k4 of Inl e \<Rightarrow> False
           | Inr (sent, k5) \<Rightarrow> sent = [hello_datagram] \<and>
               (case ikcp_input k5 (Some hello_ack) of Inl e \<Rightarrow> False
                | Inr (r, k6) \<Rightarrow> ikcp_waitsnd k6 = 0)))"
  by code_simp

lemma k_cb_answers: "case ikcp_update k_cb 0 of Inl e \<Rightarrow> False
  | Inr (sent, r2) \<Rightarrow> sent = [] \<and> output_cb r2 \<and> updated r2 \<noteq> 0 \<and> rcv_wnd r2 = 32 \<and> rcv_nxt r2 = 0 \<and>
      ackcount r2 = 0 \<and> rcv_buf r2 = [] \<and>
     (case ikcp_input r2 (Some hello_datagram) of Inl e \<Rightarrow> False
      | Inr (x, r3) \<Rightarrow> output_cb r3 \<and>
          (case ikcp_flush r3 of Inl e \<Rightarrow> False | Inr (sent, r4) \<Rightarrow> sent = [hello_ack]))"
  by code_simp

text \<open>The states of the two ends, with what is known of them.\<close>

lemma hello_states:
  obtains k3 k4 k5 k6 r2 r3 r4 x y where
    "ikcp_update k_open 0 = Inr ([], k3)" and "snd_queue k3 = []" and "plentiful (mem k3)"
    and "ikcp_send k3 (Some [1, 2, 3]) 3 = Inr (0, k4)" and "map piece (snd_queue k4) = [(0, [1, 2, 3])]"
    and "output_cb k4" and "updated k4 \<noteq> 0" and "plentiful (mem k4)"
    and "map (h_sn \<circ> fst) (data_plan k4) = [0]" and "snd_wnd k4 = 32"
    and "ikcp_flush k4 = Inr ([hello_datagram], k5)" and "ikcp_input k5 (Some hello_ack) = Inr (x, k6)"
    and "ikcp_waitsnd k6 = 0"
    and "ikcp_update k_cb 0 = Inr ([], r2)" and "output_cb r2" and "updated r2 \<noteq> 0"
    and "plentiful (mem r2)" and "rcv_wnd r2 = 32" and "rcv_nxt r2 = 0" and "ackcount r2 = 0"
    and "rcv_buf r2 = []" and "ikcp_input r2 (Some hello_datagram) = Inr (y, r3)" and "output_cb r3"
    and "ikcp_flush r3 = Inr ([hello_ack], r4)"
proof -
  have wf: "kcp_wf k_open" "output_cb k_open" "plentiful (mem k_open)" "kcp_wf k_cb" "output_cb k_cb"
    "plentiful (mem k_cb)"
    by (simp_all add: k_open_def k_cb_def k_new_def new_kcpcb_def wf_defs)
  obtain s3 k3 where k3: "ikcp_update k_open 0 = Inr (s3, k3)"
    using k_open_updates by (cases "ikcp_update k_open 0") auto
  then have "plentiful (mem k3)" using update_mem [OF wf(1,2) k3] wf(3) by simp
  obtain r k4 where k4: "ikcp_send k3 (Some [1, 2, 3]) 3 = Inr (r, k4)"
    using k_open_updates k3 by (cases "ikcp_send k3 (Some [1, 2, 3]) 3") auto
  obtain s5 k5 where k5: "ikcp_flush k4 = Inr (s5, k5)"
    using k_open_updates k3 k4 by (cases "ikcp_flush k4") auto
  obtain x k6 where k6: "ikcp_input k5 (Some hello_ack) = Inr (x, k6)"
    using k_open_updates k3 k4 k5 by (cases "ikcp_input k5 (Some hello_ack)") auto
  obtain s2 r2 where r2: "ikcp_update k_cb 0 = Inr (s2, r2)"
    using k_cb_answers by (cases "ikcp_update k_cb 0") auto
  then have "plentiful (mem r2)" using update_mem [OF wf(4,5) r2] wf(6) by simp
  obtain y r3 where r3: "ikcp_input r2 (Some hello_datagram) = Inr (y, r3)"
    using k_cb_answers r2 by (cases "ikcp_input r2 (Some hello_datagram)") auto
  obtain s4 r4 where r4: "ikcp_flush r3 = Inr (s4, r4)"
    using k_cb_answers r2 r3 by (cases "ikcp_flush r3") auto
  show ?thesis
    using that [of k3 k4 k5 x k6 r2 y r3 r4] k_open_updates k_cb_answers k3 k4 k5 k6 r2 r3 r4
      \<open>plentiful (mem k3)\<close> \<open>plentiful (mem r2)\<close> send_plentiful [OF k4] by simp
qed

definition start_events :: "event list" where
  "start_events = [Sender_call (Setoutput True), Sender_call (Nodelay (-1) (-1) (-1) 1),
     Sender_call (Update 0), Receiver_call (Setoutput True), Receiver_call (Update 0), Post [1, 2, 3]]"

definition round_events :: "event list" where
  "round_events = [Sender_call Flush, Arrive hello_datagram, Receiver_call Flush,
     Sender_call (Input (Some hello_ack))]"

lemmas closed_intros = closed_step_def faithful_def

lemma start_run:
  assumes "ikcp_update k_open 0 = Inr ([], k3)" and "snd_queue k3 = []" and "plentiful (mem k3)"
    and "ikcp_send k3 (Some [1, 2, 3]) 3 = Inr (0, k4)" and "map piece (snd_queue k4) = [(0, [1, 2, 3])]"
    and "ikcp_update k_cb 0 = Inr ([], r2)"
  shows "closed.run link0 start_events
    (link0\<lparr>sender := k4, receiver := r2, pieces := [(0, [1, 2, 3])], posted := [[1, 2, 3]]\<rparr>)"
    (is "closed.run _ _ ?w")
proof -
  let ?w1 = "link0\<lparr>sender := k_new\<lparr>output_cb := True\<rparr>\<rparr>"
  let ?w2 = "link0\<lparr>sender := k_open\<rparr>"
  let ?w3 = "link0\<lparr>sender := k3\<rparr>"
  let ?w4 = "link0\<lparr>sender := k3, receiver := k_cb\<rparr>"
  let ?w5 = "link0\<lparr>sender := k3, receiver := r2\<rparr>"
  have "closed_step link0 (Sender_call (Setoutput True)) ?w1"
    using link_step.sender_call [of "Setoutput True" link0]
    by (simp add: closed_intros set_output_def link0_def)
  moreover have "closed_step ?w1 (Sender_call (Nodelay (-1) (-1) (-1) 1)) ?w2"
    using link_step.sender_call [of "Nodelay (-1) (-1) (-1) 1" ?w1]
    by (simp add: closed_intros ikcp_nodelay_def link0_def k_open_def)
  moreover have "closed_step ?w2 (Sender_call (Update 0)) ?w3"
    using link_step.sender_call [of "Update 0" ?w2 0 "[]" "[]" k3] assms(1)
    by (simp add: closed_intros link0_def k_open_def)
  moreover have "closed_step ?w3 (Receiver_call (Setoutput True)) ?w4"
    using link_step.receiver_call [of "Setoutput True" ?w3]
    by (simp add: closed_intros set_output_def link0_def k_cb_def)
  moreover have "closed_step ?w4 (Receiver_call (Update 0)) ?w5"
    using link_step.receiver_call [of "Update 0" ?w4 0 "[]" "[]" r2] assms(6)
    by (simp add: closed_intros link0_def k_cb_def)
  moreover have "closed_step ?w5 (Post [1, 2, 3]) ?w"
    using link_step.post [of "[1, 2, 3]" ?w5 0 k4] assms(2-5) by (simp add: closed_intros link0_def)
  ultimately show ?thesis unfolding start_events_def by (blast intro: closed.run.intros)
qed

lemma round_run:
  assumes "ikcp_flush k4 = Inr ([hello_datagram], k5)" and "ikcp_input k5 (Some hello_ack) = Inr (x, k6)"
    and "output_cb k4" and "ikcp_input r2 (Some hello_datagram) = Inr (y, r3)" and "output_cb r3"
    and "ikcp_flush r3 = Inr ([hello_ack], r4)"
    and "sender w = k4" and "receiver w = r2"
  obtains w' where "closed.run w round_events w'" and "sender w' = k6" and "receiver w' = r4"
    and "pieces w' = pieces w"
proof -
  let ?w1 = "w\<lparr>sender := k5, forward := forward w \<union> {hello_datagram}\<rparr>"
  let ?w2 = "?w1\<lparr>receiver := r3\<rparr>"
  let ?w3 = "?w2\<lparr>receiver := r4, backward := backward w \<union> {hello_ack}\<rparr>"
  let ?w4 = "?w3\<lparr>sender := k6, forward := forward ?w3 \<union> set []\<rparr>"
  have "closed_step w (Sender_call Flush) ?w1"
    using link_step.sender_call [of Flush w 0 "[]" "[hello_datagram]" k5] assms(1,3,7)
    by (simp add: closed_intros)
  moreover have "closed_step ?w1 (Arrive hello_datagram) ?w2"
    using link_step.arrive [of hello_datagram ?w1 y r3] assms(4,8) by (simp add: closed_intros)
  moreover have "closed_step ?w2 (Receiver_call Flush) ?w3"
    using link_step.receiver_call [of Flush ?w2 0 "[]" "[hello_ack]" r4] assms(5,6)
    by (simp add: closed_intros)
  moreover have "closed_step ?w3 (Sender_call (Input (Some hello_ack))) ?w4"
    using link_step.sender_call [of "Input (Some hello_ack)" ?w3 x "[]" "[]" k6] assms(2)
    by (simp add: closed_intros)
  ultimately have "closed.run w round_events ?w4"
    unfolding round_events_def by (blast intro: closed.run.intros)
  then show ?thesis by (intro that [of ?w4]) simp_all
qed

theorem nothing_lost_witness:
  "\<exists>w. closed.run link0 start_events w \<and> pieces w = [(0, [1, 2, 3])] \<and>
     (unat (snd_nxt (sender w)) = 0 \<and> piece (snd_queue (sender w) ! 0) = (0, [1, 2, 3]) \<or>
      (\<exists>s \<in> set (snd_buf (sender w)) \<union> set (rcv_buf (receiver w)). piece s = (0, [1, 2, 3])) \<or>
      0 < unat (rcv_nxt (receiver w)))"
proof (rule hello_states)
  fix k3 k4 r2 assume "ikcp_update k_open 0 = Inr ([], k3)" "snd_queue k3 = []" "plentiful (mem k3)"
    "ikcp_send k3 (Some [1, 2, 3]) 3 = Inr (0, k4)" "map piece (snd_queue k4) = [(0, [1, 2, 3])]"
    "ikcp_update k_cb 0 = Inr ([], r2)"
  note run = start_run [OF this]
  show ?thesis using nothing_lost [OF link0_connected run, of 0] run by (intro exI conjI) auto
qed

theorem round_trip_clears_witness:
  "\<exists>w sent k r replies r' k'. closed.run link0 start_events w \<and>
     ikcp_flush (sender w) = Inr (sent, k) \<and> hand_over sent (receiver w) = Inr r \<and>
     ikcp_flush r = Inr (replies, r') \<and> hand_over replies k = Inr k' \<and>
     reached r 0 \<and> 0 \<notin> seg_sn ` set (snd_buf k')"
proof (rule hello_states)
  fix k3 k4 r2 assume s: "ikcp_update k_open 0 = Inr ([], k3)" "snd_queue k3 = []" "plentiful (mem k3)"
    "ikcp_send k3 (Some [1, 2, 3]) 3 = Inr (0, k4)" "map piece (snd_queue k4) = [(0, [1, 2, 3])]"
    "ikcp_update k_cb 0 = Inr ([], r2)"
    and k: "output_cb k4" "updated k4 \<noteq> 0" "plentiful (mem k4)"
    "map (h_sn \<circ> fst) (data_plan k4) = [0]"
    and r: "output_cb r2" "updated r2 \<noteq> 0" "plentiful (mem r2)" "rcv_wnd r2 = 32" "rcv_nxt r2 = 0"
    "ackcount r2 = 0"
  note run = start_run [OF s]
  obtain h payload where d: "data_plan k4 = [(h, payload)]" "h_sn h = 0" using k(4) by auto
  have "itimediff 0 32 < 0" by (simp add: itimediff_def)
  then show ?thesis
    using round_trip_clears [OF link0_connected run] k(1-3) r d run by (force simp: itimediff_def)
qed

theorem every_message_arrives_witness:
  "\<exists>w w' more. closed.run link0 start_events w \<and> closed.run w more w' \<and>
     delivered w = [] \<and> delivered w' = [[1, 2, 3]]"
proof (rule hello_states)
  fix k3 k4 r2 assume s: "ikcp_update k_open 0 = Inr ([], k3)" "snd_queue k3 = []" "plentiful (mem k3)"
    "ikcp_send k3 (Some [1, 2, 3]) 3 = Inr (0, k4)" "map piece (snd_queue k4) = [(0, [1, 2, 3])]"
    "ikcp_update k_cb 0 = Inr ([], r2)"
    and k: "output_cb k4" "updated k4 \<noteq> 0" "plentiful (mem k4)" "snd_wnd k4 = 32"
    and r: "output_cb r2" "updated r2 \<noteq> 0" "plentiful (mem r2)" "rcv_wnd r2 = 32" "rcv_buf r2 = []"
  note run = start_run [OF s]
  let ?w = "link0\<lparr>sender := k4, receiver := r2, pieces := [(0, [1, 2, 3])], posted := [[1, 2, 3]]\<rparr>"
  have "ready ?w" using k r by (simp add: ready_def able_def settled_def)
  from every_message_arrives [OF link0_connected run this] obtain more w'
    where "closed.run ?w more w'" "delivered w' = [[1, 2, 3]]" by auto
  moreover have "delivered ?w = []" by (simp add: link0_def)
  ultimately show ?thesis using run by blast
qed

text \<open>The message between two ends of which both could send.\<close>

definition peer0 :: peer where
  "peer0 = \<lparr>kcb = k_new, emitted = {}, stream = [], accepted = [], returned = []\<rparr>"

lemma duplex_hello:
  obtains p q where "duplex.run (peer0, peer0) [(True, Other_call (Setoutput True)),
      (True, Other_call (Nodelay (-1) (-1) (-1) 1)), (True, Post_message [1, 2, 3]), (True, Other_call (Update 0)),
      (False, Get_datagram hello_datagram), (False, Take_message 10)] (p, q)"
    and "returned q = [[1, 2, 3]]" and "stream p = [(0, [1, 2, 3])]" and "stream q = []"
proof -
  obtain k1 k2 r k3 k4 where k1: "ikcp_send k_open (Some [1, 2, 3]) 3 = Inr (0, k1)"
    "map piece (snd_queue k1) = [(0, [1, 2, 3])]" "output_cb k1"
    and k2: "ikcp_update k1 0 = Inr ([hello_datagram], k2)"
    and k3: "ikcp_input k_new (Some hello_datagram) = Inr (r, k3)"
    and k4: "ikcp_recv k3 True 10 = (3, [1, 2, 3], k4)"
    and k0: "snd_queue k_open = []" "plentiful (mem k_open)" by (rule hello_values)
  let ?p1 = "peer0\<lparr>kcb := k_new\<lparr>output_cb := True\<rparr>\<rparr>"
  let ?p2 = "peer0\<lparr>kcb := k_open\<rparr>"
  let ?p3 = "peer0\<lparr>kcb := k1, stream := [(0, [1, 2, 3])], accepted := [[1, 2, 3]]\<rparr>"
  let ?p4 = "?p3\<lparr>kcb := k2, emitted := {hello_datagram}\<rparr>"
  let ?q1 = "peer0\<lparr>kcb := k3\<rparr>"
  let ?q2 = "peer0\<lparr>kcb := k4, returned := [[1, 2, 3]]\<rparr>"
  have "acts {} peer0 (Other_call (Setoutput True)) ?p1"
    using acts.other [of "Setoutput True" peer0] by (simp add: set_output_def peer0_def)
  moreover have "acts {} ?p1 (Other_call (Nodelay (-1) (-1) (-1) 1)) ?p2"
    using acts.other [of "Nodelay (-1) (-1) (-1) 1" ?p1] by (simp add: ikcp_nodelay_def peer0_def k_open_def)
  moreover have "acts {} ?p2 (Post_message [1, 2, 3]) ?p3"
    using acts.post [of "[1, 2, 3]" ?p2 0 k1] k0 k1(1,2) by (simp add: peer0_def)
  moreover have "acts {} ?p3 (Other_call (Update 0)) ?p4"
    using acts.other [of "Update 0" ?p3 0 "[]" "[hello_datagram]" k2] k1(3) k2 by (simp add: peer0_def)
  moreover have "acts {hello_datagram} peer0 (Get_datagram hello_datagram) ?q1"
    using acts.get [of hello_datagram "{hello_datagram}" peer0 r k3] k3 by (simp add: peer0_def)
  moreover have "acts {hello_datagram} ?q1 (Take_message 10) ?q2"
    using acts.take [of 10 ?q1 3 "[1, 2, 3]" k4] k4 by (simp add: peer0_def)
  ultimately have "duplex_step (peer0, peer0) (True, Other_call (Setoutput True)) (?p1, peer0)"
    "duplex_step (?p1, peer0) (True, Other_call (Nodelay (-1) (-1) (-1) 1)) (?p2, peer0)"
    "duplex_step (?p2, peer0) (True, Post_message [1, 2, 3]) (?p3, peer0)"
    "duplex_step (?p3, peer0) (True, Other_call (Update 0)) (?p4, peer0)"
    "duplex_step (?p4, peer0) (False, Get_datagram hello_datagram) (?p4, ?q1)"
    "duplex_step (?p4, ?q1) (False, Take_message 10) (?p4, ?q2)"
    by (simp_all add: peer0_def)
  then have "duplex.run (peer0, peer0) [(True, Other_call (Setoutput True)),
      (True, Other_call (Nodelay (-1) (-1) (-1) 1)), (True, Post_message [1, 2, 3]), (True, Other_call (Update 0)),
      (False, Get_datagram hello_datagram), (False, Take_message 10)] (?p4, ?q2)"
    by (blast intro: duplex.run.intros)
  then show ?thesis by (intro that [of ?p4 ?q2]) (simp_all add: peer0_def)
qed

theorem both_directions_delivered_witness:
  "\<exists>events p q. duplex.run (peer0, peer0) events (p, q) \<and> returned q = [[1, 2, 3]] \<and>
     returned q = take 1 (accepted p)"
proof (rule duplex_hello)
  fix p q assume w: "duplex.run (peer0, peer0) [(True, Other_call (Setoutput True)),
      (True, Other_call (Nodelay (-1) (-1) (-1) 1)), (True, Post_message [1, 2, 3]), (True, Other_call (Update 0)),
      (False, Get_datagram hello_datagram), (False, Take_message 10)] (p, q)"
    "returned q = [[1, 2, 3]]" "stream p = [(0, [1, 2, 3])]" "stream q = []"
  have "joined 0 0 (peer0, peer0)" by (simp add: idle_def peer0_def k_new_created)
  from both_directions_delivered [OF this w(1)] w show ?thesis by auto
qed

end
