(* ===== verification/Raise.thy ===== *)
theory Raise
  imports Machine "HOL-Library.Sublist"
begin

text \<open>
  A flush that is left in the middle.  The output callback of the Lua bindings calls back into
  Lua (\<open>lkcp.c\<close>) or raises an error itself (\<open>lkcpsn.c\<close>); a Lua error is a \<open>longjmp\<close>, which
  leaves the callback, \<open>ikcp_output\<close>, \<open>ikcp_flush\<close> and \<open>ikcp_update\<close> at once.  The control
  block then stays as it is in memory at that moment.  Here the operations of \<open>Flush\<close> and \<open>Timer\<close>
  are written down with that possibility, and shown to agree with them as long as no call raises.
\<close>

section \<open>The operations\<close>

text \<open>
  \<open>Thrown\<close> is the end by an error, with the datagrams handed out (the last one to the call that
  raised) and the control block in memory.  \<open>raises n\<close> says whether the call for the datagram
  with index \<open>n\<close> of this flush raises.
\<close>

datatype 'a course = Went 'a | Thrown "u8 list list" ikcpcb

definition bindC :: "'a course outcome \<Rightarrow> ('a \<Rightarrow> 'b course outcome) \<Rightarrow> 'b course outcome" where
  "bindC m f = bindE m (\<lambda>c. case c of Went x \<Rightarrow> f x | Thrown sent k \<Rightarrow> Inr (Thrown sent k))"

lemma bindC_simps [simp]:
  "bindC (Inl e) f = Inl e"
  "bindC (Inr (Went x)) f = f x"
  "bindC (Inr (Thrown sent k)) f = Inr (Thrown sent k)"
  by (simp_all add: bindC_def)

lemma bindC_cong [fundef_cong]:
  "m = m' \<Longrightarrow> (\<And>x. m' = Inr (Went x) \<Longrightarrow> f x = f' x) \<Longrightarrow> bindC m f = bindC m' f'"
  by (auto simp: bindC_def bindE_def split: sum.split course.split)

definition raising_output :: "(nat \<Rightarrow> bool) \<Rightarrow> ikcpcb \<Rightarrow> flushing \<Rightarrow> flushing course outcome" where
  "raising_output raises k out =
     bindE (ikcp_output k out) (\<lambda>out'.
       if filled out \<noteq> [] \<and> raises (length (outputs out)) then Inr (Thrown (outputs out') k)
       else Inr (Went out'))"

definition raising_header ::
  "(nat \<Rightarrow> bool) \<Rightarrow> ikcpcb \<Rightarrow> ikcpseg \<Rightarrow> flushing \<Rightarrow> flushing course outcome" where
  "raising_header raises k seg out =
     bindC
       (if (of_nat (length (filled out)) :: u32) + IKCP_OVERHEAD > mtu k
        then bindC (raising_output raises k out) (\<lambda>out. Inr (Went (out\<lparr>filled := []\<rparr>)))
        else Inr (Went out))
       (\<lambda>out. guardE (length (filled out) + 24 \<le> buffer k) Out_Of_Bounds
                (Inr (Went (out\<lparr>filled := ikcp_encode_seg (filled out) seg\<rparr>))))"

fun raising_acks ::
  "(nat \<Rightarrow> bool) \<Rightarrow> ikcpcb \<Rightarrow> nat \<Rightarrow> nat \<Rightarrow> ikcpseg \<Rightarrow> flushing \<Rightarrow> (ikcpseg \<times> flushing) course outcome" where
  "raising_acks raises k 0 i seg out = Inr (Went (seg, out))"
| "raising_acks raises k (Suc n) i seg out =
     bindE (ikcp_ack_get k i) (\<lambda>(sn, ts).
       let seg = seg\<lparr>seg_sn := sn, seg_ts := ts\<rparr> in
       bindC (raising_header raises k seg out) (raising_acks raises k n (i + 1) seg))"

definition raising_probes ::
  "(nat \<Rightarrow> bool) \<Rightarrow> ikcpcb \<Rightarrow> ikcpseg \<Rightarrow> flushing \<Rightarrow> flushing course outcome" where
  "raising_probes raises k seg out =
     bindC
       (if probe k AND IKCP_ASK_SEND \<noteq> 0
        then raising_header raises k (seg\<lparr>seg_cmd := IKCP_CMD_WASK\<rparr>) out else Inr (Went out))
       (\<lambda>out. if probe k AND IKCP_ASK_TELL \<noteq> 0
               then raising_header raises k (seg\<lparr>seg_cmd := IKCP_CMD_WINS\<rparr>) out else Inr (Went out))"

text \<open>In memory the send buffer is \<open>before @ [segment] @ after\<close> while \<open>segment\<close> is looked at.\<close>

definition raising_segment ::
  "(nat \<Rightarrow> bool) \<Rightarrow> ikcpseg list \<Rightarrow> ikcpseg list \<Rightarrow> ikcpcb \<Rightarrow> u32 \<Rightarrow> ikcpseg \<Rightarrow> flushing \<Rightarrow>
   (ikcpseg \<times> flushing) course outcome" where
  "raising_segment raises before after k wnd segment out =
     (let segment = segment\<lparr>seg_wnd := wnd, seg_ts := current k, seg_una := rcv_nxt k\<rparr> in
      bindC
        (if data_overflow k segment out
         then bindC (raising_output raises (k\<lparr>snd_buf := before @ [segment] @ after\<rparr>) out)
                (\<lambda>out. Inr (Went (out\<lparr>filled := []\<rparr>)))
         else Inr (Went out))
        (\<lambda>out.
          guardE (length (filled out) + 24 + unat (seg_len segment) \<le> buffer k \<and>
              unat (seg_len segment) \<le> length (seg_data segment)) Out_Of_Bounds
            (Inr (Went (segment, out\<lparr>filled := ikcp_encode_seg (filled out) segment @
               (if seg_len segment > 0 then seg_bytes segment else [])\<rparr>)))))"

fun raising_data ::
  "(nat \<Rightarrow> bool) \<Rightarrow> u32 \<Rightarrow> u32 \<Rightarrow> u32 \<Rightarrow> ikcpseg list \<Rightarrow> ikcpseg list \<Rightarrow> ikcpcb \<Rightarrow> int \<Rightarrow> int \<Rightarrow>
   flushing \<Rightarrow> (ikcpseg list \<times> ikcpcb \<times> int \<times> int \<times> flushing) course outcome" where
  "raising_data raises resent rtomin wnd before [] k change lost out =
     Inr (Went (before, k, change, lost, out))"
| "raising_data raises resent rtomin wnd before (segment # ps) k change lost out =
     (let (needsend, segment, k, change, lost) = resend_step resent rtomin k segment change lost in
      bindC
        (if needsend
         then bindC (raising_segment raises before ps k wnd segment out) (\<lambda>(segment, out).
           Inr (Went (segment,
                if seg_xmit segment \<ge> dead_link k then k\<lparr>state := -1\<rparr> else k, out)))
         else Inr (Went (segment, k, out)))
        (\<lambda>(segment, k, out).
          raising_data raises resent rtomin wnd (before @ [segment]) ps k change lost out))"

definition raising_flush :: "(nat \<Rightarrow> bool) \<Rightarrow> ikcpcb \<Rightarrow> (u8 list list \<times> ikcpcb) course outcome" where
  "raising_flush raises k =
     (if updated k = 0 then Inr (Went ([], k))
      else
        let seg = control_segment k in
        bindC (raising_acks raises k (nat (sint (ackcount k))) 0 seg \<lparr>filled = [], outputs = []\<rparr>)
          (\<lambda>(seg, out).
        let k = k\<lparr>ackcount := 0\<rparr>;
            k = probe_timer k in
        bindC (raising_probes raises k seg out) (\<lambda>out.
        let k = k\<lparr>probe := 0\<rparr>;
            c = flush_cwnd k;
            k = move_snd_queue k (seg_wnd seg) c;
            resent = flush_resent k;
            rtomin = flush_rtomin k in
        bindC (raising_data raises resent rtomin (seg_wnd seg) [] (snd_buf k) k 0 0 out)
          (\<lambda>(segs, k, change, lost, out).
        let k = k\<lparr>snd_buf := segs\<rparr> in
        bindC (raising_output raises k out) (\<lambda>out.
          Inr (Went (outputs out, update_ssthresh resent c change lost k)))))))"

definition raising_update ::
  "(nat \<Rightarrow> bool) \<Rightarrow> ikcpcb \<Rightarrow> u32 \<Rightarrow> (u8 list list \<times> ikcpcb) course outcome" where
  "raising_update raises k now =
     (let k = k\<lparr>current := now\<rparr>;
          k = (if updated k = 0 then k\<lparr>updated := 1, ts_flush := current k\<rparr> else k);
          slap = itimediff (current k) (ts_flush k);
          (k, slap) = (if slap \<ge> 10000 \<or> slap < - 10000
                       then (k\<lparr>ts_flush := current k\<rparr>, 0) else (k, slap))
      in if slap \<ge> 0 then
           let k = k\<lparr>ts_flush := ts_flush k + interval k\<rparr>;
               k = (if itimediff (current k) (ts_flush k) \<ge> 0
                    then k\<lparr>ts_flush := current k + interval k\<rparr> else k)
           in raising_flush raises k
         else Inr (Went ([], k)))"

section \<open>Agreement with the flush that is not left\<close>

definition quiet :: "(nat \<Rightarrow> bool) \<Rightarrow> nat \<Rightarrow> nat \<Rightarrow> bool" where
  "quiet raises i j \<longleftrightarrow> (\<forall>n. i \<le> n \<longrightarrow> n < j \<longrightarrow> \<not> raises n)"

text \<open>
  A part of a flush that hands out the datagrams from \<open>s\<close> up to \<open>s'\<close>: either no call raises and it
  ends as the part of the undisturbed flush, or the first call that raises ends it, in a control
  block with \<open>Q\<close>.
\<close>

definition tracks ::
  "(nat \<Rightarrow> bool) \<Rightarrow> (ikcpcb \<Rightarrow> bool) \<Rightarrow> u8 list list \<Rightarrow> u8 list list \<Rightarrow> 'a course outcome \<Rightarrow> 'a \<Rightarrow> bool" where
  "tracks raises Q s s' r y \<longleftrightarrow> prefix s s' \<and>
     ((r = Inr (Went y) \<and> quiet raises (length s) (length s')) \<or>
      (\<exists>i k. length s \<le> i \<and> i < length s' \<and> raises i \<and> quiet raises (length s) i \<and>
         r = Inr (Thrown (take (Suc i) s') k) \<and> Q k))"

lemma tracks_went [simp]: "tracks raises Q s s (Inr (Went y)) y"
  by (simp add: tracks_def quiet_def)

lemma quiet_join: "quiet raises i j \<Longrightarrow> quiet raises j l \<Longrightarrow> quiet raises i l"
  unfolding quiet_def by (meson not_le_imp_less)

lemma tracks_bind:
  assumes "tracks raises Q s s1 r y" and "tracks raises Q s1 s2 (f y) z"
  shows "tracks raises Q s s2 (bindC r f) z"
proof -
  have p: "prefix s s1" "prefix s1 s2" using assms by (simp_all add: tracks_def)
  then have pre: "prefix s s2" and len: "length s \<le> length s1" "length s1 \<le> length s2"
    by (auto dest: prefix_length_le intro: prefix_order.trans)
  have take: "take (Suc i) s1 = take (Suc i) s2" if "i < length s1" for i
    using p(2) that by (auto simp: prefix_def)
  from assms(1) consider
    (went) "r = Inr (Went y)" "quiet raises (length s) (length s1)"
  | (left) i k where "length s \<le> i" "i < length s1" "raises i" "quiet raises (length s) i"
      "r = Inr (Thrown (take (Suc i) s1) k)" "Q k"
    by (auto simp: tracks_def)
  then show ?thesis
  proof cases
    case went
    then have r: "bindC r f = f y" by simp
    from assms(2) consider
      "f y = Inr (Went z)" "quiet raises (length s1) (length s2)"
    | i k where "length s1 \<le> i" "i < length s2" "raises i" "quiet raises (length s1) i"
        "f y = Inr (Thrown (take (Suc i) s2) k)" "Q k"
      by (auto simp: tracks_def)
    then show ?thesis
    proof cases
      case 1
      then show ?thesis using pre r quiet_join [OF went(2) 1(2)] by (simp add: tracks_def)
    next
      case (2 i k)
      then show ?thesis
        using pre r quiet_join [OF went(2) 2(4)] le_trans [OF len(1) 2(1)] by (auto simp: tracks_def)
    qed
  next
    case left
    then show ?thesis using pre len take [of i] by (auto simp: tracks_def)
  qed
qed

lemma tracks_map:
  assumes "tracks raises Q s s' r y"
  shows "tracks raises Q s s' (bindC r (\<lambda>x. Inr (Went (f x)))) (f y)"
  using assms by (rule tracks_bind) simp

lemma tracks_output:
  assumes "ikcp_output k out = Inr out'" and "Q k"
  shows "tracks raises Q (outputs out) (outputs out') (raising_output raises k out) out'"
proof (cases "filled out = []")
  case True
  then have "out' = out" using assms(1) by (simp add: ikcp_output_def)
  then show ?thesis using True by (simp add: raising_output_def ikcp_output_def)
next
  case False
  then have o: "outputs out' = outputs out @ [filled out]"
    using assms(1) by (auto simp: ikcp_output_def)
  then show ?thesis
    using False assms by (auto simp: raising_output_def tracks_def quiet_def less_Suc_eq_le)
qed

text \<open>The test for room in the buffer, for a control block \<open>k\<close> that may differ from the one in memory.\<close>

lemma tracks_room:
  assumes "(if c then bindE (ikcp_output k out) (\<lambda>out. Inr (out\<lparr>filled := []\<rparr>)) else Inr out) = Inr out'"
    and "output_cb km = output_cb k" and "Q km"
  shows "tracks raises Q (outputs out) (outputs out')
    (if c then bindC (raising_output raises km out) (\<lambda>out. Inr (Went (out\<lparr>filled := []\<rparr>)))
     else Inr (Went out)) out'"
proof (cases c)
  case True
  then obtain out1 where o: "ikcp_output k out = Inr out1" "out' = out1\<lparr>filled := []\<rparr>"
    using assms(1) by auto
  then have "ikcp_output km out = Inr out1" using assms(2) by (simp add: ikcp_output_def split: if_splits)
  from tracks_map [OF tracks_output [of km out out1 Q raises, OF this assms(3)],
      of "\<lambda>out. out\<lparr>filled := []\<rparr>"]
  show ?thesis using True o(2) by simp
next
  case False
  then show ?thesis using assms(1) by simp
qed

lemma tracks_header:
  assumes "flush_header k seg out = Inr out'" and "Q k"
  shows "tracks raises Q (outputs out) (outputs out') (raising_header raises k seg out) out'"
proof -
  obtain out1 where o: "(if (of_nat (length (filled out)) :: u32) + IKCP_OVERHEAD > mtu k
      then bindE (ikcp_output k out) (\<lambda>out. Inr (out\<lparr>filled := []\<rparr>)) else Inr out) = Inr out1"
    "length (filled out1) + 24 \<le> buffer k" "out' = out1\<lparr>filled := ikcp_encode_seg (filled out1) seg\<rparr>"
    using assms(1) unfolding flush_header_def by auto
  show ?thesis
    unfolding raising_header_def using tracks_room [where k = k and km = k and Q = Q, OF o(1) refl assms(2)]
    by (rule tracks_bind) (use o(2,3) in simp)
qed

lemma tracks_acks:
  assumes "flush_acks k n i seg out = Inr (seg', out')" and "Q k"
  shows "tracks raises Q (outputs out) (outputs out') (raising_acks raises k n i seg out) (seg', out')"
  using assms(1)
proof (induction n arbitrary: i seg out)
  case (Suc n)
  then obtain sn ts out1 where a: "ikcp_ack_get k i = Inr (sn, ts)"
    "flush_header k (seg\<lparr>seg_sn := sn, seg_ts := ts\<rparr>) out = Inr out1"
    "flush_acks k n (i + 1) (seg\<lparr>seg_sn := sn, seg_ts := ts\<rparr>) out1 = Inr (seg', out')"
    by (auto simp: Let_def)
  have "tracks raises Q (outputs out) (outputs out')
    (bindC (raising_header raises k (seg\<lparr>seg_sn := sn, seg_ts := ts\<rparr>) out)
      (raising_acks raises k n (i + 1) (seg\<lparr>seg_sn := sn, seg_ts := ts\<rparr>))) (seg', out')"
    by (rule tracks_bind) (rule tracks_header [where Q = Q, OF a(2) assms(2)], rule Suc.IH [OF a(3)])
  then show ?case using a(1) by (simp add: Let_def)
qed simp

lemma tracks_probes:
  assumes "flush_probes k seg out = Inr out'" and "Q k"
  shows "tracks raises Q (outputs out) (outputs out') (raising_probes raises k seg out) out'"
proof -
  have cond: "tracks raises Q (outputs o1) (outputs o2)
      (if c then raising_header raises k sg o1 else Inr (Went o1)) o2"
    if "(if c then flush_header k sg o1 else Inr o1) = Inr o2" for c sg o1 o2
    using that tracks_header [of k sg o1 o2 Q raises] assms(2) by (simp split: if_splits)
  obtain out1 where
    "(if probe k AND IKCP_ASK_SEND \<noteq> 0
      then flush_header k (seg\<lparr>seg_cmd := IKCP_CMD_WASK\<rparr>) out else Inr out) = Inr out1"
    "(if probe k AND IKCP_ASK_TELL \<noteq> 0
      then flush_header k (seg\<lparr>seg_cmd := IKCP_CMD_WINS\<rparr>) out1 else Inr out1) = Inr out'"
    using assms(1) unfolding flush_probes_def by auto
  then show ?thesis unfolding raising_probes_def by (intro tracks_bind [OF cond cond])
qed

lemma tracks_segment:
  assumes "flush_segment k wnd s out = Inr (s', out')"
    and "\<And>t. same_seg s t \<Longrightarrow> Q (k\<lparr>snd_buf := before @ [t] @ after\<rparr>)"
  shows "same_seg s s'" and "tracks raises Q (outputs out) (outputs out')
    (raising_segment raises before after k wnd s out) (s', out')"
proof -
  let ?s = "s\<lparr>seg_wnd := wnd, seg_ts := current k, seg_una := rcv_nxt k\<rparr>"
  let ?km = "k\<lparr>snd_buf := before @ [?s] @ after\<rparr>"
  obtain out1 where o: "(if data_overflow k ?s out
      then bindE (ikcp_output k out) (\<lambda>out. Inr (out\<lparr>filled := []\<rparr>)) else Inr out) = Inr out1"
    "length (filled out1) + 24 + unat (seg_len s) \<le> buffer k" "unat (seg_len s) \<le> length (seg_data s)"
    "s' = ?s" "out' = out1\<lparr>filled := ikcp_encode_seg (filled out1) ?s @
               (if seg_len s > 0 then seg_bytes ?s else [])\<rparr>"
    using assms(1) unfolding flush_segment_def Let_def by auto
  show "same_seg s s'" by (simp add: same_seg_def o(4))
  then have "Q ?km" using assms(2) [of ?s] o(4) by simp
  have cb: "output_cb ?km = output_cb k" by simp
  show "tracks raises Q (outputs out) (outputs out')
    (raising_segment raises before after k wnd s out) (s', out')"
    unfolding raising_segment_def Let_def
    using tracks_room [where km = ?km and k = k and Q = Q, OF o(1) cb \<open>Q ?km\<close>]
    by (rule tracks_bind) (use o(2-5) in simp)
qed

lemma tracks_data:
  assumes "flush_data resent rtomin wnd ps k change lost out = Inr (segs, k', ch, lo, out')"
    and "\<And>x st ts. list_all2 same_seg ps ts \<Longrightarrow> Q ((charged x st k)\<lparr>snd_buf := before @ ts\<rparr>)"
  shows "list_all2 same_seg ps segs \<and> (\<exists>x st. k' = charged x st k) \<and>
    tracks raises Q (outputs out) (outputs out')
      (raising_data raises resent rtomin wnd before ps k change lost out) (before @ segs, k', ch, lo, out')"
  using assms
proof (induction ps arbitrary: k change lost out before segs)
  case (Cons s ps)
  obtain s1 x1 ch1 lo1 where r: "resend_step resent rtomin k s change lost =
      (due resent k s, s1, charged x1 (state k) k, ch1, lo1)" and s1: "same_seg s s1"
    by (rule resend_step_result [of resent rtomin k s change lost]) blast
  let ?k1 = "charged x1 (state k) k"
  have refl: "list_all2 same_seg ps ps" by (simp add: list.rel_refl same_seg_def)
  obtain s2 k2 out2 segs2 where d: "(if due resent k s
      then bindE (flush_segment ?k1 wnd s1 out) (\<lambda>(segment, out).
        Inr (segment, if seg_xmit segment \<ge> dead_link ?k1 then ?k1\<lparr>state := -1\<rparr> else ?k1, out))
      else Inr (s1, ?k1, out)) = Inr (s2, k2, out2)"
    "flush_data resent rtomin wnd ps k2 ch1 lo1 out2 = Inr (segs2, k', ch, lo, out')" "segs = s2 # segs2"
    using Cons.prems(1) unfolding flush_data.simps r by auto
  have "same_seg s s2 \<and> (\<exists>st. k2 = charged x1 st k) \<and> tracks raises Q (outputs out) (outputs out2)
      (if due resent k s
       then bindC (raising_segment raises before ps ?k1 wnd s1 out) (\<lambda>(segment, out).
         Inr (Went (segment,
              if seg_xmit segment \<ge> dead_link ?k1 then ?k1\<lparr>state := -1\<rparr> else ?k1, out)))
       else Inr (Went (s1, ?k1, out))) (s2, k2, out2)"
  proof (cases "due resent k s")
    case True
    then have f: "flush_segment ?k1 wnd s1 out = Inr (s2, out2)"
      "k2 = (if seg_xmit s2 \<ge> dead_link ?k1 then ?k1\<lparr>state := -1\<rparr> else ?k1)"
      using d(1) by auto
    have q: "Q (?k1\<lparr>snd_buf := before @ [t] @ ps\<rparr>)" if "same_seg s1 t" for t
    proof -
      have "same_seg s t" using s1 that by (simp add: same_seg_def)
      then show ?thesis using Cons.prems(2) [of "t # ps"] refl by simp
    qed
    have seg: "same_seg s1 s2" "tracks raises Q (outputs out) (outputs out2)
      (raising_segment raises before ps ?k1 wnd s1 out) (s2, out2)"
      using tracks_segment [OF f(1), of Q before ps] q by blast+
    have "\<exists>st. k2 = charged x1 st k"
      unfolding f(2) by (cases "seg_xmit s2 \<ge> dead_link ?k1") (auto simp: charged_simps)
    then show ?thesis
      using True s1 seg(1) tracks_map [OF seg(2), of "\<lambda>(segment, out). (segment,
              if seg_xmit segment \<ge> dead_link ?k1 then ?k1\<lparr>state := -1\<rparr> else ?k1, out)"] f(2)
      by (auto simp: same_seg_def case_prod_unfold)
  next
    case False
    then show ?thesis using d(1) s1 by auto
  qed
  then obtain st where st: "same_seg s s2" "k2 = charged x1 st k" and t1: "tracks raises Q
      (outputs out) (outputs out2)
      (if due resent k s
       then bindC (raising_segment raises before ps ?k1 wnd s1 out) (\<lambda>(segment, out).
         Inr (Went (segment,
              if seg_xmit segment \<ge> dead_link ?k1 then ?k1\<lparr>state := -1\<rparr> else ?k1, out)))
       else Inr (Went (s1, ?k1, out))) (s2, k2, out2)" by blast
  have "Q ((charged x t k2)\<lparr>snd_buf := (before @ [s2]) @ ts\<rparr>)" if "list_all2 same_seg ps ts" for x t ts
    using Cons.prems(2) [of "s2 # ts" x t] st that by (simp add: charged_represents)
  from Cons.IH [OF d(2) this]
  have t2: "list_all2 same_seg ps segs2" "\<exists>x st. k' = charged x st k2" "tracks raises Q (outputs out2) (outputs out')
    (raising_data raises resent rtomin wnd (before @ [s2]) ps k2 ch1 lo1 out2)
    (before @ segs, k', ch, lo, out')"
    unfolding d(3) by simp_all
  have "tracks raises Q (outputs out) (outputs out')
    (raising_data raises resent rtomin wnd before (s # ps) k change lost out) (before @ segs, k', ch, lo, out')"
    unfolding raising_data.simps r Let_def prod.case
    by (rule tracks_bind [OF t1]) (use t2(3) in simp)
  then show ?case using st t2(1,2) by (auto simp: d(3) charged_represents)
next
  case Nil
  have "k = charged (xmit k) (state k) k" by (simp add: charged_simps)
  then show ?case using Nil by auto
qed

section \<open>A flush that may be left\<close>

text \<open>
  The control blocks a flush can be left with: before anything is changed, after the
  acknowledgements are gone, or in the loop over the send buffer.
\<close>

definition stopped :: "ikcpcb \<Rightarrow> ikcpcb \<Rightarrow> bool" where
  "stopped k k' \<longleftrightarrow> k' = k \<or> k' = probe_timer (k\<lparr>ackcount := 0\<rparr>) \<or>
     (\<exists>x st segs. list_all2 same_seg (snd_buf (windowed k)) segs \<and>
        k' = (charged x st (windowed k))\<lparr>snd_buf := segs\<rparr>)"

lemma flush_acks_wnd: "flush_acks k n i seg out = Inr (seg', out') \<Longrightarrow> seg_wnd seg' = seg_wnd seg"
  by (induction n arbitrary: i seg out) (force simp: Let_def)+

lemma tracks_flush:
  assumes "kcp_wf k" and "ikcp_flush k = Inr (sent, k')"
  shows "tracks raises (stopped k) [] sent (raising_flush raises k) (sent, k')"
proof (cases "updated k = 0")
  case True
  then show ?thesis using assms(2) by (auto simp: ikcp_flush_def raising_flush_def)
next
  case False
  let ?k1 = "probe_timer (k\<lparr>ackcount := 0\<rparr>)"
  let ?o = "\<lparr>filled = [], outputs = []\<rparr>"
  let ?c = "flush_cwnd (?k1\<lparr>probe := 0\<rparr>)"
  let ?k2 = "\<lambda>seg. move_snd_queue (?k1\<lparr>probe := 0\<rparr>) (seg_wnd seg) ?c"
  let ?r = "\<lambda>seg. flush_resent (?k2 seg)"
  let ?m = "\<lambda>seg. flush_rtomin (?k2 seg)"
  obtain seg out1 out2 segs k3 ch lo out3 out4 where f:
    "flush_acks k (nat (sint (ackcount k))) 0 (control_segment k) ?o = Inr (seg, out1)"
    "flush_probes ?k1 seg out1 = Inr out2"
    "flush_data (?r seg) (?m seg) (seg_wnd seg) (snd_buf (?k2 seg)) (?k2 seg) 0 0 out2 =
      Inr (segs, k3, ch, lo, out3)"
    "ikcp_output (k3\<lparr>snd_buf := segs\<rparr>) out3 = Inr out4"
    "sent = outputs out4" "k' = update_ssthresh (?r seg) ?c ch lo (k3\<lparr>snd_buf := segs\<rparr>)"
    using assms(2) False unfolding ikcp_flush_def Let_def by (auto split: prod.splits)
  have wnd: "seg_wnd seg = seg_wnd (control_segment k)" using f(1) by (rule flush_acks_wnd)
  have "flush_cwnd (?k1\<lparr>probe := 0\<rparr>) = flush_cwnd k"
    using prepared_frame(5) [of k] by (simp add: prepared_def)
  then have k2: "?k2 seg = windowed k"
    using move_prepared [of k] assms(1) wnd by (simp add: prepared_def kcp_wf_def)
  have loop: "stopped k ((charged x st (windowed k))\<lparr>snd_buf := [] @ ts\<rparr>)"
    if "list_all2 same_seg (snd_buf (windowed k)) ts" for x st ts
    using that by (auto simp: stopped_def)
  note data = tracks_data [where Q = "stopped k" and raises = raises, OF f(3) [unfolded k2] loop]
  have last: "stopped k (k3\<lparr>snd_buf := segs\<rparr>)" using data loop by force
  have "tracks raises (stopped k) (outputs out3) sent
    (bindC (raising_output raises (k3\<lparr>snd_buf := segs\<rparr>) out3)
      (\<lambda>out. Inr (Went (outputs out, update_ssthresh (?r seg) ?c ch lo (k3\<lparr>snd_buf := segs\<rparr>))))) (sent, k')"
    using tracks_map [OF tracks_output [where Q = "stopped k" and raises = raises, OF f(4) last]] f(5,6)
    by fastforce
  then have "tracks raises (stopped k) (outputs out2) sent
    (bindC (raising_data raises (?r seg) (?m seg) (seg_wnd seg) [] (snd_buf (?k2 seg)) (?k2 seg) 0 0 out2)
      (\<lambda>(segs, k, change, lost, out). bindC (raising_output raises (k\<lparr>snd_buf := segs\<rparr>) out)
        (\<lambda>out. Inr (Went (outputs out, update_ssthresh (?r seg) ?c change lost (k\<lparr>snd_buf := segs\<rparr>))))))
    (sent, k')"
    using data by (intro tracks_bind [where y = "(segs, k3, ch, lo, out3)"]) (simp_all add: k2)
  note rest = this
  have acks: "tracks raises (stopped k) [] (outputs out1)
    (raising_acks raises k (nat (sint (ackcount k))) 0 (control_segment k) ?o) (seg, out1)"
    using tracks_acks [where Q = "stopped k" and raises = raises, OF f(1)] by (simp add: stopped_def)
  have probes: "tracks raises (stopped k) (outputs out1) (outputs out2)
    (raising_probes raises ?k1 seg out1) out2"
    using tracks_probes [where Q = "stopped k" and raises = raises, OF f(2)] by (simp add: stopped_def)
  show ?thesis
    unfolding raising_flush_def Let_def if_not_P [OF False]
    by (rule tracks_bind, rule acks, unfold prod.case, rule tracks_bind, rule probes, rule rest)
qed

text \<open>What is left is a control block like any other; no data has been lost from it.\<close>

definition fragment_of :: "ikcpseg \<Rightarrow> u32 \<times> u8 list" where
  "fragment_of s = (seg_frg s, seg_data s)"

lemma same_segs_fragment: "list_all2 same_seg ss segs \<Longrightarrow> map fragment_of segs = map fragment_of ss"
  by (induction rule: list_all2_induct) (auto simp: same_seg_def fragment_of_def)

lemma windowed_fragment:
  "map fragment_of (snd_buf (windowed k)) @ map fragment_of (drop (window_room k) (snd_queue k)) =
   map fragment_of (snd_buf k @ snd_queue k)"
proof -
  have "map fragment_of (admitted k wnd (window_room k)) = take (window_room k) (map fragment_of (snd_queue k))" for wnd
    using room_le [of k]
    by (intro nth_equalityI) (simp_all add: admitted_def numbered_def fragment_of_def)
  moreover have "map fragment_of (take n q) @ map fragment_of (drop n q) = map fragment_of q" for n q
    by (simp flip: map_append)
  ultimately show ?thesis by (simp add: windowed_frame take_map)
qed

definition undisturbed :: "int \<Rightarrow> ikcpcb \<Rightarrow> ikcpcb \<Rightarrow> bool" where
  "undisturbed b k k' \<longleftrightarrow> kcp_inv b k' \<and> output_cb k' = output_cb k \<and> conv k' = conv k \<and>
     mtu k' = mtu k \<and> answers (mem k') = answers (mem k) \<and>
     rcv_nxt k' = rcv_nxt k \<and> rcv_queue k' = rcv_queue k \<and> rcv_buf k' = rcv_buf k \<and>
     map fragment_of (snd_buf k' @ snd_queue k') = map fragment_of (snd_buf k @ snd_queue k)"

lemma stopped_early:
  assumes "kcp_inv b k"
  shows "undisturbed b k (probe_timer (k\<lparr>ackcount := 0\<rparr>))"
  using assms
  by (cases "acklist k")
    (simp_all add: undisturbed_def kcp_inv_def wf_wire_def accounted_def owned_def wf_defs probe_timer_frame)

lemma stopped_loop:
  assumes "kcp_inv b k" and "list_all2 same_seg (snd_buf (windowed k)) segs"
  shows "undisturbed b k ((charged x st (windowed k))\<lparr>snd_buf := segs\<rparr>)"
proof -
  let ?k = "(charged x st (windowed k))\<lparr>snd_buf := segs\<rparr>"
  have inv: "kcp_wf k" "wf_wire k" "accounted b k" using assms(1) by (simp_all add: kcp_inv_def)
  have "wf_snd ((windowed k)\<lparr>snd_buf := segs\<rparr>)"
    using inv(1) assms(2) by (intro wf_snd_same windowed_wf_snd) (simp_all add: kcp_wf_def)
  then have "kcp_wf ?k"
    using inv(1)
    by (simp add: kcp_wf_def wf_snd_def wf_buffer_def wf_rcv_def wf_ack_def wf_time_def
        charged_def windowed_def admit_def prepared_def probe_timer_frame)
      (cases "acklist k"; simp)
  moreover have "accounted b ?k"
    using inv(3) room_le [of k] same_segs(2) [OF assms(2)]
    by (simp add: accounted_def owned_def charged_def windowed_frame)
      (simp add: windowed_def admit_def prepared_def probe_timer_frame admitted_def)
  moreover have "\<forall>s \<in> set (snd_buf (windowed k)). seg_conv s = conv k \<and> seg_cmd s = 81"
    using inv(2) admitted_wire by (auto simp: windowed_frame wf_wire_def)
  then have "\<forall>s \<in> set segs. seg_conv s = conv k \<and> seg_cmd s = 81"
    using same_segs(5) [OF assms(2)] by blast
  then have "wf_wire ?k"
    by (simp add: wf_wire_def charged_def windowed_def admit_def prepared_def probe_timer_frame)
  moreover have "map fragment_of (snd_buf ?k @ snd_queue ?k) = map fragment_of (snd_buf k @ snd_queue k)"
    using same_segs_fragment [OF assms(2)] windowed_fragment [of k]
    by (simp add: charged_def windowed_def admit_def prepared_def probe_timer_frame)
  ultimately show ?thesis
    by (simp add: undisturbed_def kcp_inv_def)
      (simp add: charged_def windowed_def admit_def prepared_def probe_timer_frame)
qed

lemma stopped_undisturbed:
  assumes "kcp_inv b k" and "stopped k k'"
  shows "undisturbed b k k'"
  using assms stopped_early stopped_loop
  unfolding stopped_def by (auto simp: undisturbed_def)

text \<open>The two ends of a flush or an update with a callback.\<close>

definition may_stop ::
  "int \<Rightarrow> ikcpcb \<Rightarrow> (nat \<Rightarrow> bool) \<Rightarrow> u8 list list \<times> ikcpcb \<Rightarrow> (u8 list list \<times> ikcpcb) course outcome \<Rightarrow> bool"
  where
  "may_stop b k raises y r \<longleftrightarrow>
     (if \<exists>n < length (fst y). raises n
      then \<exists>n < length (fst y). \<exists>k'. raises n \<and> (\<forall>j < n. \<not> raises j) \<and>
        r = Inr (Thrown (take (Suc n) (fst y)) k') \<and> undisturbed b k k'
      else r = Inr (Went y))"

lemma tracks_may_stop:
  assumes "tracks raises Q [] s' r y" and "fst y = s'" and "\<And>k'. Q k' \<Longrightarrow> undisturbed b k k'"
  shows "may_stop b k raises y r"
  using assms(1) unfolding tracks_def
proof (elim conjE disjE exE)
  assume "quiet raises (length []) (length s')" "r = Inr (Went y)"
  then show ?thesis using assms(2) by (auto simp: may_stop_def quiet_def)
next
  fix n k' assume "n < length s'" "raises n" "quiet raises (length []) n"
    "r = Inr (Thrown (take (Suc n) s') k')" "Q k'"
  then show ?thesis using assms(2,3) unfolding may_stop_def quiet_def by auto
qed

lemma flush_may_stop:
  assumes "kcp_inv b k" and "output_cb k"
  obtains sent k' where "ikcp_flush k = Inr (sent, k')"
    and "may_stop b k raises (sent, k') (raising_flush raises k)"
proof -
  obtain sent k' where f: "ikcp_flush k = Inr (sent, k')"
    using flush_returns [of k b] assms by (auto simp: kcp_inv_def)
  have "tracks raises (stopped k) [] sent (raising_flush raises k) (sent, k')"
    using assms(1) f by (intro tracks_flush) (simp_all add: kcp_inv_def)
  then have "may_stop b k raises (sent, k') (raising_flush raises k)"
    by (rule tracks_may_stop) (simp_all add: stopped_undisturbed [OF assms(1)])
  then show ?thesis using that f by blast
qed

lemma raising_update_result:
  "raising_update raises k now =
     (if itimediff now (flush_time k now) \<ge> 0
      then raising_flush raises (ticked k now (next_flush k now))
      else Inr (Went ([], k\<lparr>current := now\<rparr>)))"
proof (cases "updated k = 0")
  case True
  then show ?thesis
    by (simp add: raising_update_def flush_time_def next_flush_def ticked_def Let_def)
next
  case False
  then have "ticked k now t = k\<lparr>current := now, ts_flush := t\<rparr>" for t by (simp add: ticked_def)
  then show ?thesis
    using False by (simp add: raising_update_def flush_time_def next_flush_def Let_def)
qed

lemma update_may_stop:
  assumes "kcp_inv b k" and "output_cb k"
  obtains sent k' where "ikcp_update k now = Inr (sent, k')"
    and "may_stop b k raises (sent, k') (raising_update raises k now)"
proof (cases "itimediff now (flush_time k now) \<ge> 0")
  case True
  let ?k = "ticked k now (next_flush k now)"
  have inv: "kcp_inv b ?k" using assms(1) by (simp add: kcp_inv_def ticked_wf ticked_frame)
  have cb: "output_cb ?k" using assms(2) by (simp add: ticked_frame)
  obtain sent k' where f: "ikcp_flush ?k = Inr (sent, k')"
    "may_stop b ?k raises (sent, k') (raising_flush raises ?k)"
    using flush_may_stop [OF inv cb] by blast
  have "undisturbed b k k''" if "undisturbed b ?k k''" for k''
    using that by (simp add: undisturbed_def) (simp add: ticked_def)
  then have "may_stop b k raises (sent, k') (raising_flush raises ?k)"
    using f(2) by (auto simp: may_stop_def split: if_splits)
  then show ?thesis using that f(1) True by (simp add: update_result raising_update_result)
next
  case False
  then show ?thesis
    using that by (simp add: update_result raising_update_result may_stop_def)
qed

text \<open>
  C12: a Lua error raised by the output callback in the middle of a flush does no harm to the
  control block.  Until the first call that raises the flush does what it always does, and the
  datagrams handed out are the first of the datagrams of the undisturbed flush; then the control
  block that is left satisfies the invariant, accounts for all its memory, has not changed what was
  received and still holds all data that wait for their acknowledgement, in order.
\<close>

theorem flush_survives_errors:
  assumes "kcp_inv b k" and "output_cb k"
  shows "\<exists>sent k'. ikcp_flush k = Inr (sent, k') \<and>
    (if \<exists>n < length sent. raises n
     then \<exists>n < length sent. \<exists>k1. raises n \<and> (\<forall>j < n. \<not> raises j) \<and>
       raising_flush raises k = Inr (Thrown (take (Suc n) sent) k1) \<and> kcp_inv b k1 \<and>
       rcv_queue k1 = rcv_queue k \<and> rcv_buf k1 = rcv_buf k \<and>
       map fragment_of (snd_buf k1 @ snd_queue k1) = map fragment_of (snd_buf k @ snd_queue k)
     else raising_flush raises k = Inr (Went (sent, k')))"
proof (rule flush_may_stop [OF assms, of raises])
  fix sent k' assume f: "ikcp_flush k = Inr (sent, k')"
    "may_stop b k raises (sent, k') (raising_flush raises k)"
  show ?thesis
  proof (cases "\<exists>n < length sent. raises n")
    case True
    then obtain n k1 where "n < length sent" "raises n" "\<forall>j < n. \<not> raises j"
      "raising_flush raises k = Inr (Thrown (take (Suc n) sent) k1)" "undisturbed b k k1"
      using f(2) unfolding may_stop_def fst_conv if_P [OF True] by blast
    then show ?thesis using f(1) True unfolding undisturbed_def by auto
  next
    case False
    then show ?thesis using f by (auto simp: may_stop_def)
  qed
qed

end
