(* ===== verification/Lua.thy ===== *)
theory Lua
  imports Raise
begin

text \<open>
  What the two Lua bindings (\<open>lkcp.c\<close>, \<open>lkcpsn.c\<close>) share: the functions of the Lua interface they
  call, as a parameter; the control blocks behind the userdata; and the invariant of all blocks of
  a process, with the account of the memory they own.
\<close>

section \<open>The Lua interface\<close>

text \<open>
  The interpreter is not part of the repository.  Its values are a type \<open>'v\<close>, and what the bindings
  ask of them are functions: \<open>None\<close> says that the function raises an error.  \<open>checkudata\<close> is
  \<open>luaL_checkudata\<close> for the type \<open>"kcp_meta"\<close>; it tells which of the userdata the value is, counted in
  the order of their creation.  \<open>new_ref\<close> is the key \<open>luaL_ref\<close> chooses in the registry.
\<close>

type_synonym u64 = "64 word"

record 'v lua_api =
  checkinteger :: "'v option \<Rightarrow> u64 option"
  checklstring :: "'v option \<Rightarrow> u8 list option"
  checkudata :: "'v option \<Rightarrow> nat option"
  isfunction :: "'v \<Rightarrow> bool"
  isnil :: "'v \<Rightarrow> bool"
  new_ref :: "(u64 \<Rightarrow> 'v option) \<Rightarrow> 'v \<Rightarrow> u64"

text \<open>The values a function pushes as its results.\<close>

datatype pushed = Nil_value | Integer int | Str "u8 list" | Message string | Userdata nat

text \<open>
  The \<open>ikcpcb*\<close> in a userdata: null, a control block with its \<open>user\<close> pointer, or the address of a
  block that has been freed.
\<close>

datatype 'c block = Null_block | Live ikcpcb "'c option" | Released

text \<open>
  The state of a process: the userdata, the allocator (shared by all control blocks), the registry,
  the \<open>lua_State\<close>s (coroutines) that are alive, whether the receive buffer is in the registry, and
  what has been handed out so far.
\<close>

record ('v, 'c, 'o) lua =
  blocks :: "'c block list"
  pool :: memory
  registry :: "u64 \<Rightarrow> 'v option"
  threads :: "nat set"
  recv_buffer :: bool
  outbox :: "'o list"

text \<open>A crash is what the C code must not do; a Lua error (\<open>None\<close>) is an orderly end.\<close>

datatype crash = C_fault fault | Use_After_Free | Empty_Stack

type_synonym ('v, 'c, 'o, 'x) result = "crash + pushed list option \<times> ('v, 'c, 'o, 'x) lua_scheme"

definition returns :: "pushed list \<Rightarrow> ('v, 'c, 'o, 'x) lua_scheme \<Rightarrow> ('v, 'c, 'o, 'x) result" where
  "returns xs w = Inr (Some xs, w)"

definition raise :: "('v, 'c, 'o, 'x) lua_scheme \<Rightarrow> ('v, 'c, 'o, 'x) result" where
  "raise w = Inr (None, w)"

section \<open>Arguments\<close>

text \<open>The argument with index \<open>n\<close>, counted from one.\<close>

definition arg :: "'v list \<Rightarrow> nat \<Rightarrow> 'v option" where
  "arg args n = (if 1 \<le> n \<and> n \<le> length args then Some (args ! (n - 1)) else None)"

text \<open>\<open>int32_t x = luaL_checkinteger(L, n)\<close> keeps the lower 32 bits.\<close>

definition int_arg ::
  "'v lua_api \<Rightarrow> 'v list \<Rightarrow> nat \<Rightarrow> ('v, 'c, 'o, 'x) lua_scheme \<Rightarrow> (u32 \<Rightarrow> ('v, 'c, 'o, 'x) result) \<Rightarrow> ('v, 'c, 'o, 'x) result"
  where
  "int_arg api args n w f =
     (case checkinteger api (arg args n) of None \<Rightarrow> raise w | Some v \<Rightarrow> f (ucast v))"

definition str_arg ::
  "'v lua_api \<Rightarrow> 'v list \<Rightarrow> nat \<Rightarrow> ('v, 'c, 'o, 'x) lua_scheme \<Rightarrow> (u8 list \<Rightarrow> ('v, 'c, 'o, 'x) result) \<Rightarrow> ('v, 'c, 'o, 'x) result"
  where
  "str_arg api args n w f =
     (case checklstring api (arg args n) of None \<Rightarrow> raise w | Some s \<Rightarrow> f s)"

text \<open>The block a userdata points to.\<close>

definition kcp_arg :: "'v lua_api \<Rightarrow> 'v list \<Rightarrow> ('v, 'c, 'o, 'x) lua_scheme \<Rightarrow> nat option" where
  "kcp_arg api args w =
     (case checkudata api (arg args 1) of
        Some i \<Rightarrow> if i < length (blocks w) then Some i else None
      | None \<Rightarrow> None)"

text \<open>
  The beginning of every method: \<open>check_kcp\<close>, and the test for null pointers.  Reading
  \<open>kcp->user\<close> of a freed block is a crash.  The control block is handed on with the allocator of the process.
\<close>

definition with_kcp ::
  "'v lua_api \<Rightarrow> 'v list \<Rightarrow> ('v, 'c, 'o, 'x) lua_scheme \<Rightarrow>
   (nat \<Rightarrow> ikcpcb \<Rightarrow> 'c \<Rightarrow> ('v, 'c, 'o, 'x) result) \<Rightarrow> ('v, 'c, 'o, 'x) result" where
  "with_kcp api args w f =
     (case kcp_arg api args w of
        None \<Rightarrow> raise w
      | Some i \<Rightarrow>
          (case blocks w ! i of
             Null_block \<Rightarrow> returns [Nil_value, Message ''error: kcp not args''] w
           | Live k None \<Rightarrow> returns [Nil_value, Message ''error: kcp not args''] w
           | Live k (Some c) \<Rightarrow> f i (k\<lparr>mem := pool w\<rparr>) c
           | Released \<Rightarrow> Inl Use_After_Free))"

text \<open>The state after the control block \<open>i\<close> has changed.\<close>

definition put :: "('v, 'c, 'o, 'x) lua_scheme \<Rightarrow> nat \<Rightarrow> ikcpcb \<Rightarrow> 'c \<Rightarrow> ('v, 'c, 'o, 'x) lua_scheme" where
  "put w i k c = w\<lparr>blocks := (blocks w)[i := Live k (Some c)], pool := mem k\<rparr>"

text \<open>\<open>4*1024*1024\<close>\<close>

definition RECV_BUFFER_LEN :: int where
  "RECV_BUFFER_LEN = 4 * 1024 * 1024"

section \<open>The invariant\<close>

text \<open>
  \<open>held\<close> is the number of blocks a callback structure owns; \<open>good\<close> is what it has to satisfy.
\<close>

fun block_owns :: "('c \<Rightarrow> int) \<Rightarrow> 'c block \<Rightarrow> int" where
  "block_owns held (Live k (Some c)) = owned k + held c"
| "block_owns held (Live k None) = owned k"
| "block_owns held _ = 0"

fun block_ok :: "('c \<Rightarrow> bool) \<Rightarrow> 'c block \<Rightarrow> bool" where
  "block_ok good (Live k (Some c)) \<longleftrightarrow>
     kcp_wf k \<and> wf_wire k \<and> output_cb k \<and> mtu k = IKCP_MTU_DEF \<and> good c"
| "block_ok good (Live k None) \<longleftrightarrow> False"
| "block_ok good Null_block \<longleftrightarrow> False"
| "block_ok good Released \<longleftrightarrow> True"

definition world_ok :: "('c \<Rightarrow> int) \<Rightarrow> ('c \<Rightarrow> bool) \<Rightarrow> int \<Rightarrow> ('v, 'c, 'o, 'x) lua_scheme \<Rightarrow> bool" where
  "world_ok held good b w \<longleftrightarrow>
     (\<forall>x \<in> set (blocks w). block_ok good x) \<and>
     live (pool w) = b + sum_list (map (block_owns held) (blocks w)) \<and> recv_buffer w"

lemma sum_list_list_update:
  fixes xs :: "int list"
  shows "i < length xs \<Longrightarrow> sum_list (xs[i := x]) = sum_list xs - xs ! i + x"
proof (induction xs arbitrary: i)
  case (Cons y ys)
  then show ?case by (cases i) simp_all
qed simp

lemma kcp_arg_bound: "kcp_arg api args w = Some i \<Longrightarrow> i < length (blocks w)"
  by (auto simp: kcp_arg_def split: option.splits if_splits)

text \<open>The control block a method works on satisfies the invariant, whatever the other blocks own.\<close>

lemma world_block:
  assumes "world_ok held good b w" and "i < length (blocks w)" and "blocks w ! i = Live k co"
  obtains c where "co = Some c" and "good c" and "kcp_inv (live (pool w) - owned k) (k\<lparr>mem := pool w\<rparr>)"
    and "settings (k\<lparr>mem := pool w\<rparr>) = (conv k, IKCP_MTU_DEF, True)"
proof -
  have ok: "block_ok good (Live k co)" using assms by (metis nth_mem world_ok_def)
  then obtain c where "co = Some c" by (cases co) auto
  then show ?thesis
    using ok by (intro that) (auto simp: kcp_inv_def wf_defs wf_wire_def accounted_def owned_def settings_def)
qed

lemma world_put:
  assumes "world_ok held good b w" and "i < length (blocks w)" and "blocks w ! i = Live k (Some c)"
    and "kcp_inv (live (pool w) - owned k) (k'\<lparr>mem := m\<rparr>)" and "settings k' = (x, IKCP_MTU_DEF, True)"
    and "good c'" and "live (mem k') = live m + held c' - held c"
  shows "world_ok held good b (put w i k' c')"
proof -
  have k': "kcp_wf k'" "wf_wire k'" "live m = live (pool w) - owned k + owned k'"
    using assms(4) by (simp_all add: kcp_inv_def wf_defs wf_wire_def accounted_def owned_def)
  have ok: "\<forall>y \<in> set ((blocks w)[i := Live k' (Some c')]). block_ok good y"
    using assms(1,5,6) k'(1,2) by (auto simp: world_ok_def settings_def dest: set_update_subset_insert [THEN subsetD])
  have "sum_list (map (block_owns held) ((blocks w)[i := Live k' (Some c')])) =
      sum_list (map (block_owns held) (blocks w)) - (owned k + held c) + (owned k' + held c')"
    using assms(2,3) by (simp add: map_update sum_list_list_update)
  then show ?thesis
    using assms(1,7) ok k'(3) by (simp add: world_ok_def put_def)
qed

text \<open>The common case: the callback structure is as it was, and so is the memory it owns.\<close>

lemma world_put_same:
  assumes "world_ok held good b w" and "i < length (blocks w)" and "blocks w ! i = Live k (Some c)"
    and "kcp_inv (live (pool w) - owned k) k'" and "settings k' = settings (k\<lparr>mem := pool w\<rparr>)"
    and "good c'" and "held c' = held c"
  shows "world_ok held good b (put w i k' c')"
proof (rule world_put [OF assms(1-3)])
  show "kcp_inv (live (pool w) - owned k) (k'\<lparr>mem := mem k'\<rparr>)" using assms(4) by simp
  obtain "settings (k\<lparr>mem := pool w\<rparr>) = (conv k, IKCP_MTU_DEF, True)"
    using world_block [OF assms(1-3)] by metis
  then show "settings k' = (conv k, IKCP_MTU_DEF, True)" using assms(5) by simp
qed (use assms(6,7) in simp_all)

text \<open>
  The end of a method that flushes: the datagrams handed out, if the flush ended or if it
  was left by an error.
\<close>

definition finish ::
  "('v, 'c, 'o, 'x) lua_scheme \<Rightarrow> nat \<Rightarrow> 'c \<Rightarrow> (u8 list list \<Rightarrow> 'o list) \<Rightarrow> (u8 list list \<Rightarrow> 'o list) \<Rightarrow>
   (u8 list list \<times> ikcpcb) course outcome \<Rightarrow> ('v, 'c, 'o, 'x) result" where
  "finish w i c went thrown r =
     (case r of
        Inl e \<Rightarrow> Inl (C_fault e)
      | Inr (Went (sent, k)) \<Rightarrow> returns [] ((put w i k c)\<lparr>outbox := outbox w @ went sent\<rparr>)
      | Inr (Thrown sent k) \<Rightarrow> raise ((put w i k c)\<lparr>outbox := outbox w @ thrown sent\<rparr>))"

section \<open>Sessions of a process\<close>

text \<open>
  A Lua function of the binding is called by its name in a coroutine; \<open>fails n\<close> says whether the
  \<open>n\<close>-th call back into Lua (or into skynet) during this call fails.  Coroutines come and go.
\<close>

datatype 'v event = Invoke string "'v list" nat "nat \<Rightarrow> bool" | Spawn nat | Die nat

text \<open>
  A script does not get hold of a userdata that has been collected: the collector calls \<open>__gc\<close> once,
  when nothing refers to the userdata any more, and a script is expected not to call it itself.
\<close>

definition not_released :: "'v lua_api \<Rightarrow> 'v list \<Rightarrow> ('v, 'c, 'o, 'x) lua_scheme \<Rightarrow> bool" where
  "not_released api args w \<longleftrightarrow>
     (\<forall>i. kcp_arg api args w = Some i \<longrightarrow> blocks w ! i \<noteq> Released)"

text \<open>A process that has just loaded the binding.\<close>

definition opened :: "int \<Rightarrow> ('v, 'c, 'o, 'x) lua_scheme \<Rightarrow> bool" where
  "opened b w \<longleftrightarrow> blocks w = [] \<and> live (pool w) = b \<and> recv_buffer w \<and> outbox w = []"

lemma opened_ok: "opened b w \<Longrightarrow> world_ok held good b w"
  by (simp add: opened_def world_ok_def)

section \<open>Methods that keep the invariant\<close>

text \<open>A call ends well unless the allocator refuses memory.\<close>

definition fine ::
  "('c \<Rightarrow> int) \<Rightarrow> ('c \<Rightarrow> bool) \<Rightarrow> int \<Rightarrow> ('v, 'c, 'o, 'x) lua_scheme \<Rightarrow> ('v, 'c, 'o, 'x) result \<Rightarrow> bool" where
  "fine held good b w r \<longleftrightarrow>
     (case r of Inl e \<Rightarrow> \<not> plentiful (pool w) | Inr (x, w') \<Rightarrow> world_ok held good b w')"

named_theorems fine_rules \<open>the invariant is kept\<close>

lemma fine_ends [fine_rules]:
  "world_ok held good b w' \<Longrightarrow> fine held good b w (returns xs w')"
  "world_ok held good b w' \<Longrightarrow> fine held good b w (raise w')"
  by (simp_all add: fine_def returns_def raise_def)

lemma fine_int_arg [fine_rules]:
  "world_ok held good b w' \<Longrightarrow> (\<And>v. fine held good b w (f v)) \<Longrightarrow> fine held good b w (int_arg api args n w' f)"
  by (auto simp: int_arg_def fine_ends split: option.split)

lemma fine_str_arg [fine_rules]:
  "world_ok held good b w' \<Longrightarrow> (\<And>s. fine held good b w (f s)) \<Longrightarrow> fine held good b w (str_arg api args n w' f)"
  by (auto simp: str_arg_def fine_ends split: option.split)

text \<open>The control block \<open>i\<close>, as a method sees it.\<close>

definition kcp_at ::
  "('c \<Rightarrow> int) \<Rightarrow> ('c \<Rightarrow> bool) \<Rightarrow> int \<Rightarrow> ('v, 'c, 'o, 'x) lua_scheme \<Rightarrow> nat \<Rightarrow> ikcpcb \<Rightarrow> 'c \<Rightarrow> bool" where
  "kcp_at held good b w i k c \<longleftrightarrow> world_ok held good b w \<and> i < length (blocks w) \<and> good c \<and>
     (\<exists>k0. blocks w ! i = Live k0 (Some c) \<and> k = k0\<lparr>mem := pool w\<rparr>)"

lemma fine_with_kcp [fine_rules]:
  assumes "world_ok held good b w" and "not_released api args w"
    and "\<And>i k c. kcp_at held good b w i k c \<Longrightarrow> fine held good b w (f i k c)"
  shows "fine held good b w (with_kcp api args w f)"
proof (cases "kcp_arg api args w")
  case None
  then show ?thesis using assms(1) by (simp add: with_kcp_def fine_ends)
next
  case (Some i)
  then have i: "i < length (blocks w)" by (rule kcp_arg_bound)
  show ?thesis
  proof (cases "blocks w ! i")
    case (Live k co)
    then obtain c where c: "co = Some c" "good c" using world_block [OF assms(1) i] by metis
    then have "kcp_at held good b w i (k\<lparr>mem := pool w\<rparr>) c"
      using assms(1) i Live by (auto simp: kcp_at_def)
    then show ?thesis using assms(3) Some Live c(1) by (simp add: with_kcp_def)
  next
    case Released
    then show ?thesis using assms(2) Some by (simp add: not_released_def)
  qed (use assms(1) Some in \<open>simp add: with_kcp_def fine_ends\<close>)
qed

lemma kcp_at_inv:
  assumes "kcp_at held good b w i k c"
  shows "kcp_inv (live (mem k) - owned k) k" and "settings k = (conv k, IKCP_MTU_DEF, True)"
    and "mem k = pool w" and "output_cb k" and "mtu k = IKCP_MTU_DEF"
proof -
  obtain k0 where k0: "world_ok held good b w" "i < length (blocks w)" "blocks w ! i = Live k0 (Some c)"
    "k = k0\<lparr>mem := pool w\<rparr>" using assms by (auto simp: kcp_at_def)
  obtain "kcp_inv (live (pool w) - owned k0) k" "settings k = (conv k0, IKCP_MTU_DEF, True)"
    using world_block [OF k0(1-3)] k0(4) by metis
  then show "kcp_inv (live (mem k) - owned k) k" "settings k = (conv k, IKCP_MTU_DEF, True)"
    "mem k = pool w" "output_cb k" "mtu k = IKCP_MTU_DEF"
    using k0(4) by (simp_all add: owned_def settings_def)
qed

lemma kcp_at_put:
  assumes "kcp_at held good b w i k c" and "kcp_inv (live (mem k) - owned k) k'"
    and "settings k' = settings k" and "good c'" and "held c' = held c"
  shows "world_ok held good b (put w i k' c')"
proof -
  obtain k0 where k0: "world_ok held good b w" "i < length (blocks w)" "blocks w ! i = Live k0 (Some c)"
    "k = k0\<lparr>mem := pool w\<rparr>" using assms(1) by (auto simp: kcp_at_def)
  have "live (mem k) - owned k = live (pool w) - owned k0" by (simp add: k0(4) owned_def)
  then show ?thesis using world_put_same [OF k0(1-3)] assms(2-5) k0(4) by metis
qed

lemma outbox_ok: "world_ok held good b (w\<lparr>outbox := x\<rparr>) = world_ok held good b w"
  by (simp add: world_ok_def)

lemma world_ok_frame:
  "world_ok held good b (w\<lparr>registry := r\<rparr>) = world_ok held good b w"
  "world_ok held good b (w\<lparr>threads := t\<rparr>) = world_ok held good b w"
  by (simp_all add: world_ok_def)

text \<open>When everything has been released, nothing is owned.\<close>

lemma world_released:
  assumes "world_ok held good b w" and "set (blocks w) \<subseteq> {Released}"
  shows "live (pool w) = b"
proof -
  have "map (block_owns held) (blocks w) = map (\<lambda>_. 0) (blocks w)"
    using assms(2) by (intro map_cong) auto
  then have "sum_list (map (block_owns held) (blocks w)) = 0" by (metis sum_list_0)
  then show ?thesis using assms(1) by (simp add: world_ok_def)
qed

text \<open>A new block in the list, and one that has been released.\<close>

lemma world_new:
  assumes "world_ok held good b w" and "ikcp_create m c = Inr k" and "live m = live (pool w) + held d"
    and "good d"
  shows "world_ok held good b (w\<lparr>pool := mem k, blocks := blocks w @ [Live (k\<lparr>output_cb := True\<rparr>) (Some d)]\<rparr>)"
proof -
  have "created (live m) k" using assms(2) by (auto simp: created_def)
  then have inv: "kcp_inv (live m) k" by (rule created_inv)
  have mtu: "mtu k = 1400"
    using assms(2) by (auto simp: ikcp_create_def new_kcpcb_def Let_def split: prod.splits if_splits)
  have "kcp_wf (k\<lparr>output_cb := True\<rparr>)" "wf_wire (k\<lparr>output_cb := True\<rparr>)" "owned (k\<lparr>output_cb := True\<rparr>) = owned k"
    using inv by (simp_all add: kcp_inv_def wf_defs wf_wire_def owned_def)
  then show ?thesis
    using assms(1,3,4) inv mtu by (simp add: world_ok_def kcp_inv_def accounted_def)
qed

lemma world_release:
  assumes "world_ok held good b w" and "i < length (blocks w)" and "blocks w ! i = Live k (Some c)"
    and "live m = live (pool w) - held c"
  shows "world_ok held good b (w\<lparr>pool := ikcp_release (k\<lparr>mem := m\<rparr>), blocks := (blocks w)[i := Released]\<rparr>)"
proof -
  have "accounted (live m - owned k) (k\<lparr>mem := m\<rparr>)" by (simp add: accounted_def owned_def)
  then have "live (ikcp_release (k\<lparr>mem := m\<rparr>)) = live m - owned k" by (rule release_live)
  moreover have "sum_list (map (block_owns held) ((blocks w)[i := Released])) =
      sum_list (map (block_owns held) (blocks w)) - (owned k + held c)"
    using assms(2,3) by (simp add: map_update sum_list_list_update)
  moreover have "\<forall>y \<in> set ((blocks w)[i := Released]). block_ok good y"
    using assms(1) by (auto simp: world_ok_def dest: set_update_subset_insert [THEN subsetD])
  ultimately show ?thesis using assms(1,4) by (simp add: world_ok_def)
qed

subsection \<open>The calls of the protocol\<close>

lemma send_settings: "kcp_wf k \<Longrightarrow> ikcp_send k buf len = Inr (r, k') \<Longrightarrow> settings k' = settings k"
  using send_grows [of k buf len r k'] by (auto simp: grows_to_def grown_def settings_def)

lemma recv_settings: "settings (snd (snd (ikcp_recv k buf len))) = settings k"
  by (cases rule: recv_cases [of k buf len])
    (simp_all add: settings_def recv_done_def recv_taken_def taken_def Let_def move_frame)

lemma setters_settings:
  "settings (snd (ikcp_nodelay k nd i resend nc)) = settings k"
  "settings (snd (ikcp_wndsize k sw rw)) = settings k"
  by (simp_all add: settings_def ikcp_nodelay_def ikcp_wndsize_def Let_def)

lemma flush_settings:
  assumes "kcp_wf k" and "output_cb k" and "ikcp_flush k = Inr (sent, k')"
  shows "settings k' = settings k"
  using assms
proof (cases rule: flush_cases)
  case (flushed segs x st)
  then show ?thesis
    by (simp add: settings_def ssthresh_frame charged_def windowed_def admit_def prepared_def probe_timer_frame)
qed simp

lemma update_settings:
  assumes "kcp_wf k" and "output_cb k" and "ikcp_update k now = Inr (sent, k')"
  shows "settings k' = settings k"
  using assms(1,3,2)
proof (cases rule: update_cases)
  case flushed
  have "kcp_wf (ticked k now (next_flush k now))" using assms(1) by (simp add: ticked_wf)
  from flush_settings [OF this _ flushed(1)] assms(2) show ?thesis
    by (simp add: ticked_frame) (simp add: ticked_def settings_def)
qed (simp add: settings_def)

lemma undisturbed_keeps: "undisturbed b k k' \<Longrightarrow> kcp_inv b k' \<and> settings k' = settings k"
  by (simp add: undisturbed_def settings_def)

text \<open>Each call of the protocol, as the methods of both bindings make it.\<close>

lemma fine_send [fine_rules]:
  assumes "kcp_at held good b w i k c"
    and "\<And>r k'. world_ok held good b (put w i k' c) \<Longrightarrow> ikcp_send k (Some data) (s32 (int (length data))) = Inr (r, k') \<Longrightarrow>
      fine held good b w (f r k')"
  shows "fine held good b w (case ikcp_send k (Some data) (s32 (int (length data))) of
    Inl e \<Rightarrow> Inl (C_fault e) | Inr (r, k') \<Rightarrow> f r k')"
proof -
  let ?n = "s32 (int (length data))"
  note inv = kcp_at_inv [OF assms(1)]
  have "?n \<le> int (length data)"
  proof (cases "length data < 2147483648")
    case True
    then show ?thesis by (simp add: s32_nat)
  next
    case False
    then show ?thesis using s32_bounds(2) [of "int (length data)"] by simp
  qed
  then have "proper k (Send (Some data) ?n)" using s32_bounds(2) [of "int (length data)"] by simp
  then obtain r k' where s: "ikcp_send k (Some data) ?n = Inr (r, k')"
    using send_total inv(1) by (metis kcp_inv_def surj_pair)
  then have "world_ok held good b (put w i k' c)"
    using assms(1) send_inv [OF inv(1) s] send_settings [OF _ s]
      inv(1) by (intro kcp_at_put) (auto simp: kcp_at_def kcp_inv_def)
  then show ?thesis using s assms(2) by simp
qed

lemma fine_input [fine_rules]:
  assumes "kcp_at held good b w i k c"
    and "\<And>r k'. world_ok held good b (put w i k' c) \<Longrightarrow> ikcp_input k (Some data) = Inr (r, k') \<Longrightarrow>
      fine held good b w (f r k')"
  shows "fine held good b w (case ikcp_input k (Some data) of
    Inl e \<Rightarrow> Inl (C_fault e) | Inr (r, k') \<Rightarrow> f r k')"
proof (cases "ikcp_input k (Some data)")
  case (Inl e)
  then have "\<not> plentiful (mem k)"
    using perform_safe [OF kcp_at_inv(1) [OF assms(1)], of "Input (Some data)"] by simp
  then show ?thesis using Inl kcp_at_inv(3) [OF assms(1)] by (simp add: fine_def)
next
  case (Inr x)
  then obtain r k' where s: "ikcp_input k (Some data) = Inr (r, k')" by (metis surj_pair)
  then have "world_ok held good b (put w i k' c)"
    using assms(1) input_inv [OF kcp_at_inv(1) [OF assms(1)] s] input_settings [OF s]
    by (intro kcp_at_put) (auto simp: kcp_at_def)
  then show ?thesis using s assms(2) by simp
qed

lemma fine_recv [fine_rules]:
  assumes "kcp_at held good b w i k c"
    and "\<And>r out k'. world_ok held good b (put w i k' c) \<Longrightarrow> fine held good b w (f r out k')"
  shows "fine held good b w (case ikcp_recv k buf len of (r, out, k') \<Rightarrow> f r out k')"
proof -
  have "world_ok held good b (put w i (snd (snd (ikcp_recv k buf len))) c)"
    using assms(1) recv_inv [OF kcp_at_inv(1) [OF assms(1)]] recv_settings
    by (intro kcp_at_put) (auto simp: kcp_at_def)
  then show ?thesis using assms(2) by (simp add: case_prod_unfold)
qed

lemma fine_setters [fine_rules]:
  assumes "kcp_at held good b w i k c"
  shows "(\<And>r k'. world_ok held good b (put w i k' c) \<Longrightarrow> fine held good b w (f r k')) \<Longrightarrow>
      fine held good b w (case ikcp_nodelay k nd iv rs nc of (r, k') \<Rightarrow> f r k')"
    and "(\<And>r k'. world_ok held good b (put w i k' c) \<Longrightarrow> fine held good b w (f r k')) \<Longrightarrow>
      fine held good b w (case ikcp_wndsize k sw rw of (r, k') \<Rightarrow> f r k')"
proof -
  note inv = setters_inv(2,3) [OF kcp_at_inv(1) [OF assms]]
  have "world_ok held good b (put w i (snd (ikcp_nodelay k nd iv rs nc)) c)"
    "world_ok held good b (put w i (snd (ikcp_wndsize k sw rw)) c)"
    using assms inv setters_settings
    by (auto intro!: kcp_at_put [OF assms] simp: kcp_at_def)
  then show "(\<And>r k'. world_ok held good b (put w i k' c) \<Longrightarrow> fine held good b w (f r k')) \<Longrightarrow>
      fine held good b w (case ikcp_nodelay k nd iv rs nc of (r, k') \<Rightarrow> f r k')"
    "(\<And>r k'. world_ok held good b (put w i k' c) \<Longrightarrow> fine held good b w (f r k')) \<Longrightarrow>
      fine held good b w (case ikcp_wndsize k sw rw of (r, k') \<Rightarrow> f r k')"
    by (simp_all add: case_prod_unfold)
qed

lemma fine_finish:
  assumes "kcp_at held good b w i k c" and "good c'" and "held c' = held c"
    and "may_stop (live (mem k) - owned k) k raises (sent, k') r"
    and "kcp_inv (live (mem k) - owned k) k'" and "settings k' = settings k"
  shows "fine held good b w (finish w i c' went thrown r)"
proof (cases "\<exists>n < length sent. raises n")
  case True
  then obtain s k1 where "r = Inr (Thrown s k1)" "undisturbed (live (mem k) - owned k) k k1"
    using assms(4) by (auto simp: may_stop_def)
  then show ?thesis
    using kcp_at_put [OF assms(1) _ _ assms(2,3)] undisturbed_keeps
    by (auto simp: finish_def fine_ends outbox_ok)
next
  case False
  then have "r = Inr (Went (sent, k'))" using assms(4) by (simp add: may_stop_def)
  then show ?thesis
    using kcp_at_put [OF assms(1,5,6,2,3)] by (simp add: finish_def fine_ends outbox_ok)
qed

lemma fine_flush [fine_rules]:
  assumes "kcp_at held good b w i k c" and "good c'" and "held c' = held c"
  shows "fine held good b w (finish w i c' went thrown (raising_flush raises k))"
proof -
  note inv = kcp_at_inv [OF assms(1)]
  have wf: "kcp_wf k" using inv(1) by (simp add: kcp_inv_def)
  obtain sent k' where f: "ikcp_flush k = Inr (sent, k')"
    "may_stop (live (mem k) - owned k) k raises (sent, k') (raising_flush raises k)"
    using flush_may_stop [OF inv(1,4)] by blast
  show ?thesis
    by (rule fine_finish [OF assms f(2) flush_inv [OF inv(1,4) f(1)] flush_settings [OF wf inv(4) f(1)]])
qed

lemma fine_update [fine_rules]:
  assumes "kcp_at held good b w i k c" and "good c'" and "held c' = held c"
  shows "fine held good b w (finish w i c' went thrown (raising_update raises k now))"
proof -
  note inv = kcp_at_inv [OF assms(1)]
  have wf: "kcp_wf k" using inv(1) by (simp add: kcp_inv_def)
  obtain sent k' where f: "ikcp_update k now = Inr (sent, k')"
    "may_stop (live (mem k) - owned k) k raises (sent, k') (raising_update raises k now)"
    using update_may_stop [OF inv(1,4)] by blast
  show ?thesis
    by (rule fine_finish [OF assms f(2) update_inv [OF inv(1,4) f(1)] update_settings [OF wf inv(4) f(1)]])
qed

end
