(* ===== verification/Lkcp.thy ===== *)
theory Lkcp
  imports Lua
begin

text \<open>
  The binding \<open>lkcp.c\<close>, which hands every datagram to a Lua function kept in the registry: its
  methods, its sessions, and what goes wrong outside them.
\<close>

section \<open>The methods\<close>

text \<open>\<open>struct Callback\<close>; the \<open>lua_State\<close>s are the coroutine that created the block and the last that flushed.\<close>

record callback =
  handle :: u64
  creator :: nat
  eL :: nat

type_synonym ('v, 'o) lkcp = "('v, callback, 'o) lua"

text \<open>
  The function \<open>kcp_output_callback\<close> calls with the datagram, if any; otherwise it prints a message
  and returns.  Its \<open>lua_State\<close> is the caller's, as \<open>eL\<close> is set before every flush.
\<close>

definition kcp_output_callback :: "'v lua_api \<Rightarrow> ('v, 'o) lkcp \<Rightarrow> callback \<Rightarrow> 'v option" where
  "kcp_output_callback api w c =
     (if handle c > 0
      then (case registry w (handle c) of
              Some f \<Rightarrow> if isfunction api f then Some f else None
            | None \<Rightarrow> None)
      else None)"

definition called :: "'v option \<Rightarrow> u8 list list \<Rightarrow> ('v \<times> u8 list) list" where
  "called f sent = (case f of None \<Rightarrow> [] | Some f \<Rightarrow> map (Pair f) sent)"

text \<open>\<open>luaL_unref\<close> takes an \<open>int\<close> and ignores negative ones.\<close>

definition unref :: "(u64 \<Rightarrow> 'v option) \<Rightarrow> u64 \<Rightarrow> u64 \<Rightarrow> 'v option" where
  "unref r h = (if 0 \<le> sint (ucast h :: u32) then r(h := None) else r)"

definition kcp_gc :: "'v lua_api \<Rightarrow> 'v list \<Rightarrow> ('v, 'o) lkcp \<Rightarrow> ('v, callback, 'o, unit) result" where
  "kcp_gc api args w =
     (case kcp_arg api args w of
        None \<Rightarrow> raise w
      | Some i \<Rightarrow>
          (case blocks w ! i of
             Null_block \<Rightarrow> returns [] w
           | Released \<Rightarrow> Inl Use_After_Free
           | Live k None \<Rightarrow>
               returns [] (w\<lparr>pool := ikcp_release (k\<lparr>mem := pool w\<rparr>), blocks := (blocks w)[i := Released]\<rparr>)
           | Live k (Some c) \<Rightarrow>
               if handle c > 0 \<and> creator c \<notin> threads w then Inl Use_After_Free
               else returns []
                 (w\<lparr>registry := (if handle c > 0 then unref (registry w) (handle c) else registry w),
                    pool := ikcp_release (k\<lparr>mem := ikcp_free (pool w)\<rparr>),
                    blocks := (blocks w)[i := Released]\<rparr>)))"

text \<open>
  \<open>luaL_ref\<close> pops the last argument before the first one is read; a nil gets the key \<open>LUA_REFNIL\<close>,
  which is -1, and is not stored.
\<close>

definition lkcp_create :: "'v lua_api \<Rightarrow> nat \<Rightarrow> 'v list \<Rightarrow> ('v, 'o) lkcp \<Rightarrow> ('v, callback, 'o, unit) result" where
  "lkcp_create api L args w =
     (if args = [] then Inl Empty_Stack
      else let f = last args;
               h = (if isnil api f then -1 else new_ref api (registry w) f);
               w = (if isnil api f then w else w\<lparr>registry := (registry w)(h := Some f)\<rparr>) in
        int_arg api (butlast args) 1 w (\<lambda>c.
          let (ok, m) = ikcp_malloc (pool w) in
          if \<not> ok then Inl (C_fault Null_Deref)
          else case ikcp_create m c of
            Inl m \<Rightarrow> returns [Nil_value, Message ''error: fail to create kcp''] (w\<lparr>pool := ikcp_free m\<rparr>)
          | Inr k \<Rightarrow>
              returns [Userdata (length (blocks w))]
                (w\<lparr>pool := mem k,
                   blocks := blocks w @ [Live (k\<lparr>output_cb := True\<rparr>)
                     (Some \<lparr>handle = h, creator = L, eL = L\<rparr>)]\<rparr>)))"

text \<open>The first \<open>hr\<close> bytes of the receive buffer are those \<open>ikcp_recv\<close> has written.\<close>

definition lkcp_recv :: "'v lua_api \<Rightarrow> 'v list \<Rightarrow> ('v, 'o) lkcp \<Rightarrow> ('v, callback, 'o, unit) result" where
  "lkcp_recv api args w =
     with_kcp api args w (\<lambda>i k c.
       if \<not> recv_buffer w then raise w
       else case ikcp_recv k True RECV_BUFFER_LEN of (hr, out, k) \<Rightarrow>
         if hr \<le> 0 then returns [Integer hr] (put w i k c)
         else returns [Integer hr, Str (take (nat hr) out)] (put w i k c))"

text \<open>The length is a \<open>size_t\<close>, the parameter of \<open>ikcp_send\<close> an \<open>int\<close>.\<close>

definition lkcp_send :: "'v lua_api \<Rightarrow> 'v list \<Rightarrow> ('v, 'o) lkcp \<Rightarrow> ('v, callback, 'o, unit) result" where
  "lkcp_send api args w =
     with_kcp api args w (\<lambda>i k c. str_arg api args 2 w (\<lambda>data.
       case ikcp_send k (Some data) (s32 (int (length data))) of
         Inl e \<Rightarrow> Inl (C_fault e)
       | Inr (hr, k) \<Rightarrow> returns [Integer hr] (put w i k c)))"

definition lkcp_update ::
  "'v lua_api \<Rightarrow> (nat \<Rightarrow> bool) \<Rightarrow> nat \<Rightarrow> 'v list \<Rightarrow> ('v, 'v \<times> u8 list) lkcp \<Rightarrow>
   ('v, callback, 'v \<times> u8 list, unit) result" where
  "lkcp_update api fails L args w =
     with_kcp api args w (\<lambda>i k c. int_arg api args 2 w (\<lambda>current.
       let c = c\<lparr>eL := L\<rparr>;
           f = kcp_output_callback api w c
       in finish w i c (called f) (called f) (raising_update (\<lambda>n. f \<noteq> None \<and> fails n) k current)))"

definition lkcp_check :: "'v lua_api \<Rightarrow> 'v list \<Rightarrow> ('v, 'o) lkcp \<Rightarrow> ('v, callback, 'o, unit) result" where
  "lkcp_check api args w =
     with_kcp api args w (\<lambda>i k c. int_arg api args 2 w (\<lambda>current.
       let hr = sint (ikcp_check k current) in returns [Integer hr] w))"

definition lkcp_input :: "'v lua_api \<Rightarrow> 'v list \<Rightarrow> ('v, 'o) lkcp \<Rightarrow> ('v, callback, 'o, unit) result" where
  "lkcp_input api args w =
     with_kcp api args w (\<lambda>i k c. str_arg api args 2 w (\<lambda>data.
       case ikcp_input k (Some data) of
         Inl e \<Rightarrow> Inl (C_fault e)
       | Inr (hr, k) \<Rightarrow> returns [Integer hr] (put w i k c)))"

definition lkcp_flush ::
  "'v lua_api \<Rightarrow> (nat \<Rightarrow> bool) \<Rightarrow> nat \<Rightarrow> 'v list \<Rightarrow> ('v, 'v \<times> u8 list) lkcp \<Rightarrow>
   ('v, callback, 'v \<times> u8 list, unit) result" where
  "lkcp_flush api fails L args w =
     with_kcp api args w (\<lambda>i k c.
       let c = c\<lparr>eL := L\<rparr>;
           f = kcp_output_callback api w c
       in finish w i c (called f) (called f) (raising_flush (\<lambda>n. f \<noteq> None \<and> fails n) k))"

definition lkcp_wndsize :: "'v lua_api \<Rightarrow> 'v list \<Rightarrow> ('v, 'o) lkcp \<Rightarrow> ('v, callback, 'o, unit) result" where
  "lkcp_wndsize api args w =
     with_kcp api args w (\<lambda>i k c.
       int_arg api args 2 w (\<lambda>sndwnd. int_arg api args 3 w (\<lambda>rcvwnd.
         case ikcp_wndsize k (sint sndwnd) (sint rcvwnd) of (hr, k) \<Rightarrow> returns [] (put w i k c))))"

definition lkcp_nodelay :: "'v lua_api \<Rightarrow> 'v list \<Rightarrow> ('v, 'o) lkcp \<Rightarrow> ('v, callback, 'o, unit) result" where
  "lkcp_nodelay api args w =
     with_kcp api args w (\<lambda>i k c.
       int_arg api args 2 w (\<lambda>nd. int_arg api args 3 w (\<lambda>iv.
       int_arg api args 4 w (\<lambda>resend. int_arg api args 5 w (\<lambda>nc.
         case ikcp_nodelay k (sint nd) (sint iv) (sint resend) (sint nc) of (hr, k) \<Rightarrow>
           returns [Integer hr] (put w i k c))))))"

text \<open>The method tables, and what loading the module does to the registry.\<close>

definition lkcp_methods ::
  "'v lua_api \<Rightarrow> (nat \<Rightarrow> bool) \<Rightarrow> nat \<Rightarrow>
   (string \<times> ('v list \<Rightarrow> ('v, 'v \<times> u8 list) lkcp \<Rightarrow> ('v, callback, 'v \<times> u8 list, unit) result)) list" where
  "lkcp_methods api fails L =
     [(''lkcp_recv'', lkcp_recv api), (''lkcp_send'', lkcp_send api),
      (''lkcp_update'', lkcp_update api fails L), (''lkcp_check'', lkcp_check api),
      (''lkcp_input'', lkcp_input api), (''lkcp_flush'', lkcp_flush api fails L),
      (''lkcp_wndsize'', lkcp_wndsize api), (''lkcp_nodelay'', lkcp_nodelay api)]"

definition l_methods ::
  "'v lua_api \<Rightarrow> nat \<Rightarrow>
   (string \<times> ('v list \<Rightarrow> ('v, 'o) lkcp \<Rightarrow> ('v, callback, 'o, unit) result)) list" where
  "l_methods api L = [(''lkcp_create'', lkcp_create api L)]"

definition luaopen_lkcp :: "('v, 'o) lkcp \<Rightarrow> ('v, 'o) lkcp" where
  "luaopen_lkcp w = w\<lparr>recv_buffer := True\<rparr>"

text \<open>What a script can call: the library, the methods, and the finalizer of the metatable.\<close>

definition lkcp_functions ::
  "'v lua_api \<Rightarrow> (nat \<Rightarrow> bool) \<Rightarrow> nat \<Rightarrow>
   (string \<times> ('v list \<Rightarrow> ('v, 'v \<times> u8 list) lkcp \<Rightarrow> ('v, callback, 'v \<times> u8 list, unit) result)) list" where
  "lkcp_functions api fails L = l_methods api L @ lkcp_methods api fails L @ [(''__gc'', kcp_gc api)]"

section \<open>Sessions\<close>

text \<open>A key of the registry that is positive, not the one of nil, and not in use.\<close>

definition usable :: "(u64 \<Rightarrow> 'v option) \<Rightarrow> u64 \<Rightarrow> bool" where
  "usable r h \<longleftrightarrow> 0 < h \<and> h \<noteq> -1 \<and> r h = None"

text \<open>
  What is expected of a script: it creates blocks with an argument at least and while the registry is
  not full, it does not call \<open>__gc\<close>, and the coroutine that created a block is alive when the block is collected.
\<close>

definition lkcp_proper ::
  "'v lua_api \<Rightarrow> ('v, 'o) lkcp \<Rightarrow> string \<Rightarrow> 'v list \<Rightarrow> nat \<Rightarrow> bool" where
  "lkcp_proper api w name args L \<longleftrightarrow> L \<in> threads w \<and> not_released api args w \<and>
     (name = ''lkcp_create'' \<longrightarrow> args \<noteq> [] \<and> (\<exists>h. usable (registry w) h)) \<and>
     (name = ''__gc'' \<longrightarrow> (\<forall>i k c. kcp_arg api args w = Some i \<longrightarrow> blocks w ! i = Live k (Some c) \<longrightarrow>
        creator c \<in> threads w))"

inductive lkcp_step ::
  "'v lua_api \<Rightarrow> ('v, 'v \<times> u8 list) lkcp \<Rightarrow> 'v event \<Rightarrow> ('v, 'v \<times> u8 list) lkcp \<Rightarrow> bool"
  for api where
  invoke: "lkcp_proper api w name args L \<Longrightarrow> map_of (lkcp_functions api fails L) name = Some f \<Longrightarrow>
     f args w = Inr (r, w') \<Longrightarrow> lkcp_step api w (Invoke name args L fails) w'"
| spawn: "lkcp_step api w (Spawn t) (w\<lparr>threads := insert t (threads w)\<rparr>)"
| die: "lkcp_step api w (Die t) (w\<lparr>threads := threads w - {t}\<rparr>)"

inductive_cases lkcp_stepE: "lkcp_step api w e w'"

text \<open>A callback structure is one block.\<close>

abbreviation (input) lkcp_held :: "callback \<Rightarrow> int" where "lkcp_held \<equiv> \<lambda>_. 1"
abbreviation (input) lkcp_good :: "callback \<Rightarrow> bool" where "lkcp_good \<equiv> \<lambda>_. True"
abbreviation lkcp_ok :: "int \<Rightarrow> ('v, 'o) lkcp \<Rightarrow> bool" where
  "lkcp_ok \<equiv> world_ok lkcp_held lkcp_good"

section \<open>Every method keeps the invariant\<close>

lemma create_fine:
  assumes "lkcp_ok b w" and "args \<noteq> []"
  shows "fine lkcp_held lkcp_good b w (lkcp_create api L args w)"
proof -
  define f where "f = last args"
  define h where "h = (if isnil api f then -1 else new_ref api (registry w) f)"
  define w1 where "w1 = (if isnil api f then w else w\<lparr>registry := (registry w)(h := Some f)\<rparr>)"
  have ok: "lkcp_ok b w1" and same: "pool w1 = pool w" "blocks w1 = blocks w"
    using assms(1) by (simp_all add: w1_def world_ok_frame)
  have "fine lkcp_held lkcp_good b w (int_arg api (butlast args) 1 w1 (\<lambda>c.
          let (ok, m) = ikcp_malloc (pool w1) in
          if \<not> ok then Inl (C_fault Null_Deref)
          else case ikcp_create m c of
            Inl m \<Rightarrow> returns [Nil_value, Message ''error: fail to create kcp''] (w1\<lparr>pool := ikcp_free m\<rparr>)
          | Inr k \<Rightarrow>
              returns [Userdata (length (blocks w1))]
                (w1\<lparr>pool := mem k, blocks := blocks w1 @ [Live (k\<lparr>output_cb := True\<rparr>)
                     (Some \<lparr>handle = h, creator = L, eL = L\<rparr>)]\<rparr>)))"
  proof (rule fine_int_arg [OF ok])
    fix c
    obtain given m where m: "ikcp_malloc (pool w1) = (given, m)" by fastforce
    show "fine lkcp_held lkcp_good b w (let (ok, m) = ikcp_malloc (pool w1) in
          if \<not> ok then Inl (C_fault Null_Deref)
          else case ikcp_create m c of
            Inl m \<Rightarrow> returns [Nil_value, Message ''error: fail to create kcp''] (w1\<lparr>pool := ikcp_free m\<rparr>)
          | Inr k \<Rightarrow>
              returns [Userdata (length (blocks w1))]
                (w1\<lparr>pool := mem k, blocks := blocks w1 @ [Live (k\<lparr>output_cb := True\<rparr>)
                     (Some \<lparr>handle = h, creator = L, eL = L\<rparr>)]\<rparr>))"
    proof (cases given)
      case False
      then have "\<not> plentiful (pool w)" using m plentiful_malloc [of "pool w"] by (auto simp: same)
      then show ?thesis using m False by (simp add: fine_def)
    next
      case True
      then have live: "live m = live (pool w1) + 1"
        using m by (auto simp: ikcp_malloc_def split: if_splits)
      show ?thesis
      proof (cases "ikcp_create m c")
        case (Inl m')
        then have "live m' = live m"
          by (auto simp: ikcp_create_def ikcp_malloc_def ikcp_free_def Let_def split: if_splits)
        then have "lkcp_ok b (w1\<lparr>pool := ikcp_free m'\<rparr>)"
          using ok live by (simp add: world_ok_def)
        then show ?thesis using m True Inl by (simp add: fine_rules)
      next
        case (Inr k)
        from world_new [OF ok this, of "\<lparr>handle = h, creator = L, eL = L\<rparr>"]
        show ?thesis using m True Inr live by (simp add: fine_rules)
      qed
    qed
  qed
  then show ?thesis
    unfolding lkcp_create_def if_not_P [OF assms(2)] Let_def f_def h_def w1_def .
qed

lemma gc_fine:
  assumes "lkcp_ok b w" and "lkcp_proper api w ''__gc'' args L"
  shows "fine lkcp_held lkcp_good b w (kcp_gc api args w)"
proof (cases "kcp_arg api args w")
  case None
  then show ?thesis using assms(1) by (simp add: kcp_gc_def fine_rules)
next
  case (Some i)
  then have i: "i < length (blocks w)" by (rule kcp_arg_bound)
  show ?thesis
  proof (cases "blocks w ! i")
    case (Live k co)
    obtain c where c: "co = Some c" using world_block [OF assms(1) i Live] by metis
    have t: "creator c \<in> threads w" using assms(2) Some Live c by (simp add: lkcp_proper_def)
    from world_release [OF assms(1) i Live [unfolded c], of "ikcp_free (pool w)"]
    have "lkcp_ok b (w\<lparr>pool := ikcp_release (k\<lparr>mem := ikcp_free (pool w)\<rparr>),
      blocks := (blocks w)[i := Released]\<rparr>)" by simp
    then have "lkcp_ok b (w\<lparr>registry := r, pool := ikcp_release (k\<lparr>mem := ikcp_free (pool w)\<rparr>),
      blocks := (blocks w)[i := Released]\<rparr>)" for r by (simp add: world_ok_def)
    then show ?thesis using Some Live c t by (simp add: kcp_gc_def fine_rules)
  next
    case Released
    then show ?thesis using assms(2) Some by (simp add: lkcp_proper_def not_released_def)
  qed (use assms(1) Some in \<open>simp add: kcp_gc_def fine_rules\<close>)
qed

lemma methods_fine:
  assumes "lkcp_ok b w" and "not_released api args w" and "(name, f) \<in> set (lkcp_methods api fails L)"
  shows "fine lkcp_held lkcp_good b w (f args w)"
proof -
  note ok = assms(1)
  have "fine lkcp_held lkcp_good b w (lkcp_recv api args w)"
    using assms(1,2) by (auto simp: lkcp_recv_def intro!: fine_rules)
  moreover have "fine lkcp_held lkcp_good b w (lkcp_send api args w)"
    using assms(1,2) by (auto simp: lkcp_send_def intro!: fine_rules)
  moreover have "fine lkcp_held lkcp_good b w (lkcp_input api args w)"
    using assms(1,2) by (auto simp: lkcp_input_def intro!: fine_rules)
  moreover have "fine lkcp_held lkcp_good b w (lkcp_check api args w)"
    using assms(1,2) by (auto simp: lkcp_check_def Let_def intro!: fine_rules)
  moreover have "fine lkcp_held lkcp_good b w (lkcp_wndsize api args w)"
    using assms(1,2) by (auto simp: lkcp_wndsize_def intro!: fine_rules)
  moreover have "fine lkcp_held lkcp_good b w (lkcp_nodelay api args w)"
    using assms(1,2) by (auto simp: lkcp_nodelay_def intro!: fine_rules)
  moreover have "fine lkcp_held lkcp_good b w (lkcp_update api fails L args w)"
    using assms(1,2) by (auto simp: lkcp_update_def Let_def intro!: fine_rules)
  moreover have "fine lkcp_held lkcp_good b w (lkcp_flush api fails L args w)"
    using assms(1,2) by (auto simp: lkcp_flush_def Let_def intro!: fine_rules)
  ultimately show ?thesis using assms(3) by (auto simp: lkcp_methods_def)
qed

lemma functions_cases:
  assumes "map_of (lkcp_functions api fails L) name = Some f"
  obtains "name = ''lkcp_create''" and "f = lkcp_create api L"
    | "(name, f) \<in> set (lkcp_methods api fails L)"
    | "name = ''__gc''" and "f = kcp_gc api"
  using map_of_SomeD [OF assms] by (auto simp: lkcp_functions_def l_methods_def)

lemma functions_fine:
  assumes "lkcp_ok b w" and "lkcp_proper api w name args L"
    and "map_of (lkcp_functions api fails L) name = Some f"
  shows "fine lkcp_held lkcp_good b w (f args w)"
  using assms(3)
proof (cases rule: functions_cases)
  case 1
  then show ?thesis using assms(1,2) by (auto simp: lkcp_proper_def intro: create_fine)
next
  case 2
  then show ?thesis using assms(1,2) by (auto simp: lkcp_proper_def intro: methods_fine)
next
  case 3
  then show ?thesis using gc_fine [OF assms(1)] assms(2) by blast
qed

interpretation plain: step_system "opened b" "lkcp_step api" "lkcp_ok b"
  for b and api :: "'v lua_api"
proof
  fix w :: "('v, 'v \<times> u8 list) lkcp" and e w'
  show "opened b w \<Longrightarrow> lkcp_ok b w" by (rule opened_ok)
  assume ok: "lkcp_ok b w" and "lkcp_step api w e w'"
  from this(2) show "lkcp_ok b w'"
    by (elim lkcp_stepE) (use functions_fine [OF ok] ok in \<open>force simp: fine_def world_ok_frame\<close>)+
qed

section \<open>Properties\<close>


text \<open>
  C16: when all blocks of a session have been collected, the process owns as much memory as
  before: control blocks, their queues and buffers and the callback structures are all freed, also
  those left by a Lua error.
\<close>

theorem lkcp_no_leak:
  assumes "opened b w0" and "plain.run api w0 events w" and "set (blocks w) \<subseteq> {Released}"
  shows "live (pool w) = b"
proof -
  have "lkcp_ok b w" using plain.reachable_good assms(1,2) .
  then show ?thesis using assms(3) by (rule world_released)
qed

text \<open>
  C36: \<open>kcp_gc\<close> does not clear the pointer in the userdata.  After an explicit call of
  \<open>__gc\<close> (or for an object that is resurrected), every method and a second \<open>__gc\<close> read freed memory;
  the tests for null pointers do not help.
\<close>

theorem use_after_gc:
  assumes "kcp_arg api args w = Some i" and "blocks w ! i = Live k (Some c)"
    and "kcp_gc api args w = Inr (r, w')" and "kcp_arg api args' w' = Some i"
    and "name \<noteq> ''lkcp_create''" and "map_of (lkcp_functions api fails L) name = Some f"
  shows "f args' w' = Inl Use_After_Free"
proof -
  have "i < length (blocks w)" using assms(1) by (rule kcp_arg_bound)
  then have r: "blocks w' ! i = Released"
    using assms(1-3) by (auto simp: kcp_gc_def returns_def split: if_splits)
  have "with_kcp api args' w' g = Inl Use_After_Free" for g
    using assms(4) r by (simp add: with_kcp_def)
  then have "\<forall>(name, f) \<in> set (lkcp_methods api fails L). f args' w' = Inl Use_After_Free"
    by (simp add: lkcp_methods_def lkcp_recv_def lkcp_send_def lkcp_update_def lkcp_check_def
        lkcp_input_def lkcp_flush_def lkcp_wndsize_def lkcp_nodelay_def)
  moreover have "kcp_gc api args' w' = Inl Use_After_Free"
    using assms(4) r by (simp add: kcp_gc_def)
  ultimately show ?thesis using functions_cases [OF assms(6)] assms(5) by fast
qed

text \<open>
  A block created in a coroutine that has ended cannot be collected safely: \<open>kcp_gc\<close> hands
  the \<open>lua_State\<close> of that coroutine to \<open>luaL_unref\<close>.
\<close>

lemma gc_dead_coroutine:
  assumes "lkcp_create api L args w = Inr (Some [Userdata i], w1)" and "plentiful (pool w)"
    and "new_ref api (registry w) (last args) > 0" and "\<not> isnil api (last args)"
    and "blocks w2 = blocks w1" and "threads w2 = threads w1 - {L}" and "kcp_arg api args' w2 = Some i"
  shows "kcp_gc api args' w2 = Inl Use_After_Free"
proof -
  let ?h = "new_ref api (registry w) (last args)"
  obtain v m k where "checkinteger api (arg (butlast args) 1) = Some v"
    "ikcp_malloc (pool w) = (True, m)" "ikcp_create m (ucast v) = Inr k"
    "args \<noteq> []" and r: "i = length (blocks w)"
    "blocks w1 = blocks w @ [Live (k\<lparr>output_cb := True\<rparr>) (Some \<lparr>handle = ?h, creator = L, eL = L\<rparr>)]"
    using assms(1,4) plentiful_malloc [OF assms(2)]
    by (fastforce simp: lkcp_create_def Let_def int_arg_def returns_def raise_def
        split: if_splits option.splits sum.splits)
  have "blocks w2 ! i = Live (k\<lparr>output_cb := True\<rparr>) (Some \<lparr>handle = ?h, creator = L, eL = L\<rparr>)"
    using assms(5) r by simp
  then show ?thesis using assms(3,6,7) by (simp add: kcp_gc_def)
qed

section \<open>Every block calls its own function\<close>

text \<open>What \<open>luaL_ref\<close> is documented to do: as long as there is a usable key it chooses one.\<close>

definition ref_law :: "'v lua_api \<Rightarrow> bool" where
  "ref_law api \<longleftrightarrow> (\<forall>r v. \<not> isnil api v \<longrightarrow> (\<exists>h. usable r h) \<longrightarrow> usable r (new_ref api r v))"

text \<open>The keys the blocks hold, and that no two hold the same one.\<close>

fun key_of :: "callback block \<Rightarrow> u64 option" where
  "key_of (Live k (Some c)) = Some (handle c)"
| "key_of _ = None"

definition keys_ok :: "('v, 'o) lkcp \<Rightarrow> bool" where
  "keys_ok w \<longleftrightarrow>
     (\<forall>i < length (blocks w). \<forall>h. key_of (blocks w ! i) = Some h \<longrightarrow> h \<noteq> -1 \<longrightarrow>
        registry w h \<noteq> None \<and> (\<forall>j < length (blocks w). key_of (blocks w ! j) = Some h \<longrightarrow> j = i)) \<and>
     registry w (-1) = None"

text \<open>The methods change neither the keys nor the registry.\<close>

definition steady :: "('v, 'o) lkcp \<Rightarrow> ('v, callback, 'o, unit) result \<Rightarrow> bool" where
  "steady w r \<longleftrightarrow> (case r of Inl e \<Rightarrow> True
     | Inr (x, w') \<Rightarrow> map key_of (blocks w') = map key_of (blocks w) \<and> registry w' = registry w)"

lemma steady_ends:
  "steady w (returns xs w)" "steady w (raise w)" "steady w (Inl e)"
  by (simp_all add: steady_def returns_def raise_def)

lemma steady_put:
  assumes "i < length (blocks w)" and "blocks w ! i = Live k0 (Some c)" and "handle c' = handle c"
  shows "steady w (returns xs (put w i k c'))" "steady w (finish w i c' went thrown r)"
proof -
  have "map key_of ((blocks w)[i := Live k (Some c')]) = map key_of (blocks w)" for k
    using assms by (simp add: map_update list_update_same_conv)
  then show "steady w (returns xs (put w i k c'))" "steady w (finish w i c' went thrown r)"
    by (auto simp: steady_def returns_def raise_def put_def finish_def split: sum.split course.split)
qed

lemma steady_args:
  "(\<And>v. steady w (g v)) \<Longrightarrow> steady w (int_arg api args n w g)"
  "(\<And>s. steady w (h s)) \<Longrightarrow> steady w (str_arg api args n w h)"
  by (auto simp: int_arg_def str_arg_def steady_ends split: option.split)

lemma steady_with_kcp:
  assumes "\<And>i k k0 c. i < length (blocks w) \<Longrightarrow> blocks w ! i = Live k0 (Some c) \<Longrightarrow> steady w (f i k c)"
  shows "steady w (with_kcp api args w f)"
  using assms kcp_arg_bound [of api args w]
  by (auto simp: with_kcp_def steady_ends split: option.split block.split)

lemma methods_steady:
  fixes w :: "('v, 'v \<times> u8 list) lkcp"
  assumes "(name, f) \<in> set (lkcp_methods api fails L)"
  shows "steady w (f args w)"
proof -
  note rules = steady_with_kcp steady_args steady_ends steady_put
  have "steady w (lkcp_recv api args w)" "steady w (lkcp_send api args w)"
    "steady w (lkcp_input api args w)" "steady w (lkcp_check api args w)"
    "steady w (lkcp_wndsize api args w)" "steady w (lkcp_nodelay api args w)"
    by (auto simp: lkcp_recv_def lkcp_send_def lkcp_input_def lkcp_check_def lkcp_wndsize_def
        lkcp_nodelay_def Let_def intro!: rules split: sum.split prod.split)
  moreover have "steady w (lkcp_update api fails L args w)" "steady w (lkcp_flush api fails L args w)"
    by (auto simp: lkcp_update_def lkcp_flush_def Let_def intro!: rules)
  ultimately show ?thesis using assms by (auto simp: lkcp_methods_def)
qed

text \<open>What holds of the keys from a state to a later one.\<close>

definition keeps_keys :: "('v, 'o) lkcp \<Rightarrow> ('v, 'o) lkcp \<Rightarrow> bool" where
  "keeps_keys w w' \<longleftrightarrow> keys_ok w' \<and> length (blocks w) \<le> length (blocks w') \<and>
     (\<forall>i < length (blocks w). \<forall>h. key_of (blocks w' ! i) = Some h \<longrightarrow>
        key_of (blocks w ! i) = Some h \<and> registry w' h = registry w h)"

lemma keeps_trans:
  assumes "keeps_keys w w1" and "keeps_keys w1 w2"
  shows "keeps_keys w w2"
proof -
  have len: "length (blocks w) \<le> length (blocks w1)" "length (blocks w1) \<le> length (blocks w2)"
    using assms by (simp_all add: keeps_keys_def)
  have "key_of (blocks w ! i) = Some h \<and> registry w2 h = registry w h"
    if i: "i < length (blocks w)" "key_of (blocks w2 ! i) = Some h" for i h
  proof -
    have "i < length (blocks w1)" using i(1) len(1) by simp
    then have "key_of (blocks w1 ! i) = Some h \<and> registry w2 h = registry w1 h"
      using assms(2) i(2) unfolding keeps_keys_def by blast
    moreover from this have "key_of (blocks w ! i) = Some h \<and> registry w1 h = registry w h"
      using assms(1) i(1) unfolding keeps_keys_def by blast
    ultimately show ?thesis by simp
  qed
  then show ?thesis using assms(2) len unfolding keeps_keys_def by simp
qed

lemma steady_keeps:
  assumes "keys_ok w" and "steady w (Inr (x, w'))"
  shows "keeps_keys w w'"
proof -
  have m: "map key_of (blocks w') = map key_of (blocks w)" "registry w' = registry w"
    using assms(2) by (simp_all add: steady_def)
  have l: "length (blocks w') = length (blocks w)" using m(1) by (metis length_map)
  have "key_of (blocks w' ! i) = key_of (blocks w ! i)" if "i < length (blocks w)" for i
    using m(1) l that by (metis nth_map)
  then show ?thesis using assms(1) m(2) l by (simp add: keeps_keys_def keys_ok_def)
qed

lemma gc_keeps:
  assumes "keys_ok w" and "kcp_gc api args w = Inr (x, w')"
  shows "keeps_keys w w'"
proof (cases "\<exists>i k c. kcp_arg api args w = Some i \<and> blocks w ! i = Live k (Some c)")
  case True
  then obtain i k c where i: "kcp_arg api args w = Some i" "blocks w ! i = Live k (Some c)" by blast
  have len: "i < length (blocks w)" using i(1) by (rule kcp_arg_bound)
  have w': "blocks w' = (blocks w)[i := Released]"
    "registry w' = (if handle c > 0 then unref (registry w) (handle c) else registry w)"
    using assms(2) i by (auto simp: kcp_gc_def returns_def split: if_splits)
  have key: "key_of (blocks w ! i) = Some (handle c)" using i(2) by simp
  have none: "registry w (-1) = None" using assms(1) by (simp add: keys_ok_def)
  have old: "j \<noteq> i \<and> key_of (blocks w ! j) = Some h \<and> registry w' h = registry w h"
    if "j < length (blocks w)" "key_of (blocks w' ! j) = Some h" for j h
  proof -
    have j: "j \<noteq> i" "key_of (blocks w ! j) = Some h"
      using that len w'(1) by (auto simp: nth_list_update split: if_splits)
    have "h \<noteq> handle c \<or> h = -1" using assms(1) j key len that(1) unfolding keys_ok_def by metis
    then show ?thesis using j none by (auto simp: w'(2) unref_def)
  qed
  have "registry w' (-1) = None" using none by (simp add: w'(2) unref_def)
  moreover have "length (blocks w') = length (blocks w)" by (simp add: w'(1))
  ultimately have "keys_ok w'" using old assms(1) unfolding keys_ok_def by metis
  then show ?thesis using old w'(1) by (simp add: keeps_keys_def)
next
  case False
  then have "key_of (blocks w ! i) = None" if "kcp_arg api args w = Some i" for i
    using that by (cases "blocks w ! i"; cases "case blocks w ! i of Live k co \<Rightarrow> co | _ \<Rightarrow> None")
      (auto split: block.splits)
  then have "steady w (Inr (x, w'))"
    using assms(2) False
    by (auto simp: kcp_gc_def returns_def raise_def steady_def map_update list_update_same_conv
        dest!: kcp_arg_bound split: option.splits block.splits if_splits)
  then show ?thesis using assms(1) by (rule steady_keeps [rotated])
qed

lemma create_keeps:
  assumes "ref_law api" and "keys_ok w" and "lkcp_create api L args w = Inr (x, w')"
    and "\<exists>h. usable (registry w) h"
  shows "keeps_keys w w' \<and> (\<forall>i. x = Some [Userdata i] \<longrightarrow> i = length (blocks w) \<and>
    (\<exists>h. map key_of (blocks w') = map key_of (blocks w) @ [Some h] \<and>
      (registry w' h = Some (last args) \<or> registry w' h = None)))"
proof -
  define f where "f = last args"
  define h where "h = (if isnil api f then -1 else new_ref api (registry w) f)"
  define w1 where "w1 = (if isnil api f then w else w\<lparr>registry := (registry w)(h := Some f)\<rparr>)"
  have w1: "blocks w1 = blocks w" by (simp add: w1_def)
  have w': "registry w' = registry w1 \<and> (blocks w' = blocks w \<and> (\<forall>i. x \<noteq> Some [Userdata i]) \<or>
      (\<exists>k. blocks w' = blocks w @ [Live k (Some \<lparr>handle = h, creator = L, eL = L\<rparr>)] \<and>
        x = Some [Userdata (length (blocks w))]))"
    using assms(3) w1
    unfolding lkcp_create_def Let_def f_def [symmetric] h_def [symmetric] w1_def [symmetric]
    by (auto simp: int_arg_def returns_def raise_def split: if_splits option.splits prod.splits sum.splits)
  have fresh: "if isnil api f then h = -1 \<and> registry w' = registry w
    else h \<noteq> -1 \<and> registry w h = None \<and> registry w' = (registry w)(h := Some f)"
    using assms(1,4) w' by (auto simp: ref_law_def usable_def h_def w1_def)
  have old: "registry w' h' = registry w h'"
    if "i < length (blocks w)" "key_of (blocks w ! i) = Some h'" for i h'
  proof (cases "h' = -1 \<or> isnil api f")
    case True
    then show ?thesis using fresh by (auto split: if_splits)
  next
    case False
    then have "registry w h' \<noteq> None" using assms(2) that unfolding keys_ok_def by metis
    then show ?thesis using fresh False by auto
  qed
  have "registry w' (-1) = None" using fresh assms(2) by (auto simp: keys_ok_def split: if_splits)
  have new: "h' \<noteq> h" if "i < length (blocks w)" "key_of (blocks w ! i) = Some h'" "h' \<noteq> -1" for i h'
  proof -
    have "registry w h' \<noteq> None" using assms(2) that unfolding keys_ok_def by metis
    then show ?thesis using fresh that(3) by (auto split: if_splits)
  qed
  have keys: "keys_ok w'"
  proof -
    have "registry w' h' \<noteq> None \<and> (\<forall>j < length (blocks w'). key_of (blocks w' ! j) = Some h' \<longrightarrow> j = i)"
      if i: "i < length (blocks w')" "key_of (blocks w' ! i) = Some h'" "h' \<noteq> -1" for i h'
      using w'
    proof (elim conjE disjE exE)
      assume "blocks w' = blocks w"
      then show ?thesis using i old assms(2) unfolding keys_ok_def by metis
    next
      fix k assume b: "blocks w' = blocks w @ [Live k (Some \<lparr>handle = h, creator = L, eL = L\<rparr>)]"
      show ?thesis
      proof (cases "i < length (blocks w)")
        case True
        then have ki: "key_of (blocks w ! i) = Some h'" using i(2) b by (simp add: nth_append)
        have "j = i" if "j < length (blocks w')" "key_of (blocks w' ! j) = Some h'" for j
        proof (cases "j < length (blocks w)")
          case j: True
          then have "key_of (blocks w ! j) = Some h'" using that(2) b by (simp add: nth_append)
          then show ?thesis using assms(2) True ki i(3) j unfolding keys_ok_def by metis
        next
          case False
          then have "h' = h" using that b by (simp add: nth_append less_Suc_eq)
          then show ?thesis using new [OF True ki i(3)] by simp
        qed
        moreover have "registry w' h' \<noteq> None"
          using old [OF True ki] assms(2) True ki i(3) unfolding keys_ok_def by metis
        ultimately show ?thesis by blast
      next
        case False
        then have ih: "i = length (blocks w)" "h' = h"
          using i(1,2) b by (simp_all add: nth_append less_Suc_eq)
        have "j = i" if "j < length (blocks w')" "key_of (blocks w' ! j) = Some h" for j
        proof (rule ccontr)
          assume "j \<noteq> i"
          then have "j < length (blocks w)" using that(1) b ih(1) by simp
          then show False using new [of j h] that(2) b i(3) ih(2) by (simp add: nth_append)
        qed
        moreover have "registry w' h \<noteq> None" using fresh i(3) ih(2) by (auto split: if_splits)
        ultimately show ?thesis using ih(2) by simp
      qed
    qed
    then show ?thesis using \<open>registry w' (-1) = None\<close> unfolding keys_ok_def by blast
  qed
  have "key_of (blocks w' ! i) = key_of (blocks w ! i)" if "i < length (blocks w)" for i
    using w' that by (auto simp: nth_append)
  then have "keeps_keys w w'" using keys old w' by (auto simp: keeps_keys_def)
  moreover have "registry w' h = Some f \<or> registry w' h = None"
    using fresh \<open>registry w' (-1) = None\<close> by (auto split: if_splits)
  ultimately show ?thesis using w' by (auto simp: f_def)
qed

lemma functions_keep:
  fixes w :: "('v, 'v \<times> u8 list) lkcp"
  assumes "ref_law api" and "keys_ok w" and "map_of (lkcp_functions api fails L) name = Some f"
    and "f args w = Inr (x, w')" and "name = ''lkcp_create'' \<longrightarrow> (\<exists>h. usable (registry w) h)"
  shows "keeps_keys w w'"
  using assms(3)
proof (cases rule: functions_cases)
  case 1
  then show ?thesis using create_keeps [OF assms(1,2)] assms(4,5) by blast
next
  case 2
  then have "steady w (f args w)" by (rule methods_steady)
  then show ?thesis using steady_keeps [OF assms(2)] assms(4) by simp
next
  case 3
  then show ?thesis using gc_keeps [OF assms(2)] assms(4) by blast
qed

interpretation keyed: step_system "\<lambda>w. keys_ok w \<and> w = w0" "lkcp_step api"
    "\<lambda>w. ref_law api \<longrightarrow> keeps_keys w0 w"
  for w0 :: "('v, 'v \<times> u8 list) lkcp" and api
proof
  fix w e w'
  show "keys_ok w \<and> w = w0 \<Longrightarrow> ref_law api \<longrightarrow> keeps_keys w0 w" by (auto simp: keeps_keys_def)
  assume good: "ref_law api \<longrightarrow> keeps_keys w0 w" and step: "lkcp_step api w e w'"
  show "ref_law api \<longrightarrow> keeps_keys w0 w'"
  proof
    assume r: "ref_law api"
    then have k: "keeps_keys w0 w" using good by simp
    then have kw: "keys_ok w" by (simp add: keeps_keys_def)
    have threads: "keeps_keys w (w\<lparr>threads := t\<rparr>)" for t
      by (rule steady_keeps [OF kw, where x = None]) (simp add: steady_def)
    have "keeps_keys w w'"
      using step by (elim lkcp_stepE) (auto simp: lkcp_proper_def threads intro: functions_keep [OF r kw])
    then show "keeps_keys w0 w'" using k keeps_trans by blast
  qed
qed

text \<open>
  C17: the datagrams of a control block go to the function its \<open>lkcp_create\<close> was given, whatever
  other blocks are created, used and collected in between.
\<close>

theorem own_function:
  assumes "ref_law api" and "opened b w0" and "registry w0 (-1) = None" and "plain.run api w0 es w"
    and "\<exists>h. usable (registry w) h" and "lkcp_create api L args w = Inr (Some [Userdata i], w1)" and "plain.run api w1 es' w2"
    and "blocks w2 ! i = Live k (Some c)" and "kcp_output_callback api w2 c = Some f"
  shows "f = last args"
proof -
  have "keys_ok w0" using assms(2,3) by (simp add: keys_ok_def opened_def)
  then have "keeps_keys w0 w" using keyed.reachable_good [of w0 w0 api es w] assms(1,4) by blast
  then have k: "keys_ok w" by (simp add: keeps_keys_def)
  obtain h where c: "keeps_keys w w1" "i = length (blocks w)"
    "map key_of (blocks w1) = map key_of (blocks w) @ [Some h]"
    "registry w1 h = Some (last args) \<or> registry w1 h = None"
    using create_keeps [OF assms(1) k assms(6,5)] by blast
  have len: "length (blocks w1) = Suc i" using c(2,3) by (metis length_append_singleton length_map)
  have "key_of (blocks w1 ! i) = Some h"
    using c(2,3) len by (metis length_map lessI nth_append_length nth_map)
  moreover have "keys_ok w1" using c(1) by (simp add: keeps_keys_def)
  then have "keeps_keys w1 w2" using keyed.reachable_good [of w1 w1 api es' w2] assms(1,7) by blast
  then have "key_of (blocks w1 ! i) = Some (handle c) \<and> registry w2 (handle c) = registry w1 (handle c)"
    using assms(8) len unfolding keeps_keys_def by auto
  ultimately show ?thesis
    using assms(9) c(4) by (auto simp: kcp_output_callback_def split: if_splits option.splits)
qed

end
