(* ===== verification/Lkcpsn.thy ===== *)
theory Lkcpsn
  imports Lua
begin

text \<open>
  The binding \<open>lkcpsn.c\<close> for skynet, which sends every datagram itself: it keeps the address of the
  peer next to the control block, packs the datagram in a Lua state of its own (\<open>LL\<close>), and hands it to
  the socket library of skynet.
\<close>

section \<open>Packing a datagram\<close>

text \<open>
  The code given to \<open>luaL_dostring\<close>: \<open>string.pack(">I4s2", subid, buf)\<close>, big-endian, the string after
  its length in two bytes; \<open>string.pack\<close> raises an error if the length does not fit.
\<close>

definition be16 :: "u16 \<Rightarrow> u8 list" where
  "be16 w = [ucast (drop_bit 8 w), ucast w]"

definition be32 :: "u32 \<Rightarrow> u8 list" where
  "be32 w = [ucast (drop_bit 24 w), ucast (drop_bit 16 w), ucast (drop_bit 8 w), ucast w]"

definition pack_output :: "u32 \<Rightarrow> u8 list \<Rightarrow> u8 list option" where
  "pack_output subid buf =
     (if length buf < 2 ^ 16 then Some (be32 subid @ be16 (of_nat (length buf)) @ buf) else None)"

text \<open>The other side, \<open>mySockServer:unpack_package\<close>, with the bytes of the text counted from 0.\<close>

definition unpack_package :: "u8 list \<Rightarrow> (u32 \<times> u8 list) option" where
  "unpack_package text =
     (if length text < 6 then None
      else let t = drop 4 text;
               s = unat (t ! 0) * 256 + unat (t ! 1)
        in if length t < s + 2 then None
           else Some (push_bit 24 (ucast (text ! 0)) OR push_bit 16 (ucast (text ! 1)) OR
                        push_bit 8 (ucast (text ! 2)) OR ucast (text ! 3),
                      take s (drop 2 t)))"

section \<open>The shared Lua state\<close>

text \<open>
  The stack of \<open>LL\<close>, from the bottom, and the calls the callback makes on it, each one a step.
  \<open>luaL_checklstring(LL, 1, ...)\<close> looks at the value at the bottom; when that is not a string the
  error is not caught by anything and the process is aborted (\<open>None\<close>).  What \<open>pack_output\<close> leaves when
  it is called with other values than a number and a short string (an error message), and the text of
  a number, are those of the interpreter.
\<close>

datatype ll_value = Pack_function | Number u32 | Text "u8 list"

datatype ll_op = Getglobal | Pushinteger u32 | Pushlstring "u8 list" | Pcall | Checklstring | Pop

record interpreter =
  pcall_else :: "ll_value \<Rightarrow> ll_value \<Rightarrow> ll_value \<Rightarrow> ll_value"
  number_text :: "u32 \<Rightarrow> u8 list"

fun ll_call :: "interpreter \<Rightarrow> ll_value \<Rightarrow> ll_value \<Rightarrow> ll_value \<Rightarrow> ll_value" where
  "ll_call lua Pack_function (Number n) (Text t) =
     (case pack_output n t of
        Some p \<Rightarrow> Text p
      | None \<Rightarrow> pcall_else lua Pack_function (Number n) (Text t))"
| "ll_call lua f a b = pcall_else lua f a b"

fun ll_do ::
  "interpreter \<Rightarrow> ll_op \<Rightarrow> ll_value list \<times> u8 list option \<Rightarrow> (ll_value list \<times> u8 list option) option"
  where
  "ll_do lua Getglobal (st, r) = Some (st @ [Pack_function], r)"
| "ll_do lua (Pushinteger n) (st, r) = Some (st @ [Number n], r)"
| "ll_do lua (Pushlstring t) (st, r) = Some (st @ [Text t], r)"
| "ll_do lua Pcall (st, r) =
     (case rev st of
        b # a # f # rest \<Rightarrow> Some (rev rest @ [ll_call lua f a b], r)
      | _ \<Rightarrow> None)"
| "ll_do lua Checklstring (st, r) =
     (case st of
        Text t # _ \<Rightarrow> Some (st, Some t)
      | Number n # rest \<Rightarrow> Some (Text (number_text lua n) # rest, Some (number_text lua n))
      | _ \<Rightarrow> None)"
| "ll_do lua Pop (st, r) = (if st = [] then None else Some (butlast st, r))"

fun ll_run ::
  "interpreter \<Rightarrow> ll_op list \<Rightarrow> ll_value list \<times> u8 list option \<Rightarrow> (ll_value list \<times> u8 list option) option"
  where
  "ll_run lua [] s = Some s"
| "ll_run lua (x # xs) s = (case ll_do lua x s of None \<Rightarrow> None | Some s \<Rightarrow> ll_run lua xs s)"

text \<open>What \<open>kcp_output_callback\<close> does with \<open>LL\<close> for a datagram.\<close>

definition pack_ops :: "u32 \<Rightarrow> u8 list \<Rightarrow> ll_op list" where
  "pack_ops cv buf =
     [Getglobal, Pushinteger cv, Pushlstring buf, Pcall, Checklstring, Pop]"

lemma pack_ops_alone:
  assumes "length buf < 2 ^ 16"
  shows "ll_run lua (pack_ops c buf) ([], None) = Some ([], pack_output c buf)"
  using assms by (simp add: pack_ops_def pack_output_def)

section \<open>The methods\<close>

text \<open>
  \<open>struct Callback\<close>.  \<open>address\<close> is the block the address is kept in (\<open>None\<close> for null).
\<close>

record sn_callback =
  sn_L :: nat
  sn_eL :: nat
  address :: "u8 list option"
  addresssz :: nat

text \<open>A datagram handed to \<open>skynet_socket_udp_sendbuffer\<close>: socket, address and bytes.\<close>

type_synonym packet = "u64 \<times> u8 list \<times> u8 list"

text \<open>The state, with the static variables of the module.\<close>

record 'v sn_lua = "('v, sn_callback, packet) lua" +
  svrsock :: u64
  LL :: "ll_value list"

type_synonym 'v sn_result = "crash + pushed list option \<times> 'v sn_lua"

text \<open>
  \<open>print_address\<close>: the arguments of \<open>inet_ntop\<close> (whether the address is of IPv4, its bytes) with the
  port, or \<open>None\<close> where it only prints an error.  The bytes are read before the size is looked at.
\<close>

definition print_address :: "u8 list \<Rightarrow> nat \<Rightarrow> (bool \<times> u8 list \<times> u16) option outcome" where
  "print_address addr sz =
     guardE (3 \<le> length addr) Out_Of_Bounds
       (let port = push_bit 8 (ucast (addr ! 1)) OR ucast (addr ! 2)
        in if sz = 1 + 2 + 4 then
             guardE (7 \<le> length addr) Out_Of_Bounds (Inr (Some (True, take 4 (drop 3 addr), port)))
           else if sz \<noteq> 1 + 2 + 16 then Inr None
           else guardE (19 \<le> length addr) Out_Of_Bounds (Inr (Some (False, take 16 (drop 3 addr), port))))"

text \<open>
  Whether the callback raises an error for the \<open>n\<close>-th datagram of a flush: without an address, without
  a skynet context in the registry (\<open>ctx\<close>), or when the socket library refuses (\<open>fails n\<close>).
\<close>

definition callback_raises :: "bool \<Rightarrow> (nat \<Rightarrow> bool) \<Rightarrow> sn_callback \<Rightarrow> nat \<Rightarrow> bool" where
  "callback_raises ctx fails c n \<longleftrightarrow> address c = None \<or> \<not> ctx \<or> fails n"

text \<open>What it hands to the socket library; \<open>None\<close> when the process is aborted.\<close>

definition sn_packet ::
  "interpreter \<Rightarrow> 'v sn_lua \<Rightarrow> u32 \<Rightarrow> sn_callback \<Rightarrow> u8 list \<Rightarrow> packet option" where
  "sn_packet lua w cv c buf =
     (case ll_run lua (pack_ops cv buf) (LL w, None) of
        Some (st, Some b) \<Rightarrow> map_option (\<lambda>a. (svrsock w, a, b)) (address c)
      | _ \<Rightarrow> None)"

text \<open>
  The end of a flush: the datagrams packed are all of them, or none when the first call stops
  before packing; the one whose call raises is not sent.
\<close>

definition sn_finish ::
  "interpreter \<Rightarrow> bool \<Rightarrow> 'v sn_lua \<Rightarrow> nat \<Rightarrow> u32 \<Rightarrow> sn_callback \<Rightarrow>
   (u8 list list \<times> ikcpcb) course outcome \<Rightarrow> 'v sn_result" where
  "sn_finish lua ctx w i cv c r =
     (let packed = (\<lambda>sent. if address c = None \<or> \<not> ctx then [] else sent);
          packets = (\<lambda>sent. map (\<lambda>d. the (sn_packet lua w cv c d)) sent)
      in case r of
           Inl e \<Rightarrow> Inl (C_fault e)
         | Inr (Went (sent, k)) \<Rightarrow>
             if \<exists>d \<in> set sent. sn_packet lua w cv c d = None then Inl (C_fault Aborted)
             else finish w i c packets packets r
         | Inr (Thrown sent k) \<Rightarrow>
             if \<exists>d \<in> set (packed sent). sn_packet lua w cv c d = None then Inl (C_fault Aborted)
             else finish w i c packets (\<lambda>sent. packets (butlast sent)) r)"

definition sn_gc :: "'v lua_api \<Rightarrow> 'v list \<Rightarrow> 'v sn_lua \<Rightarrow> 'v sn_result" where
  "sn_gc api args w =
     (case kcp_arg api args w of
        None \<Rightarrow> raise w
      | Some i \<Rightarrow>
          (case blocks w ! i of
             Null_block \<Rightarrow> returns [] w
           | Released \<Rightarrow> Inl Use_After_Free
           | Live k co \<Rightarrow>
               let m = (case co of
                          None \<Rightarrow> pool w
                        | Some c \<Rightarrow>
                            ikcp_free (if address c \<noteq> None then ikcp_free (pool w) else pool w))
               in returns [] (w\<lparr>pool := ikcp_release (k\<lparr>mem := m\<rparr>), blocks := (blocks w)[i := Released]\<rparr>)))"

text \<open>Both allocations are used without a test.  The address is printed at the end.\<close>

definition sn_create :: "'v lua_api \<Rightarrow> nat \<Rightarrow> 'v list \<Rightarrow> 'v sn_lua \<Rightarrow> 'v sn_result" where
  "sn_create api L args w =
     (case checkinteger api (arg args 1) of
        None \<Rightarrow> raise w
      | Some sock \<Rightarrow>
      str_arg api args 2 w (\<lambda>addr. int_arg api args 3 w (\<lambda>cv.
        let w = (if sock \<noteq> 0 \<and> svrsock w = 0 then w\<lparr>svrsock := sock\<rparr> else w);
            (ok, m) = ikcp_malloc (pool w) in
        if \<not> ok then Inl (C_fault Null_Deref)
        else let (ok, m) = ikcp_malloc m in
        if \<not> ok then Inl (C_fault Null_Deref)
        else let c = \<lparr>sn_L = L, sn_eL = L, address = Some (addr @ [0]), addresssz = length addr\<rparr> in
        case ikcp_create m cv of
          Inl m \<Rightarrow> returns [Nil_value, Message ''error: fail to create kcp''] (w\<lparr>pool := ikcp_free m\<rparr>)
        | Inr k \<Rightarrow>
            (case print_address (addr @ [0]) (length addr) of
               Inl e \<Rightarrow> Inl (C_fault e)
             | Inr _ \<Rightarrow>
                 returns [Userdata (length (blocks w))]
                   (w\<lparr>pool := mem k,
                      blocks := blocks w @ [Live (k\<lparr>output_cb := True\<rparr>) (Some c)]\<rparr>)))))"

text \<open>
  The end of \<open>lkcp_send\<close> and \<open>lkcp_input\<close>: the third argument replaces the address.  \<open>free\<close> accepts
  a null pointer; the new block is filled without a test.
\<close>

definition store_address ::
  "u8 list \<Rightarrow> sn_callback \<Rightarrow> memory \<Rightarrow> (sn_callback \<times> memory) outcome" where
  "store_address addr c m =
     (let sz = length addr in
      if sz = 0 then Inr (c, m)
      else
        bindE
          (if addresssz c \<noteq> sz
           then let m = (if address c \<noteq> None then ikcp_free m else m);
                    (ok, m) = ikcp_malloc m
                in Inr (c\<lparr>address := (if ok then Some (replicate (sz + 1) 0) else None), addresssz := sz\<rparr>, m)
           else Inr (c, m))
          (\<lambda>(c, m).
            case address c of
              None \<Rightarrow> Inl Null_Deref
            | Some a \<Rightarrow>
                guardE (sz + 1 \<le> length a) Out_Of_Bounds
                  (Inr (c\<lparr>address := Some (addr @ [0] @ drop (sz + 1) a)\<rparr>, m))))"

definition sn_address ::
  "'v lua_api \<Rightarrow> 'v list \<Rightarrow> 'v sn_lua \<Rightarrow> nat \<Rightarrow> ikcpcb \<Rightarrow> sn_callback \<Rightarrow> int \<Rightarrow> 'v sn_result" where
  "sn_address api args w i k c hr =
     str_arg api args 3 (put w i k c) (\<lambda>addr.
       case store_address addr c (mem k) of
         Inl e \<Rightarrow> Inl (C_fault e)
       | Inr (c, m) \<Rightarrow> returns [Integer hr] (put w i (k\<lparr>mem := m\<rparr>) c))"

definition sn_recv :: "'v lua_api \<Rightarrow> 'v list \<Rightarrow> 'v sn_lua \<Rightarrow> 'v sn_result" where
  "sn_recv api args w =
     with_kcp api args w (\<lambda>i k c.
       if \<not> recv_buffer w then raise w
       else case ikcp_recv k True RECV_BUFFER_LEN of (hr, out, k) \<Rightarrow>
         if hr \<le> 0 then returns [Integer hr] (put w i k c)
         else returns [Integer hr, Str (take (nat hr) out)] (put w i k c))"

definition sn_send :: "'v lua_api \<Rightarrow> 'v list \<Rightarrow> 'v sn_lua \<Rightarrow> 'v sn_result" where
  "sn_send api args w =
     with_kcp api args w (\<lambda>i k c. str_arg api args 2 w (\<lambda>data.
       case ikcp_send k (Some data) (s32 (int (length data))) of
         Inl e \<Rightarrow> Inl (C_fault e)
       | Inr (hr, k) \<Rightarrow> sn_address api args w i k c hr))"

definition sn_update ::
  "interpreter \<Rightarrow> 'v lua_api \<Rightarrow> bool \<Rightarrow> (nat \<Rightarrow> bool) \<Rightarrow> nat \<Rightarrow> 'v list \<Rightarrow> 'v sn_lua \<Rightarrow> 'v sn_result" where
  "sn_update lua api ctx fails L args w =
     with_kcp api args w (\<lambda>i k c. int_arg api args 2 w (\<lambda>current.
       let c = c\<lparr>sn_eL := L\<rparr>
       in sn_finish lua ctx w i (conv k) c (raising_update (callback_raises ctx fails c) k current)))"

definition sn_check :: "'v lua_api \<Rightarrow> 'v list \<Rightarrow> 'v sn_lua \<Rightarrow> 'v sn_result" where
  "sn_check api args w =
     with_kcp api args w (\<lambda>i k c. int_arg api args 2 w (\<lambda>current.
       let hr = sint (ikcp_check k current) in returns [Integer hr] w))"

definition sn_input :: "'v lua_api \<Rightarrow> 'v list \<Rightarrow> 'v sn_lua \<Rightarrow> 'v sn_result" where
  "sn_input api args w =
     with_kcp api args w (\<lambda>i k c. str_arg api args 2 w (\<lambda>data.
       case ikcp_input k (Some data) of
         Inl e \<Rightarrow> Inl (C_fault e)
       | Inr (hr, k) \<Rightarrow> sn_address api args w i k c hr))"

definition sn_flush ::
  "interpreter \<Rightarrow> 'v lua_api \<Rightarrow> bool \<Rightarrow> (nat \<Rightarrow> bool) \<Rightarrow> nat \<Rightarrow> 'v list \<Rightarrow> 'v sn_lua \<Rightarrow> 'v sn_result" where
  "sn_flush lua api ctx fails L args w =
     with_kcp api args w (\<lambda>i k c.
       let c = c\<lparr>sn_eL := L\<rparr>
       in sn_finish lua ctx w i (conv k) c (raising_flush (callback_raises ctx fails c) k))"

definition sn_wndsize :: "'v lua_api \<Rightarrow> 'v list \<Rightarrow> 'v sn_lua \<Rightarrow> 'v sn_result" where
  "sn_wndsize api args w =
     with_kcp api args w (\<lambda>i k c.
       int_arg api args 2 w (\<lambda>sndwnd. int_arg api args 3 w (\<lambda>rcvwnd.
         case ikcp_wndsize k (sint sndwnd) (sint rcvwnd) of (hr, k) \<Rightarrow> returns [] (put w i k c))))"

definition sn_nodelay :: "'v lua_api \<Rightarrow> 'v list \<Rightarrow> 'v sn_lua \<Rightarrow> 'v sn_result" where
  "sn_nodelay api args w =
     with_kcp api args w (\<lambda>i k c.
       int_arg api args 2 w (\<lambda>nd. int_arg api args 3 w (\<lambda>iv.
       int_arg api args 4 w (\<lambda>resend. int_arg api args 5 w (\<lambda>nc.
         case ikcp_nodelay k (sint nd) (sint iv) (sint resend) (sint nc) of (hr, k) \<Rightarrow>
           returns [Integer hr] (put w i k c))))))"

text \<open>The method tables.\<close>

definition sn_methods ::
  "interpreter \<Rightarrow> 'v lua_api \<Rightarrow> bool \<Rightarrow> (nat \<Rightarrow> bool) \<Rightarrow> nat \<Rightarrow>
   (string \<times> ('v list \<Rightarrow> 'v sn_lua \<Rightarrow> 'v sn_result)) list" where
  "sn_methods lua api ctx fails L =
     [(''lkcp_recv'', sn_recv api), (''lkcp_send'', sn_send api),
      (''lkcp_update'', sn_update lua api ctx fails L), (''lkcp_check'', sn_check api),
      (''lkcp_input'', sn_input api), (''lkcp_flush'', sn_flush lua api ctx fails L),
      (''lkcp_wndsize'', sn_wndsize api), (''lkcp_nodelay'', sn_nodelay api)]"

definition sn_l_methods ::
  "'v lua_api \<Rightarrow> nat \<Rightarrow> (string \<times> ('v list \<Rightarrow> 'v sn_lua \<Rightarrow> 'v sn_result)) list" where
  "sn_l_methods api L = [(''lkcp_create'', sn_create api L)]"

text \<open>Loading the module: the first time a state \<open>LL\<close> with an empty stack is made.\<close>

definition luaopen_lkcpsn :: "bool \<Rightarrow> 'v sn_lua \<Rightarrow> 'v sn_lua" where
  "luaopen_lkcpsn first w = w\<lparr>LL := (if first then [] else LL w), recv_buffer := True\<rparr>"

definition sn_functions ::
  "interpreter \<Rightarrow> 'v lua_api \<Rightarrow> bool \<Rightarrow> (nat \<Rightarrow> bool) \<Rightarrow> nat \<Rightarrow>
   (string \<times> ('v list \<Rightarrow> 'v sn_lua \<Rightarrow> 'v sn_result)) list" where
  "sn_functions lua api ctx fails L =
     sn_l_methods api L @ sn_methods lua api ctx fails L @ [(''__gc'', sn_gc api)]"

section \<open>Every method keeps the invariant\<close>

text \<open>
  A callback structure is two blocks; the address is kept with a zero byte behind it.  Between two
  calls the stack of \<open>LL\<close> is empty.
\<close>

abbreviation (input) sn_held :: "sn_callback \<Rightarrow> int" where "sn_held \<equiv> \<lambda>_. 2"

definition sn_good :: "sn_callback \<Rightarrow> bool" where
  "sn_good c \<longleftrightarrow> (\<exists>addr. address c = Some (addr @ [0]) \<and> addresssz c = length addr)"

definition sn_ok :: "int \<Rightarrow> 'v sn_lua \<Rightarrow> bool" where
  "sn_ok b w \<longleftrightarrow> world_ok sn_held sn_good b w \<and> LL w = []"

text \<open>No method changes \<open>LL\<close>.\<close>

definition same_LL :: "'v sn_lua \<Rightarrow> 'v sn_result \<Rightarrow> bool" where
  "same_LL w r \<longleftrightarrow> (case r of Inl e \<Rightarrow> True | Inr (x, w') \<Rightarrow> LL w' = LL w)"

named_theorems same_rules \<open>the stack of the shared Lua state stays\<close>

lemma same_ends [same_rules]:
  "LL w' = LL w \<Longrightarrow> same_LL w (returns xs w')" "LL w' = LL w \<Longrightarrow> same_LL w (raise w')" "same_LL w (Inl e)"
  by (simp_all add: same_LL_def returns_def raise_def)

lemma same_args [same_rules]:
  "LL w' = LL w \<Longrightarrow> (\<And>v. same_LL w (f v)) \<Longrightarrow> same_LL w (int_arg api args n w' f)"
  "LL w' = LL w \<Longrightarrow> (\<And>s. same_LL w (g s)) \<Longrightarrow> same_LL w (str_arg api args n w' g)"
  by (auto simp: int_arg_def str_arg_def same_rules split: option.split)

lemma same_with_kcp [same_rules]:
  "(\<And>i k c. same_LL w (f i k c)) \<Longrightarrow> same_LL w (with_kcp api args w f)"
  by (auto simp: with_kcp_def same_rules split: option.split block.split)

lemma put_LL [simp]: "LL (put w i k c) = LL w" "svrsock (put w i k c) = svrsock w"
  by (simp_all add: put_def)

lemma same_address [same_rules]: "same_LL w (sn_address api args w i k c hr)"
  by (auto simp: sn_address_def intro!: same_rules split: sum.split)

lemma same_finish [same_rules]: "same_LL w (sn_finish lua ctx w i cv c r)"
  by (auto simp: sn_finish_def finish_def Let_def intro!: same_rules split: sum.split course.split)

lemma functions_same_LL:
  assumes "(name, f) \<in> set (sn_functions lua api ctx fails L)"
  shows "same_LL w (f args w)"
proof -
  have "same_LL w (sn_recv api args w)" "same_LL w (sn_check api args w)"
    "same_LL w (sn_wndsize api args w)" "same_LL w (sn_nodelay api args w)"
    by (auto simp: sn_recv_def sn_check_def sn_wndsize_def sn_nodelay_def Let_def
        intro!: same_rules split: prod.split)
  moreover have "same_LL w (sn_send api args w)" "same_LL w (sn_input api args w)"
    by (auto simp: sn_send_def sn_input_def intro!: same_rules split: sum.split)
  moreover have "same_LL w (sn_update lua api ctx fails L args w)"
    "same_LL w (sn_flush lua api ctx fails L args w)"
    by (auto simp: sn_update_def sn_flush_def Let_def intro!: same_rules)
  moreover have "same_LL w (sn_create api L args w)"
    by (auto simp: sn_create_def Let_def intro!: same_rules split: option.split sum.split prod.split)
  moreover have "same_LL w (sn_gc api args w)"
    by (auto simp: sn_gc_def Let_def intro!: same_rules split: option.split block.split)
  ultimately show ?thesis
    using assms by (auto simp: sn_functions_def sn_l_methods_def sn_methods_def)
qed

subsection \<open>Sending\<close>

fun course_sent :: "(u8 list list \<times> ikcpcb) course \<Rightarrow> u8 list list" where
  "course_sent (Went (sent, k)) = sent"
| "course_sent (Thrown sent k) = sent"

text \<open>The packets for the datagrams of a flush.\<close>

definition sn_packets :: "'v sn_lua \<Rightarrow> u32 \<Rightarrow> sn_callback \<Rightarrow> u8 list list \<Rightarrow> packet list" where
  "sn_packets w cv c sent =
     map (\<lambda>d. (svrsock w, the (address c), the (pack_output cv d))) sent"

lemma sn_packet_alone:
  assumes "LL w = []" and "address c = Some a" and "length d < 2 ^ 16"
  shows "sn_packet lua w cv c d = Some (svrsock w, a, the (pack_output cv d))"
  using assms pack_ops_alone [OF assms(3)] by (simp add: sn_packet_def pack_output_def)

lemma sn_finish_eq:
  assumes "LL w = []" and "address c = Some a" and "r = Inr x" and "\<forall>d \<in> set (course_sent x). length d < 2 ^ 16"
  shows "sn_finish lua ctx w i cv c r =
    finish w i c (sn_packets w cv c) (\<lambda>sent. sn_packets w cv c (butlast sent)) r"
proof -
  note one = sn_packet_alone [OF assms(1,2)]
  have map: "map (\<lambda>d. the (sn_packet lua w cv c d)) ds = sn_packets w cv c ds"
    if "\<forall>d \<in> set ds. length d < 2 ^ 16" for ds
    using that one assms(2) by (simp add: sn_packets_def)
  show ?thesis
  proof (cases x)
    case (Went y)
    then show ?thesis
      using assms one map by (cases y) (auto simp: sn_finish_def finish_def)
  next
    case (Thrown sent k)
    then have "\<forall>d \<in> set sent. length d < 2 ^ 16" using assms(4) by simp
    then have "\<not> (\<exists>d \<in> set sent. sn_packet lua w cv c d = None)"
      "\<forall>d \<in> set (butlast sent). length d < 2 ^ 16"
      using one by (auto dest: in_set_butlastD)
    then show ?thesis
      using assms(3) Thrown map [of "butlast sent"]
      by (auto simp: sn_finish_def finish_def Let_def)
  qed
qed

lemma may_stop_sent:
  assumes "may_stop b k raises (sent, k') r" and "\<forall>d \<in> set sent. P d"
  obtains x where "r = Inr x" and "\<forall>d \<in> set (course_sent x). P d"
proof (cases "\<exists>n < length sent. raises n")
  case True
  then obtain n k1 where "r = Inr (Thrown (take (Suc n) sent) k1)"
    using assms(1) by (auto simp: may_stop_def)
  moreover have "\<forall>d \<in> set (take (Suc n) sent). P d" using assms(2) by (meson in_set_takeD)
  ultimately show ?thesis using that by simp
next
  case False
  then show ?thesis using assms that by (auto simp: may_stop_def)
qed

lemma course_bounds:
  assumes "kcp_at held good b w i k c"
  shows "\<exists>x. raising_flush raises k = Inr x \<and> (\<forall>d \<in> set (course_sent x). length d \<le> 1400)"
    and "\<exists>x. raising_update raises k now = Inr x \<and> (\<forall>d \<in> set (course_sent x). length d \<le> 1400)"
proof -
  note inv = kcp_at_inv [OF assms]
  have k: "kcp_wf k" "accounted (live (mem k) - owned k) k" using inv(1) by (simp_all add: kcp_inv_def)
  have mtu: "unat (mtu k) = 1400" using inv(5) by simp
  obtain sent k' where f: "ikcp_flush k = Inr (sent, k')"
    "may_stop (live (mem k) - owned k) k raises (sent, k') (raising_flush raises k)"
    using flush_may_stop [OF inv(1,4)] by blast
  then have "\<forall>d \<in> set sent. length d \<le> 1400"
    using flush_returns [OF k(1) inv(4) k(2)] mtu by auto
  then show "\<exists>x. raising_flush raises k = Inr x \<and> (\<forall>d \<in> set (course_sent x). length d \<le> 1400)"
    by (rule may_stop_sent [OF f(2)]) blast
  obtain sent k' where u: "ikcp_update k now = Inr (sent, k')"
    "may_stop (live (mem k) - owned k) k raises (sent, k') (raising_update raises k now)"
    using update_may_stop [OF inv(1,4)] by blast
  then have "\<forall>d \<in> set sent. length d \<le> 1400"
    using update_returns [OF k(1) inv(4) k(2), of now] mtu by auto
  then show "\<exists>x. raising_update raises k now = Inr x \<and> (\<forall>d \<in> set (course_sent x). length d \<le> 1400)"
    by (rule may_stop_sent [OF u(2)]) blast
qed

lemma fine_sn_finish:
  assumes "kcp_at sn_held sn_good b w i k c" and "LL w = []" and "sn_good c'"
  shows "fine sn_held sn_good b w (sn_finish lua ctx w i cv c' (raising_flush raises k))"
    and "fine sn_held sn_good b w (sn_finish lua ctx w i cv c' (raising_update raises k now))"
proof -
  obtain a where a: "address c' = Some a" using assms(3) by (auto simp: sn_good_def)
  have eq: "sn_finish lua ctx w i cv c' r =
      finish w i c' (sn_packets w cv c') (\<lambda>sent. sn_packets w cv c' (butlast sent)) r"
    if r: "\<exists>x. r = Inr x \<and> (\<forall>d \<in> set (course_sent x). length d \<le> 1400)" for r
  proof -
    obtain x where x: "r = Inr x" "\<forall>d \<in> set (course_sent x). length d \<le> 1400" using r by blast
    then have "\<forall>d \<in> set (course_sent x). length d < 2 ^ 16" by fastforce
    with sn_finish_eq [OF assms(2) a x(1)] show ?thesis by blast
  qed
  show "fine sn_held sn_good b w (sn_finish lua ctx w i cv c' (raising_flush raises k))"
    unfolding eq [OF course_bounds(1) [OF assms(1)]]
    by (rule fine_flush [OF assms(1,3)]) simp
  show "fine sn_held sn_good b w (sn_finish lua ctx w i cv c' (raising_update raises k now))"
    unfolding eq [OF course_bounds(2) [OF assms(1)]]
    by (rule fine_update [OF assms(1,3)]) simp
qed

subsection \<open>The address\<close>

lemma store_address_result:
  assumes "sn_good c"
  shows "case store_address addr c m of
      Inl e \<Rightarrow> \<not> plentiful m
    | Inr (c', m') \<Rightarrow> sn_good c' \<and> live m' = live m \<and>
        (addr \<noteq> [] \<longrightarrow> address c' = Some (addr @ [0])) \<and> (addr = [] \<longrightarrow> c' = c)"
proof -
  obtain old where old: "address c = Some (old @ [0])" "addresssz c = length old"
    using assms by (auto simp: sn_good_def)
  show ?thesis
  proof (cases "addr = [] \<or> length old = length addr")
    case True
    then show ?thesis
      using assms old by (auto simp: store_address_def sn_good_def Let_def)
  next
    case False
    show ?thesis
    proof (cases "answers m 0")
      case True
      then show ?thesis
        using False old by (auto simp: store_address_def sn_good_def Let_def ikcp_malloc_def)
    next
      case refused: False
      then show ?thesis
        using False old by (auto simp: store_address_def Let_def ikcp_malloc_def plentiful_def)
    qed
  qed
qed

lemma fine_sn_address:
  assumes "world_ok sn_held sn_good b (put w i k c)" and "i < length (blocks w)" and "sn_good c"
    and "plentiful (pool w) \<longrightarrow> plentiful (mem k)"
  shows "fine sn_held sn_good b w (sn_address api args w i k c hr)"
  unfolding sn_address_def
proof (rule fine_str_arg [OF assms(1)])
  fix addr
  let ?w = "put w i k c"
  show "fine sn_held sn_good b w
    (case store_address addr c (mem k) of Inl e \<Rightarrow> Inl (C_fault e)
     | Inr (c, m) \<Rightarrow> returns [Integer hr] (put w i (k\<lparr>mem := m\<rparr>) c))"
  proof (cases "store_address addr c (mem k)")
    case (Inl e)
    then show ?thesis
      using store_address_result [where addr = addr and m = "mem k", OF assms(3)] assms(4) by (auto simp: fine_def)
  next
    case (Inr y)
    then obtain c' m where s: "store_address addr c (mem k) = Inr (c', m)" by (cases y) simp
    have c': "sn_good c'" "live m = live (mem k)"
      using store_address_result [where addr = addr and m = "mem k", OF assms(3)] s by auto
    have at: "i < length (blocks ?w)" "blocks ?w ! i = Live k (Some c)" "pool ?w = mem k"
      using assms(2) by (simp_all add: put_def)
    obtain inv: "kcp_inv (live (pool ?w) - owned k) (k\<lparr>mem := pool ?w\<rparr>)"
      "settings (k\<lparr>mem := pool ?w\<rparr>) = (conv k, IKCP_MTU_DEF, True)"
      using world_block [OF assms(1) at(1,2)] by metis
    have "world_ok sn_held sn_good b (put ?w i (k\<lparr>mem := m\<rparr>) c')"
    proof (rule world_put [OF assms(1) at(1,2)])
      show "kcp_inv (live (pool ?w) - owned k) (k\<lparr>mem := m, mem := mem k\<rparr>)"
        using inv(1) at(3) by simp
      show "settings (k\<lparr>mem := m\<rparr>) = (conv k, IKCP_MTU_DEF, True)"
        using inv(2) by (simp add: settings_def)
    qed (use c' in simp_all)
    then show ?thesis using s by (simp add: put_def fine_rules)
  qed
qed

subsection \<open>The methods\<close>

lemma kcp_at_facts: "kcp_at held good b w i k c \<Longrightarrow> world_ok held good b w \<and> i < length (blocks w) \<and> good c"
  by (simp add: kcp_at_def)

lemma fine_refused: "\<not> plentiful (pool w) \<Longrightarrow> fine held good b w (Inl e)"
  by (simp add: fine_def)

lemma malloc_refused: "ikcp_malloc m = (False, m') \<Longrightarrow> \<not> plentiful m"
  using plentiful_malloc [of m] by auto

lemma malloc_given:
  "ikcp_malloc m = (True, m') \<Longrightarrow> live m' = live m + 1 \<and> (plentiful m \<longrightarrow> plentiful m')"
  by (auto simp: ikcp_malloc_def plentiful_def split: if_splits)

lemma sn_methods_fine:
  assumes "sn_ok b w" and "not_released api args w" and "(name, f) \<in> set (sn_methods lua api ctx fails L)"
  shows "fine sn_held sn_good b w (f args w)"
proof -
  have ok: "world_ok sn_held sn_good b w" and ll: "LL w = []" using assms(1) by (simp_all add: sn_ok_def)
  have "fine sn_held sn_good b w (sn_recv api args w)"
    using ok assms(2) by (auto simp: sn_recv_def dest: kcp_at_facts intro!: fine_rules)
  moreover have "fine sn_held sn_good b w (sn_check api args w)"
    using ok assms(2) by (auto simp: sn_check_def Let_def intro!: fine_rules)
  moreover have "fine sn_held sn_good b w (sn_wndsize api args w)"
    using ok assms(2) by (auto simp: sn_wndsize_def intro!: fine_rules)
  moreover have "fine sn_held sn_good b w (sn_nodelay api args w)"
    using ok assms(2) by (auto simp: sn_nodelay_def intro!: fine_rules)
  moreover have "fine sn_held sn_good b w (sn_send api args w)"
    unfolding sn_send_def
  proof (rule fine_with_kcp [OF ok assms(2)], rule fine_str_arg [OF ok], rule fine_send, assumption)
    fix i k c data r k'
    assume at: "kcp_at sn_held sn_good b w i k c" and ok': "world_ok sn_held sn_good b (put w i k' c)"
      and s: "ikcp_send k (Some data) (s32 (int (length data))) = Inr (r, k')"
    show "fine sn_held sn_good b w (sn_address api args w i k' c r)"
      using fine_sn_address [OF ok'] kcp_at_facts [OF at] send_plentiful [OF s] kcp_at_inv(3) [OF at] by simp
  qed
  moreover have "fine sn_held sn_good b w (sn_input api args w)"
    unfolding sn_input_def
  proof (rule fine_with_kcp [OF ok assms(2)], rule fine_str_arg [OF ok], rule fine_input, assumption)
    fix i k c data r k'
    assume at: "kcp_at sn_held sn_good b w i k c" and ok': "world_ok sn_held sn_good b (put w i k' c)"
      and s: "ikcp_input k (Some data) = Inr (r, k')"
    have "plentiful (mem k) \<Longrightarrow> plentiful (mem k')"
      using kcp_at_inv(1) [OF at] input_plentiful [OF _ _ s] by (auto simp: kcp_inv_def)
    then show "fine sn_held sn_good b w (sn_address api args w i k' c r)"
      using fine_sn_address [OF ok'] kcp_at_facts [OF at] kcp_at_inv(3) [OF at] by simp
  qed
  moreover have "fine sn_held sn_good b w (sn_update lua api ctx fails L args w)"
    using ok ll assms(2)
    by (auto simp: sn_update_def Let_def sn_good_def dest: kcp_at_facts
        intro!: fine_with_kcp fine_int_arg fine_sn_finish(2))
  moreover have "fine sn_held sn_good b w (sn_flush lua api ctx fails L args w)"
    using ok ll assms(2)
    by (auto simp: sn_flush_def Let_def sn_good_def dest: kcp_at_facts
        intro!: fine_with_kcp fine_sn_finish(1))
  ultimately show ?thesis using assms(3) by (auto simp: sn_methods_def)
qed

lemma sn_gc_fine:
  assumes "sn_ok b w" and "not_released api args w"
  shows "fine sn_held sn_good b w (sn_gc api args w)"
proof (cases "kcp_arg api args w")
  case None
  then show ?thesis using assms(1) by (simp add: sn_gc_def sn_ok_def fine_rules)
next
  case (Some i)
  have ok: "world_ok sn_held sn_good b w" using assms(1) by (simp add: sn_ok_def)
  have i: "i < length (blocks w)" using Some by (rule kcp_arg_bound)
  show ?thesis
  proof (cases "blocks w ! i")
    case (Live k co)
    obtain c where c: "co = Some c" "sn_good c" using world_block [OF ok i Live] by metis
    then have "address c \<noteq> None" by (auto simp: sn_good_def)
    then show ?thesis
      using world_release [OF ok i Live [unfolded c(1)], of "ikcp_free (ikcp_free (pool w))"] Some Live c(1)
      by (simp add: sn_gc_def fine_rules)
  next
    case Released
    then show ?thesis using assms(2) Some by (simp add: not_released_def)
  qed (use ok Some in \<open>simp add: sn_gc_def fine_rules\<close>)
qed

text \<open>
  A new block.  The account is kept unless \<open>ikcp_create\<close> is refused memory: then the address is
  not freed.
\<close>

lemma sn_create_fine:
  assumes "sn_ok b w" and "plentiful (pool w)" and "\<And>addr. checklstring api (arg args 2) = Some addr \<Longrightarrow> 2 \<le> length addr"
  shows "fine sn_held sn_good b w (sn_create api L args w)"
proof -
  have ok: "world_ok sn_held sn_good b w" using assms(1) by (simp add: sn_ok_def)
  show ?thesis
  proof (cases "checkinteger api (arg args 1)")
    case None
    then show ?thesis using ok by (simp add: sn_create_def fine_rules)
  next
    case (Some sock)
    let ?w = "if sock \<noteq> 0 \<and> svrsock w = 0 then w\<lparr>svrsock := sock\<rparr> else w"
    have same: "pool ?w = pool w" "blocks ?w = blocks w" "world_ok sn_held sn_good b ?w"
      using ok by (simp_all add: world_ok_def)
    obtain m1 where m1: "ikcp_malloc (pool w) = (True, m1)" "live m1 = live (pool w) + 1" "plentiful m1"
      using plentiful_malloc [OF assms(2)] assms(2) by (simp add: plentiful_def)
    obtain m2 where m2: "ikcp_malloc m1 = (True, m2)" "live m2 = live (pool w) + 2" "plentiful m2"
      using plentiful_malloc [OF m1(3)] m1(2,3) by (simp add: plentiful_def)
    have new: "\<exists>k. ikcp_create m2 cv = Inr k" for cv
      using m2(3) by (simp add: ikcp_create_def ikcp_malloc_def plentiful_def)
    have print: "\<exists>y. print_address (addr @ [0]) (length addr) = Inr y" if "2 \<le> length addr" for addr
      using that by (auto simp: print_address_def Let_def)
    show ?thesis
    proof (cases "checklstring api (arg args 2)")
      case None
      then show ?thesis using ok Some by (simp add: sn_create_def str_arg_def fine_rules)
    next
      case s: (Some addr)
      show ?thesis
      proof (cases "checkinteger api (arg args 3)")
        case None
        then show ?thesis using ok Some s by (simp add: sn_create_def str_arg_def int_arg_def fine_rules)
      next
        case v: (Some v)
        let ?c = "\<lparr>sn_L = L, sn_eL = L, address = Some (addr @ [0]), addresssz = length addr\<rparr>"
        obtain k where k: "ikcp_create m2 (ucast v) = Inr k" using new by blast
        obtain y where y: "print_address (addr @ [0]) (length addr) = Inr y"
          using print assms(3) [OF s] by blast
        have "world_ok sn_held sn_good b (?w\<lparr>pool := mem k,
            blocks := blocks ?w @ [Live (k\<lparr>output_cb := True\<rparr>) (Some ?c)]\<rparr>)"
          by (rule world_new [OF same(3) k]) (use m2(2) same(1) in \<open>simp_all add: sn_good_def\<close>)
        then show ?thesis
          using Some s v m1(1) m2(1) k y same(1)
          unfolding sn_create_def str_arg_def int_arg_def Let_def
          by (auto simp: fine_ends split: if_splits)
      qed
    qed
  qed
qed

section \<open>Sessions\<close>

text \<open>
  What is expected of a script: no \<open>__gc\<close> by hand; and a new block only with an address of at least
  two bytes (\<open>print_address\<close> reads them) and while memory is not refused (what happens otherwise is
  \<open>create_leaks\<close>).
\<close>

definition sn_proper :: "'v lua_api \<Rightarrow> 'v sn_lua \<Rightarrow> string \<Rightarrow> 'v list \<Rightarrow> nat \<Rightarrow> bool" where
  "sn_proper api w name args L \<longleftrightarrow> L \<in> threads w \<and> not_released api args w \<and>
     (name = ''lkcp_create'' \<longrightarrow> plentiful (pool w) \<and>
        (\<forall>addr. checklstring api (arg args 2) = Some addr \<longrightarrow> 2 \<le> length addr))"

inductive sn_step ::
  "interpreter \<Rightarrow> 'v lua_api \<Rightarrow> bool \<Rightarrow> 'v sn_lua \<Rightarrow> 'v event \<Rightarrow> 'v sn_lua \<Rightarrow> bool"
  for lua api ctx where
  invoke: "sn_proper api w name args L \<Longrightarrow> map_of (sn_functions lua api ctx fails L) name = Some f \<Longrightarrow>
     f args w = Inr (r, w') \<Longrightarrow> sn_step lua api ctx w (Invoke name args L fails) w'"
| spawn: "sn_step lua api ctx w (Spawn t) (w\<lparr>threads := insert t (threads w)\<rparr>)"
| die: "sn_step lua api ctx w (Die t) (w\<lparr>threads := threads w - {t}\<rparr>)"

inductive_cases sn_stepE: "sn_step lua api ctx w e w'"

lemma sn_functions_fine:
  assumes "sn_ok b w" and "sn_proper api w name args L"
    and "map_of (sn_functions lua api ctx fails L) name = Some f"
  shows "case f args w of Inl e \<Rightarrow> \<not> plentiful (pool w) | Inr (r, w') \<Rightarrow> sn_ok b w'"
proof -
  have mem: "(name, f) \<in> set (sn_functions lua api ctx fails L)" using assms(3) by (rule map_of_SomeD)
  then consider "name = ''lkcp_create''" "f = sn_create api L"
    | "(name, f) \<in> set (sn_methods lua api ctx fails L)" | "f = sn_gc api"
    by (auto simp: sn_functions_def sn_l_methods_def)
  then have "fine sn_held sn_good b w (f args w)"
  proof cases
    case 1
    then show ?thesis using assms(1,2) by (auto simp: sn_proper_def intro: sn_create_fine)
  next
    case 2
    then show ?thesis using assms(1,2) by (auto simp: sn_proper_def intro: sn_methods_fine)
  next
    case 3
    then show ?thesis using assms(1,2) by (auto simp: sn_proper_def intro: sn_gc_fine)
  qed
  moreover have "same_LL w (f args w)" using mem by (rule functions_same_LL)
  ultimately show ?thesis
    using assms(1) by (auto simp: fine_def same_LL_def sn_ok_def split: sum.splits)
qed

interpretation skynet: step_system "\<lambda>w. opened b w \<and> LL w = []" "sn_step lua api ctx" "sn_ok b"
  for b and api :: "'v lua_api" and lua ctx
proof
  fix w :: "'v sn_lua" and e w'
  show "opened b w \<and> LL w = [] \<Longrightarrow> sn_ok b w" by (simp add: sn_ok_def opened_ok)
  assume ok: "sn_ok b w" and "sn_step lua api ctx w e w'"
  from this(2) show "sn_ok b w'"
    by (elim sn_stepE)
      (use sn_functions_fine [OF ok] ok in \<open>force simp: sn_ok_def world_ok_frame\<close>)+
qed

section \<open>Properties\<close>


text \<open>
  When all blocks of such a session have been collected, the process owns as much memory
  as before: the address blocks, replaced any number of times, are freed too.
\<close>

theorem skynet_no_leak:
  assumes "opened b w0" and "LL w0 = []" and "skynet.run lua api ctx w0 events w"
    and "set (blocks w) \<subseteq> {Released}"
  shows "live (pool w) = b"
proof -
  have "sn_ok b w" using skynet.reachable_good assms(1-3) by blast
  then show ?thesis using world_released assms(4) by (auto simp: sn_ok_def)
qed

lemma be_bytes:
  "push_bit 24 (ucast (ucast (drop_bit 24 w) :: u8)) OR push_bit 16 (ucast (ucast (drop_bit 16 w) :: u8)) OR
    push_bit 8 (ucast (ucast (drop_bit 8 w) :: u8)) OR ucast (ucast w :: u8) = (w :: u32)"
proof (rule bit_word_eqI)
  fix n assume n: "n < LENGTH(32)"
  then have "n < 8 \<or> n - 8 < 8 \<and> n = n - 8 + 8 \<or> n - 16 < 8 \<and> n = n - 16 + 16 \<or>
      n - 24 < 8 \<and> n = n - 24 + 24" by simp linarith
  then consider "n < 8" | m where "n = m + 8" "m < 8" | m where "n = m + 16" "m < 8"
    | m where "n = m + 24" "m < 8"
    by metis
  then show "bit (push_bit 24 (ucast (ucast (drop_bit 24 w) :: u8)) OR
      push_bit 16 (ucast (ucast (drop_bit 16 w) :: u8)) OR
      push_bit 8 (ucast (ucast (drop_bit 8 w) :: u8)) OR ucast (ucast w :: u8) :: u32) n = bit w n"
    by cases (auto simp: bit_simps ac_simps)
qed

lemma be16_length:
  assumes "n < 2 ^ 16"
  shows "unat (ucast (drop_bit 8 (of_nat n :: u16)) :: u8) * 256 + unat (ucast (of_nat n :: u16) :: u8) = n"
proof -
  have n: "unat (of_nat n :: u16) = n" using assms by (simp add: unat_of_nat)
  have d: "unat (drop_bit 8 (of_nat n :: u16)) = n div 256"
    by (simp add: drop_bit_eq_div unat_div_distrib n)
  have "unat (ucast (drop_bit 8 (of_nat n :: u16)) :: u8) = n div 256"
    unfolding unsigned_ucast_eq d take_bit_eq_mod using assms by simp
  moreover have "unat (ucast (of_nat n :: u16) :: u8) = n mod 256"
    by (simp add: unsigned_ucast_eq n take_bit_eq_mod)
  ultimately show ?thesis by simp
qed

lemma unpack_packed:
  assumes "length d < 2 ^ 16"
  shows "unpack_package (be32 c @ be16 (of_nat (length d)) @ d) = Some (c, d)"
  using be16_length [OF assms] be_bytes [of c]
  by (simp add: unpack_package_def be32_def be16_def Let_def nth_Cons' numeral_2_eq_2 numeral_3_eq_3)

text \<open>
  C15: a flush of the skynet binding sends every datagram of \<open>ikcp_flush\<close>, in order, from the
  socket of the module to the address kept with the block, and \<open>unpack_package\<close> on the
  other side reads the conversation and the datagram back.
\<close>

theorem skynet_flush_sends:
  assumes "opened b w0" and "LL w0 = []" and "skynet.run lua api ctx w0 events w"
    and "kcp_arg api args w = Some i" and "blocks w ! i = Live k (Some c)"
  shows "\<exists>sent k' addr w'. ikcp_flush (k\<lparr>mem := pool w\<rparr>) = Inr (sent, k') \<and>
    address c = Some (addr @ [0]) \<and>
    sn_flush lua api True (\<lambda>_. False) L args w = Inr (Some [], w') \<and>
    (\<exists>packets. outbox w' = outbox w @ map (\<lambda>p. (svrsock w, addr @ [0], p)) packets \<and>
       list_all2 (\<lambda>d p. unpack_package p = Some (conv k, d)) sent packets)"
proof -
  have ok: "sn_ok b w" using skynet.reachable_good assms(1-3) by blast
  let ?k = "k\<lparr>mem := pool w\<rparr>"
  let ?c = "c\<lparr>sn_eL := L\<rparr>"
  have i: "i < length (blocks w)" using assms(4) by (rule kcp_arg_bound)
  have "sn_good c" using world_block [of sn_held sn_good b w i k "Some c"] ok i assms(5)
    by (metis option.inject sn_ok_def)
  then obtain addr where addr: "address c = Some (addr @ [0])" by (auto simp: sn_good_def)
  have at: "kcp_at sn_held sn_good b w i ?k c"
    using ok i assms(5) \<open>sn_good c\<close> by (auto simp: kcp_at_def sn_ok_def)
  have quiet: "\<not> callback_raises True (\<lambda>_. False) ?c n" for n
    using addr by (simp add: callback_raises_def)
  obtain sent k' where f: "ikcp_flush ?k = Inr (sent, k')"
    "may_stop (live (mem ?k) - owned ?k) ?k (callback_raises True (\<lambda>_. False) ?c) (sent, k')
      (raising_flush (callback_raises True (\<lambda>_. False) ?c) ?k)"
    using flush_may_stop [OF kcp_at_inv(1,4) [OF at]] by blast
  then have r: "raising_flush (callback_raises True (\<lambda>_. False) ?c) ?k = Inr (Went (sent, k'))"
    using quiet by (simp add: may_stop_def)
  have len: "\<forall>d \<in> set sent. length d < 2 ^ 16"
    using course_bounds(1) [OF at, of "callback_raises True (\<lambda>_. False) ?c"] r by fastforce
  let ?packets = "map (\<lambda>d. be32 (conv k) @ be16 (of_nat (length d)) @ d) sent"
  have packets: "sn_packets w (conv k) ?c sent = map (\<lambda>p. (svrsock w, addr @ [0], p)) ?packets"
    using len addr by (simp add: sn_packets_def pack_output_def)
  have "sn_flush lua api True (\<lambda>_. False) L args w =
      sn_finish lua True w i (conv k) ?c (Inr (Went (sent, k')))"
    using assms(4,5) r by (simp add: sn_flush_def with_kcp_def)
  also have "\<dots> = finish w i ?c (sn_packets w (conv k) ?c)
      (\<lambda>sent. sn_packets w (conv k) ?c (butlast sent)) (Inr (Went (sent, k')))"
    by (rule sn_finish_eq [of w ?c "addr @ [0]" _ "Went (sent, k')"])
      (use ok addr len in \<open>simp_all add: sn_ok_def\<close>)
  finally have s: "sn_flush lua api True (\<lambda>_. False) L args w =
      Inr (Some [], (put w i k' ?c)\<lparr>outbox := outbox w @ map (\<lambda>p. (svrsock w, addr @ [0], p)) ?packets\<rparr>)"
    by (simp add: finish_def returns_def packets)
  have "list_all2 (\<lambda>d p. unpack_package p = Some (conv k, d)) sent ?packets"
    using len unpack_packed by (simp add: list_all2_map2 list.rel_refl_strong)
  moreover obtain w' where "sn_flush lua api True (\<lambda>_. False) L args w = Inr (Some [], w')"
    "outbox w' = outbox w @ map (\<lambda>p. (svrsock w, addr @ [0], p)) ?packets"
    using s by simp
  ultimately show ?thesis using f(1) addr by blast
qed

section \<open>Two services\<close>

text \<open>
  \<open>LL\<close> is shared by all services of the process, which run in several threads, and the lock is
  commented out (\<open>lock_on\<close>).  The calls two callbacks make on \<open>LL\<close> may be interleaved in any order.
  The schedule says which one makes the next call.
\<close>

fun ll_schedule ::
  "interpreter \<Rightarrow> bool list \<Rightarrow> ll_op list \<Rightarrow> ll_op list \<Rightarrow> ll_value list \<Rightarrow> u8 list option \<Rightarrow> u8 list option \<Rightarrow>
   (ll_value list \<times> u8 list option \<times> u8 list option) option" where
  "ll_schedule lua (True # bs) (x # xs) ys st r1 r2 =
     (case ll_do lua x (st, r1) of None \<Rightarrow> None | Some (st, r1) \<Rightarrow> ll_schedule lua bs xs ys st r1 r2)"
| "ll_schedule lua (False # bs) xs (y # ys) st r1 r2 =
     (case ll_do lua y (st, r2) of None \<Rightarrow> None | Some (st, r2) \<Rightarrow> ll_schedule lua bs xs ys st r1 r2)"
| "ll_schedule lua bs xs ys st r1 r2 = (if bs = [] \<and> xs = [] \<and> ys = [] then Some (st, r1, r2) else None)"

lemma numeral_6_eq_6: "6 = Suc (Suc (Suc (Suc (Suc (Suc 0)))))"
  by simp

text \<open>
  C38: the shared Lua state needs the lock that is commented out.  When two services run the
  callback at the same time, there is an interleaving in which the second sends the datagram of the
  first to its own peer and loses its own; one after the other each sends its own.
\<close>

theorem unlocked_mixes_datagrams:
  assumes "length d1 < 2 ^ 16" and "length d2 < 2 ^ 16"
  shows "(\<exists>schedule. ll_schedule lua schedule (pack_ops c1 d1) (pack_ops c2 d2) [] None None =
      Some ([], pack_output c1 d1, pack_output c1 d1)) \<and>
    ll_schedule lua (replicate 6 True @ replicate 6 False) (pack_ops c1 d1) (pack_ops c2 d2) [] None None =
      Some ([], pack_output c1 d1, pack_output c2 d2)"
proof
  show "\<exists>schedule. ll_schedule lua schedule (pack_ops c1 d1) (pack_ops c2 d2) [] None None =
      Some ([], pack_output c1 d1, pack_output c1 d1)"
    using assms
    by (intro exI [of _ "[True, True, True, True, False, False, False, False, False, False, True, True]"])
      (simp add: pack_ops_def pack_output_def)
qed (use assms in \<open>simp add: pack_ops_def pack_output_def numeral_6_eq_6\<close>)

text \<open>
  The third argument of \<open>lkcp_send\<close> is looked at after the message has been queued: without an
  address the call raises an error although the message will be sent, and a script that tries
  again sends it twice.
\<close>

theorem send_queues_then_fails:
  assumes "kcp_arg api args w = Some i" and "blocks w ! i = Live k (Some c)" and "kcp_wf k"
    and "plentiful (pool w)" and "checklstring api (arg args 2) = Some data"
    and "checklstring api (arg args 3) = None" and "length data < 2 ^ 31"
    and "length (chunks (unat (mss k)) data) \<le> 255"
  shows "\<exists>w' k'. sn_send api args w = Inr (None, w') \<and> blocks w' ! i = Live k' (Some c) \<and>
    snd_queue k' = snd_queue k @ fragments (chunks (unat (mss k)) data)"
proof -
  let ?k = "k\<lparr>mem := pool w\<rparr>"
  let ?k' = "enqueue (fragments (chunks (unat (mss k)) data)) ?k"
  have i: "i < length (blocks w)" using assms(1) by (rule kcp_arg_bound)
  have "kcp_wf ?k" using assms(3) by (simp add: wf_defs)
  then have s: "ikcp_send ?k (Some data) (int (length data)) = Inr (0, ?k')"
    using send_enqueues [of ?k data] assms(4,7,8) by (simp add: plentiful_def)
  have "s32 (int (length data)) = int (length data)" using assms(7) by (simp add: s32_nat)
  then have "sn_send api args w = raise (put w i ?k' c)"
    using assms(1,2,5,6) s by (simp add: sn_send_def with_kcp_def str_arg_def sn_address_def)
  then show ?thesis using i by (auto simp: raise_def put_def enqueue_def)
qed

text \<open>
  When \<open>ikcp_create\<close> is refused memory, \<open>lkcp_create\<close> frees the callback structure but not the
  address it points to: one block is lost.
\<close>

theorem create_leaks:
  assumes "checkinteger api (arg args 1) = Some sock" and "checklstring api (arg args 2) = Some addr"
    and "checkinteger api (arg args 3) = Some v"
    and "answers (pool w) 0" and "answers (pool w) 1" and "\<not> answers (pool w) 2 \<or> \<not> answers (pool w) 3"
  shows "\<exists>w'. sn_create api L args w =
      Inr (Some [Nil_value, Message ''error: fail to create kcp''], w') \<and>
    blocks w' = blocks w \<and> live (pool w') = live (pool w) + 1"
proof -
  obtain m1 where m1: "ikcp_malloc (pool w) = (True, m1)" "live m1 = live (pool w) + 1"
    "answers m1 = (\<lambda>n. answers (pool w) (Suc n))"
    using assms(4)
    by (intro that [of "snd (ikcp_malloc (pool w))"]) (simp_all add: ikcp_malloc_def)
  obtain m2 where m2: "ikcp_malloc m1 = (True, m2)" "live m2 = live (pool w) + 2"
    "answers m2 = (\<lambda>n. answers (pool w) (Suc (Suc n)))"
    using assms(5) m1(2,3)
    by (intro that [of "snd (ikcp_malloc m1)"]) (simp_all add: ikcp_malloc_def)
  have "\<not> answers m2 0 \<or> \<not> answers m2 1"
    using assms(6) m2(3) by (simp add: numeral_2_eq_2 numeral_3_eq_3)
  then have "\<exists>m3. ikcp_create m2 (ucast v) = Inl m3 \<and> live m3 = live (pool w) + 2"
    using m2(2)
    by (cases "answers m2 0") (auto simp: ikcp_create_def ikcp_malloc_def ikcp_free_def Let_def)
  then obtain m3 where m3: "ikcp_create m2 (ucast v) = Inl m3" "live m3 = live (pool w) + 2" by blast
  then show ?thesis
    using assms(1-3) m1(1) m2(1)
    by (simp add: sn_create_def str_arg_def int_arg_def returns_def)
qed

text \<open>
  \<open>lkcp_input\<close> takes over the address of the sender whatever \<open>ikcp_input\<close> says of the datagram: one
  that is too short to hold a header changes nothing in the control block, but everything the block
  sends from then on goes to the address it came from.
\<close>

lemma garbage_moves_address:
  assumes "opened b w0" and "LL w0 = []" and "skynet.run lua api ctx w0 events w"
    and "kcp_arg api args w = Some i" and "blocks w ! i = Live k (Some c)" and "plentiful (pool w)"
    and "checklstring api (arg args 2) = Some data" and "length data < 24"
    and "checklstring api (arg args 3) = Some addr" and "addr \<noteq> []"
  shows "\<exists>w' m c'. sn_input api args w = Inr (Some [Integer 0], w') \<and>
    blocks w' = (blocks w)[i := Live (k\<lparr>mem := m\<rparr>) (Some c')] \<and> address c' = Some (addr @ [0])"
proof -
  have ok: "sn_ok b w" using skynet.reachable_good assms(1-3) by blast
  have i: "i < length (blocks w)" using assms(4) by (rule kcp_arg_bound)
  have good: "sn_good c"
    using world_block [of sn_held sn_good b w i k "Some c"] ok i assms(5) by (metis option.inject sn_ok_def)
  have r: "ikcp_input (k\<lparr>mem := pool w\<rparr>) (Some data) = Inr (0, k\<lparr>mem := pool w\<rparr>)"
    using assms(8) by (simp add: ikcp_input_def)
  obtain c' m where s: "store_address addr c (pool w) = Inr (c', m)" "address c' = Some (addr @ [0])"
    using store_address_result [OF good, where addr = addr and m = "pool w"] assms(6,10)
    by (auto split: sum.splits)
  have "sn_input api args w = returns [Integer 0] (put w i (k\<lparr>mem := m\<rparr>) c')"
    using assms(4,5,7,9) r s(1) by (simp add: sn_input_def with_kcp_def str_arg_def sn_address_def)
  then show ?thesis using s(2) by (auto simp: returns_def put_def)
qed

end
