(* ===== verification/Lua_Witnesses.thy ===== *)
theory Lua_Witnesses
  imports Lkcp Lkcpsn
begin

text \<open>
  A small interpreter and sessions of the two bindings in it, at which the hypotheses of their
  properties hold, and the properties applied to them.
\<close>

section \<open>A sample interpreter\<close>

datatype sample = Num u64 | Bytes "u8 list" | Kcp nat | Fun nat | Nothing

definition sample_api :: "sample lua_api" where
  "sample_api =
     \<lparr>checkinteger = (\<lambda>a. case a of Some (Num n) \<Rightarrow> Some n | _ \<Rightarrow> None),
      checklstring = (\<lambda>a. case a of Some (Bytes b) \<Rightarrow> Some b | _ \<Rightarrow> None),
      checkudata = (\<lambda>a. case a of Some (Kcp i) \<Rightarrow> Some i | _ \<Rightarrow> None),
      isfunction = (\<lambda>v. case v of Fun n \<Rightarrow> True | _ \<Rightarrow> False),
      isnil = (\<lambda>v. v = Nothing),
      new_ref = (\<lambda>r v. if r 1 = None then 1 else SOME h. usable r h)\<rparr>"

lemma sample_ref_law: "ref_law sample_api"
  unfolding ref_law_def
proof (intro allI impI)
  fix r :: "u64 \<Rightarrow> sample option" and v
  assume "\<exists>h. usable r h"
  then have "usable r (SOME h. usable r h)" by (rule someI_ex)
  then show "usable r (new_ref sample_api r v)" by (simp add: sample_api_def) (simp add: usable_def)
qed

definition mem_all :: memory where
  "mem_all = \<lparr>answers = (\<lambda>_. True), live = 0\<rparr>"

lemma mem_all_plentiful: "plentiful mem_all"
  by (simp add: mem_all_def)

section \<open>A flush that is left\<close>

text \<open>A control block with a segment in flight whose time has come.\<close>

definition k_due :: ikcpcb where
  "k_due = (new_kcpcb 7 4272 \<lparr>answers = (\<lambda>_. True), live = 3\<rparr>)\<lparr>output_cb := True, updated := 1,
     current := 300, snd_nxt := 1, nsnd_buf := 1,
     snd_buf := [(data_segment 0 [9])\<lparr>seg_conv := 7, seg_cmd := 81, seg_xmit := 1, seg_resendts := 200\<rparr>]\<rparr>"

lemma k_due_inv: "kcp_inv 0 k_due" "output_cb k_due"
  by (simp_all add: kcp_inv_def wf_defs wf_wire_def accounted_def owned_def k_due_def new_kcpcb_def
      data_segment_def seg_fits_def seg_sound_def fresh_segment_def)

theorem flush_survives_errors_witness:
  "\<exists>sent k'. ikcp_flush k_due = Inr (sent, k') \<and>
    (if \<exists>n < length sent. True
     then \<exists>n < length sent. \<exists>k1. True \<and> (\<forall>j < n. \<not> True) \<and>
       raising_flush (\<lambda>_. True) k_due = Inr (Thrown (take (Suc n) sent) k1) \<and> kcp_inv 0 k1 \<and>
       rcv_queue k1 = rcv_queue k_due \<and> rcv_buf k1 = rcv_buf k_due \<and>
       map fragment_of (snd_buf k1 @ snd_queue k1) = map fragment_of (snd_buf k_due @ snd_queue k_due)
     else raising_flush (\<lambda>_. True) k_due = Inr (Went (sent, k')))"
  by (rule flush_survives_errors [OF k_due_inv])

section \<open>A session of lkcp\<close>

definition p0 :: "(sample, sample \<times> u8 list) lkcp" where
  "p0 = \<lparr>blocks = [], pool = mem_all, registry = (\<lambda>_. None), threads = {0}, recv_buffer = True,
     outbox = []\<rparr>"

definition k_fresh :: "int \<Rightarrow> ikcpcb" where
  "k_fresh n = (new_kcpcb 7 4272 \<lparr>answers = (\<lambda>_. True), live = n\<rparr>)\<lparr>output_cb := True\<rparr>"

definition p1 :: "(sample, sample \<times> u8 list) lkcp" where
  "p1 = p0\<lparr>registry := [1 \<mapsto> Fun 3], pool := mem_all\<lparr>live := 3\<rparr>,
     blocks := [Live (k_fresh 3) (Some \<lparr>handle = 1, creator = 0, eL = 0\<rparr>)]\<rparr>"

definition p2 :: "(sample, sample \<times> u8 list) lkcp" where
  "p2 = p0\<lparr>registry := [1 \<mapsto> Fun 3](1 := None), blocks := [Released]\<rparr>"

lemma p0_create: "lkcp_create sample_api 0 [Num 7, Fun 3] p0 = Inr (Some [Userdata 0], p1)"
  by (simp add: lkcp_create_def sample_api_def p0_def p1_def Let_def int_arg_def arg_def returns_def
      ikcp_malloc_def ikcp_create_def mem_all_def k_fresh_def new_kcpcb_def)

lemma p1_gc: "kcp_gc sample_api [Kcp 0] p1 = Inr (Some [], p2)"
  by (simp add: kcp_gc_def sample_api_def p0_def p1_def p2_def kcp_arg_def arg_def returns_def unref_def
      ikcp_release_def k_fresh_def new_kcpcb_def mem_all_def ikcp_free_def Let_def)

lemma p0_facts: "opened 0 p0" "registry p0 (-1) = None" "usable (registry p0) 1"
  by (simp_all add: opened_def p0_def mem_all_def usable_def)

lemma p1_proper: "lkcp_proper sample_api p1 name args 0" if "name \<noteq> ''lkcp_create''"
  using that by (auto simp: lkcp_proper_def not_released_def p1_def p0_def kcp_arg_def split: option.splits if_splits)

lemma p01_step: "lkcp_step sample_api p0 (Invoke ''lkcp_create'' [Num 7, Fun 3] 0 (\<lambda>_. False)) p1"
proof (rule lkcp_step.invoke)
  show "lkcp_proper sample_api p0 ''lkcp_create'' [Num 7, Fun 3] 0"
    using p0_facts(3) by (auto simp: lkcp_proper_def not_released_def p0_def kcp_arg_def split: option.splits)
  show "map_of (lkcp_functions sample_api (\<lambda>_. False) 0) ''lkcp_create'' = Some (lkcp_create sample_api 0)"
    by (simp add: lkcp_functions_def l_methods_def)
qed (rule p0_create)

lemma p12_step: "lkcp_step sample_api p1 (Invoke ''__gc'' [Kcp 0] 0 (\<lambda>_. False)) p2"
proof (rule lkcp_step.invoke)
  show "map_of (lkcp_functions sample_api (\<lambda>_. False) 0) ''__gc'' = Some (kcp_gc sample_api)"
    by (simp add: lkcp_functions_def l_methods_def lkcp_methods_def)
qed (simp_all add: p1_proper p1_gc)

lemma p_runs:
  "plain.run sample_api p0 [Invoke ''lkcp_create'' [Num 7, Fun 3] 0 (\<lambda>_. False)] p1"
  "plain.run sample_api p0 [Invoke ''lkcp_create'' [Num 7, Fun 3] 0 (\<lambda>_. False),
     Invoke ''__gc'' [Kcp 0] 0 (\<lambda>_. False)] p2"
  by (blast intro: plain.run.intros p01_step p12_step)+

lemma send_method: "map_of (lkcp_functions sample_api (\<lambda>_. False) 0) ''lkcp_send'' = Some (lkcp_send sample_api)"
  by (simp add: lkcp_functions_def l_methods_def lkcp_methods_def)


theorem lkcp_no_leak_witness: "live (pool p2) = 0"
  by (rule lkcp_no_leak [OF p0_facts(1) p_runs(2)]) (simp add: p2_def)

theorem use_after_gc_witness: "lkcp_send sample_api [Kcp 0] p2 = Inl Use_After_Free"
  by (rule use_after_gc [OF _ _ p1_gc _ _ send_method])
    (simp_all add: p1_def p2_def p0_def kcp_arg_def arg_def sample_api_def)

theorem own_function_witness:
  "kcp_output_callback sample_api p1 \<lparr>handle = 1, creator = 0, eL = 0\<rparr> = Some (last [Num 7, Fun 3])"
proof -
  have f: "kcp_output_callback sample_api p1 \<lparr>handle = 1, creator = 0, eL = 0\<rparr> = Some (Fun 3)"
    by (simp add: kcp_output_callback_def p1_def sample_api_def)
  have "Fun 3 = last [Num 7, Fun 3]"
  proof (rule own_function [OF sample_ref_law p0_facts(1,2) _ _ p0_create _ _ f])
    show "plain.run sample_api p0 [] p0" "plain.run sample_api p1 [] p1" by (rule plain.run.intros)+
    show "\<exists>h. usable (registry p0) h" using p0_facts(3) by blast
    show "blocks p1 ! 0 = Live (k_fresh 3) (Some \<lparr>handle = 1, creator = 0, eL = 0\<rparr>)" by (simp add: p1_def)
  qed
  then show ?thesis using f by simp
qed

section \<open>A session of lkcpsn\<close>

text \<open>An address of IPv4: the type, the port and four bytes.\<close>

definition addr4 :: "u8 list" where "addr4 = [1, 31, 144, 10, 0, 0, 1]"

definition sample_lua :: interpreter where
  "sample_lua = \<lparr>pcall_else = (\<lambda>f a b. Text []), number_text = (\<lambda>n. [])\<rparr>"

definition s0 :: "sample sn_lua" where
  "s0 = \<lparr>blocks = [], pool = mem_all, registry = (\<lambda>_. None), threads = {0}, recv_buffer = True,
     outbox = [], svrsock = 0, LL = []\<rparr>"

definition peer :: "u8 list \<Rightarrow> sn_callback" where
  "peer addr = \<lparr>sn_L = 0, sn_eL = 0, address = Some (addr @ [0]), addresssz = length addr\<rparr>"

definition s1 :: "sample sn_lua" where
  "s1 = s0\<lparr>pool := mem_all\<lparr>live := 4\<rparr>, svrsock := 5,
     blocks := [Live (k_fresh 4) (Some (peer addr4))]\<rparr>"

definition s2 :: "sample sn_lua" where
  "s2 = s0\<lparr>svrsock := 5, blocks := [Released]\<rparr>"

lemma s0_create: "sn_create sample_api 0 [Num 5, Bytes addr4, Num 7] s0 = Inr (Some [Userdata 0], s1)"
  by (simp add: sn_create_def sample_api_def s0_def s1_def Let_def int_arg_def str_arg_def arg_def returns_def
      ikcp_malloc_def ikcp_create_def mem_all_def k_fresh_def new_kcpcb_def print_address_def addr4_def
      peer_def)

lemma s1_gc: "sn_gc sample_api [Kcp 0] s1 = Inr (Some [], s2)"
  by (simp add: sn_gc_def sample_api_def s0_def s1_def s2_def kcp_arg_def arg_def returns_def peer_def
      ikcp_release_def k_fresh_def new_kcpcb_def mem_all_def ikcp_free_def Let_def)

lemma s0_facts: "opened 0 s0" "LL s0 = []"
  by (simp_all add: opened_def s0_def mem_all_def)

lemma s1_proper: "sn_proper sample_api s1 name args 0" if "name \<noteq> ''lkcp_create''"
  using that by (auto simp: sn_proper_def not_released_def s1_def s0_def kcp_arg_def split: option.splits if_splits)

lemma s01_step:
  "sn_step lua sample_api ctx s0 (Invoke ''lkcp_create'' [Num 5, Bytes addr4, Num 7] 0 (\<lambda>_. False)) s1"
proof (rule sn_step.invoke)
  show "sn_proper sample_api s0 ''lkcp_create'' [Num 5, Bytes addr4, Num 7] 0"
    by (auto simp: sn_proper_def not_released_def s0_def kcp_arg_def mem_all_plentiful sample_api_def
        arg_def addr4_def split: option.splits)
  show "map_of (sn_functions lua sample_api ctx (\<lambda>_. False) 0) ''lkcp_create'' = Some (sn_create sample_api 0)"
    by (simp add: sn_functions_def sn_l_methods_def)
qed (rule s0_create)

lemma s12_step: "sn_step lua sample_api ctx s1 (Invoke ''__gc'' [Kcp 0] 0 (\<lambda>_. False)) s2"
proof (rule sn_step.invoke)
  show "map_of (sn_functions lua sample_api ctx (\<lambda>_. False) 0) ''__gc'' = Some (sn_gc sample_api)"
    by (simp add: sn_functions_def sn_l_methods_def sn_methods_def)
qed (simp_all add: s1_proper s1_gc)

lemma s_runs:
  "skynet.run lua sample_api ctx s0 [Invoke ''lkcp_create'' [Num 5, Bytes addr4, Num 7] 0 (\<lambda>_. False)] s1"
  "skynet.run lua sample_api ctx s0 [Invoke ''lkcp_create'' [Num 5, Bytes addr4, Num 7] 0 (\<lambda>_. False),
     Invoke ''__gc'' [Kcp 0] 0 (\<lambda>_. False)] s2"
  by (blast intro: skynet.run.intros s01_step s12_step)+

lemma sn_send_method:
  "map_of (sn_functions lua sample_api ctx (\<lambda>_. False) 0) ''lkcp_send'' = Some (sn_send sample_api)"
  by (simp add: sn_functions_def sn_l_methods_def sn_methods_def)

lemma s1_kcp: "kcp_arg sample_api (Kcp 0 # args) s1 = Some 0" "blocks s1 ! 0 = Live (k_fresh 4) (Some (peer addr4))"
  "plentiful (pool s1)" "kcp_wf (k_fresh 4)" "mss (k_fresh 4) = 1376"
  by (simp_all add: kcp_arg_def arg_def sample_api_def s1_def mem_all_def k_fresh_def new_kcpcb_def wf_defs)


theorem skynet_no_leak_witness: "live (pool s2) = 0"
  by (rule skynet_no_leak [OF s0_facts s_runs(2) [of sample_lua True]]) (simp add: s2_def)

theorem skynet_flush_sends_witness:
  "\<exists>sent k' addr w'. ikcp_flush ((k_fresh 4)\<lparr>mem := pool s1\<rparr>) = Inr (sent, k') \<and>
    address (peer addr4) = Some (addr @ [0]) \<and>
    sn_flush sample_lua sample_api True (\<lambda>_. False) 0 [Kcp 0] s1 = Inr (Some [], w') \<and>
    (\<exists>packets. outbox w' = outbox s1 @ map (\<lambda>p. (svrsock s1, addr @ [0], p)) packets \<and>
       list_all2 (\<lambda>d p. unpack_package p = Some (conv (k_fresh 4), d)) sent packets)"
  by (rule skynet_flush_sends [OF s0_facts s_runs(1) [of sample_lua True] s1_kcp(1,2)])

theorem unlocked_mixes_datagrams_witness:
  "(\<exists>schedule. ll_schedule sample_lua schedule (pack_ops 7 [1]) (pack_ops 8 [2]) [] None None =
      Some ([], pack_output 7 [1], pack_output 7 [1])) \<and>
    ll_schedule sample_lua (replicate 6 True @ replicate 6 False) (pack_ops 7 [1]) (pack_ops 8 [2]) [] None None =
      Some ([], pack_output 7 [1], pack_output 8 [2])"
  by (rule unlocked_mixes_datagrams) simp_all

theorem send_queues_then_fails_witness:
  "\<exists>w' k'. sn_send sample_api [Kcp 0, Bytes [1, 2]] s1 = Inr (None, w') \<and>
    blocks w' ! 0 = Live k' (Some (peer addr4)) \<and>
    snd_queue k' = snd_queue (k_fresh 4) @ fragments (chunks (unat (mss (k_fresh 4))) [1, 2])"
  by (rule send_queues_then_fails [where data = "[1, 2]", OF s1_kcp(1,2,4,3)])
    (simp_all add: sample_api_def arg_def s1_kcp(5) chunks.simps)

definition s_poor :: "sample sn_lua" where
  "s_poor = s0\<lparr>pool := \<lparr>answers = (\<lambda>n. n < 2), live = 0\<rparr>\<rparr>"

theorem create_leaks_witness:
  "\<exists>w'. sn_create sample_api 0 [Num 5, Bytes addr4, Num 7] s_poor =
      Inr (Some [Nil_value, Message ''error: fail to create kcp''], w') \<and>
    blocks w' = blocks s_poor \<and> live (pool w') = live (pool s_poor) + 1"
  by (rule create_leaks) (simp_all add: sample_api_def arg_def s_poor_def)

end
