(* ===== verification/Logging.thy ===== *)
theory Logging
  imports Flush
begin

text \<open>
  The log of \<open>ikcp.c\<close> (\<open>ikcp_log, ikcp_canlog\<close> and the calls in \<open>ikcp_output\<close>, \<open>ikcp_recv\<close> and
  \<open>ikcp_input\<close>): the operations with the lines they write, beside the operations of the other
  theories, which leave the log out.
\<close>

section \<open>Lines\<close>

text \<open>The fields of the control block that only the log uses; \<open>writelog\<close> is whether it is set.\<close>

record logger =
  logmask :: u32
  writelog :: bool

abbreviation (input) IKCP_LOG_OUTPUT :: u32 where "IKCP_LOG_OUTPUT \<equiv> 1"
abbreviation (input) IKCP_LOG_INPUT :: u32 where "IKCP_LOG_INPUT \<equiv> 2"
abbreviation (input) IKCP_LOG_RECV :: u32 where "IKCP_LOG_RECV \<equiv> 8"
abbreviation (input) IKCP_LOG_IN_DATA :: u32 where "IKCP_LOG_IN_DATA \<equiv> 16"
abbreviation (input) IKCP_LOG_IN_ACK :: u32 where "IKCP_LOG_IN_ACK \<equiv> 32"
abbreviation (input) IKCP_LOG_IN_PROBE :: u32 where "IKCP_LOG_IN_PROBE \<equiv> 64"
abbreviation (input) IKCP_LOG_IN_WINS :: u32 where "IKCP_LOG_IN_WINS \<equiv> 128"

definition ikcp_canlog :: "logger \<Rightarrow> u32 \<Rightarrow> bool" where
  "ikcp_canlog lg bits \<longleftrightarrow> \<not> (bits AND logmask lg = 0 \<or> \<not> writelog lg)"

text \<open>
  The line is what \<open>vsprintf\<close> makes of the format and its arguments; with the zero byte behind it
  it has to fit in the 1024 bytes of the local buffer.
\<close>

definition ikcp_log :: "logger \<Rightarrow> u32 \<Rightarrow> string \<Rightarrow> string list outcome" where
  "ikcp_log lg bits line =
     (if bits AND logmask lg = 0 \<or> \<not> writelog lg then Inr []
      else guardE (length line < 1024) Out_Of_Bounds (Inr [line]))"

text \<open>The conversions \<open>%d\<close>, \<open>%ld\<close> and \<open>%lu\<close>.\<close>

fun decimal :: "nat \<Rightarrow> string" where
  "decimal n =
     (if n < 10 then [char_of (48 + n)] else decimal (n div 10) @ [char_of (48 + n mod 10)])"

declare decimal.simps [simp del]

definition decimal_int :: "int \<Rightarrow> string" where
  "decimal_int i = (if i < 0 then CHR ''-'' # decimal (nat (- i)) else decimal (nat i))"

text \<open>
  \<open>%lu\<close> reads 64 bits where the code passes an \<open>IUINT32\<close>: the upper half is what the register of the
  argument holds.  The parameter \<open>high\<close> gives it for each of these arguments.
\<close>

definition lu :: "u32 \<Rightarrow> u32 \<Rightarrow> string" where
  "lu high x = decimal (unat x + 2 ^ 32 * unat high)"

definition output_line :: "nat \<Rightarrow> string" where
  "output_line n = ''[RO] '' @ decimal_int (s32 (int n)) @ '' bytes''"

definition input_line :: "nat \<Rightarrow> string" where
  "input_line n = ''[RI] '' @ decimal_int (s32 (int n)) @ '' bytes''"

definition recv_line :: "u32 \<Rightarrow> u32 \<Rightarrow> string" where
  "recv_line high sn = ''recv sn='' @ lu high sn"

definition psh_line :: "(nat \<Rightarrow> u32) \<Rightarrow> header \<Rightarrow> string" where
  "psh_line high h = ''input psh: sn='' @ lu (high 0) (h_sn h) @ '' ts='' @ lu (high 1) (h_ts h)"

definition wins_line :: "u32 \<Rightarrow> header \<Rightarrow> string" where
  "wins_line high h = ''input wins: '' @ lu high (ucast (h_wnd h))"

text \<open>The control block is the one after the acknowledgement.\<close>

definition ack_line :: "u32 \<Rightarrow> ikcpcb \<Rightarrow> header \<Rightarrow> string" where
  "ack_line high k h = ''input ack: sn='' @ lu high (h_sn h) @
     '' rtt='' @ decimal_int (itimediff (current k) (h_ts h)) @ '' rto='' @ decimal_int (s32 (rx_rto k))"

section \<open>The operations with their lines\<close>

text \<open>What was written, and how the operation ended.\<close>

type_synonym 'a logged = "string list \<times> 'a outcome"

definition then_log :: "string list outcome \<Rightarrow> 'a logged \<Rightarrow> 'a logged" where
  "then_log l r = (case l of Inl e \<Rightarrow> ([], Inl e) | Inr ls \<Rightarrow> (ls @ fst r, snd r))"

text \<open>\<open>if (ikcp_canlog(kcp, test)) ikcp_log(kcp, bits, line)\<close>\<close>

definition if_canlog :: "logger \<Rightarrow> u32 \<Rightarrow> u32 \<Rightarrow> string \<Rightarrow> string list outcome" where
  "if_canlog lg test bits line = (if ikcp_canlog lg test then ikcp_log lg bits line else Inr [])"

definition output_logged :: "logger \<Rightarrow> ikcpcb \<Rightarrow> flushing \<Rightarrow> flushing logged" where
  "output_logged lg k out =
     then_log (if_canlog lg IKCP_LOG_OUTPUT IKCP_LOG_OUTPUT (output_line (length (filled out))))
       ([], if filled out = [] then Inr out
            else guardE (output_cb k) Null_Deref (Inr (out\<lparr>outputs := outputs out @ [filled out]\<rparr>)))"

fun merge_logged ::
  "logger \<Rightarrow> u32 \<Rightarrow> bool \<Rightarrow> bool \<Rightarrow> ikcpseg list \<Rightarrow> int \<Rightarrow> u8 list \<Rightarrow> ikcpcb \<Rightarrow>
   (int \<times> u8 list \<times> ikcpcb) logged" where
  "merge_logged lg high ispeek buf [] len out k = ([], Inr (len, out, k))"
| "merge_logged lg high ispeek buf (seg # ps) len out k =
     (let out = (if buf then out @ seg_bytes seg else out);
          len = add_len len (seg_len seg);
          fragment = seg_frg seg
      in then_log (if_canlog lg IKCP_LOG_RECV IKCP_LOG_RECV (recv_line high (seg_sn seg)))
        (let k = (if ispeek then k
                  else k\<lparr>rcv_queue := tl (rcv_queue k), mem := ikcp_segment_delete (mem k),
                         nrcv_que := nrcv_que k - 1\<rparr>)
         in if fragment = 0 then ([], Inr (len, out, k))
            else merge_logged lg high ispeek buf ps len out k))"

definition segment_logged ::
  "logger \<Rightarrow> (nat \<Rightarrow> u32) \<Rightarrow> ikcpcb \<Rightarrow> header \<Rightarrow> u8 list \<Rightarrow> ikcpcb logged" where
  "segment_logged lg high k h payload =
     (let k = k\<lparr>rmt_wnd := ucast (h_wnd h)\<rparr>;
          k = ikcp_parse_una k (h_una h);
          k = ikcp_shrink_buf k;
          cmd = ucast (h_cmd h)
      in if cmd = IKCP_CMD_ACK then
           let k = input_ack k h
           in then_log (if_canlog lg IKCP_LOG_IN_ACK IKCP_LOG_IN_DATA (ack_line (high 0) k h)) ([], Inr k)
         else if cmd = IKCP_CMD_PUSH then
           then_log (if_canlog lg IKCP_LOG_IN_DATA IKCP_LOG_IN_DATA (psh_line high h))
             ([], input_push k h payload)
         else if cmd = IKCP_CMD_WASK then
           let k = k\<lparr>probe := probe k OR IKCP_ASK_TELL\<rparr>
           in then_log (if_canlog lg IKCP_LOG_IN_PROBE IKCP_LOG_IN_PROBE ''input probe'') ([], Inr k)
         else then_log (if_canlog lg IKCP_LOG_IN_WINS IKCP_LOG_IN_WINS (wins_line (high 0) h)) ([], Inr k))"

function loop_logged ::
  "logger \<Rightarrow> (nat \<Rightarrow> u32) \<Rightarrow> u8 list \<Rightarrow> ikcpcb \<Rightarrow> (int \<times> ikcpcb) logged" where
  "loop_logged lg high data k =
     (if length data < 24 then ([], Inr (0, k))
      else case decode_header data of
        None \<Rightarrow> ([], Inl Out_Of_Bounds)
      | Some (h, rest) \<Rightarrow>
          if h_conv h \<noteq> conv k then ([], Inr (-1, k))
          else if length rest < unat (h_len h) then ([], Inr (-2, k))
          else if \<not> valid_cmd (h_cmd h) then ([], Inr (-3, k))
          else case segment_logged lg high k h (take (unat (h_len h)) rest) of
            (ls, Inl e) \<Rightarrow> (ls, Inl e)
          | (ls, Inr k) \<Rightarrow> then_log (Inr ls) (loop_logged lg high (drop (unat (h_len h)) rest) k))"
  by pat_completeness auto

termination
  by (relation "measure (\<lambda>(lg, high, data, k). length data)") (auto dest!: decode_header_rest)

declare loop_logged.simps [simp del]

text \<open>A null pointer comes with the size 0.\<close>

definition input_logged ::
  "logger \<Rightarrow> (nat \<Rightarrow> u32) \<Rightarrow> ikcpcb \<Rightarrow> u8 list option \<Rightarrow> (int \<times> ikcpcb) logged" where
  "input_logged lg high k dat =
     (let n = (case dat of None \<Rightarrow> 0 | Some data \<Rightarrow> length data) in
      then_log (if_canlog lg IKCP_LOG_INPUT IKCP_LOG_INPUT (input_line n))
       (case dat of
          None \<Rightarrow> ([], Inr (0, k))
        | Some data \<Rightarrow>
            if length data < 24 then ([], Inr (0, k))
            else let una = snd_una k; (ls, res) = loop_logged lg high data k
              in (ls, bindE res (\<lambda>(ret, k).
                   if ret \<noteq> 0 then Inr (ret, k)
                   else bindE (if itimediff (snd_una k) una > 0 then grow_cwnd k else Inr k)
                          (\<lambda>k. Inr (0, k))))))"

definition recv_logged ::
  "logger \<Rightarrow> u32 \<Rightarrow> ikcpcb \<Rightarrow> bool \<Rightarrow> int \<Rightarrow> (int \<times> u8 list \<times> ikcpcb) logged" where
  "recv_logged lg high k buf len =
     (let ispeek = (len < 0) in
      if rcv_queue k = [] then ([], Inr (-1, [], k))
      else let len = (if len < 0 then s32 (- len) else len);
               peeksize = ikcp_peeksize k in
      if peeksize < 0 then ([], Inr (-2, [], k))
      else if peeksize > len then ([], Inr (-3, [], k))
      else let recover = (nrcv_que k \<ge> rcv_wnd k);
               (ls, res) = merge_logged lg high ispeek buf (rcv_queue k) 0 [] k
           in (ls, bindE res (\<lambda>(len, out, k).
                let k = move_rcv_buf k;
                    k = (if nrcv_que k < rcv_wnd k \<and> recover
                         then k\<lparr>probe := probe k OR IKCP_ASK_TELL\<rparr> else k)
                in Inr (len, out, k))))"

section \<open>The lines fit\<close>

lemma decimal_length: "n < 10 ^ Suc d \<Longrightarrow> length (decimal n) \<le> Suc d"
proof (induction d arbitrary: n)
  case 0
  then show ?case by (simp add: decimal.simps [of n])
next
  case (Suc d)
  then have "n div 10 < 10 ^ Suc d" by (simp add: less_mult_imp_div_less)
  then show ?case using Suc.IH [of "n div 10"] by (simp add: decimal.simps [of n])
qed

lemma lu_length: "length (lu high x) \<le> 20"
proof -
  have "unat x + 2 ^ 32 * unat high < 10 ^ Suc 19"
    using unat32_less [of x] unat32_less [of high] by simp
  then show ?thesis unfolding lu_def using decimal_length by fastforce
qed

lemma decimal_int_length: "- (2 ^ 31) \<le> i \<Longrightarrow> i < 2 ^ 31 \<Longrightarrow> length (decimal_int i) \<le> 11"
proof -
  assume i: "- (2 ^ 31) \<le> i" "i < 2 ^ 31"
  then have "nat i < 10 ^ Suc 9" "nat (- i) < 10 ^ Suc 9" by simp_all
  then have "length (decimal (nat i)) \<le> 10" "length (decimal (nat (- i))) \<le> 10"
    using decimal_length by fastforce+
  then show "length (decimal_int i) \<le> 11" by (simp add: decimal_int_def)
qed

lemma short_lines:
  "length (output_line n) < 1024" "length (input_line n) < 1024" "length (recv_line high sn) < 1024"
  "length (psh_line highs h) < 1024" "length (wins_line high h) < 1024" "length (ack_line high k h) < 1024"
proof -
  have s: "length (decimal_int (s32 i)) \<le> 11" for i using s32_bounds [of i] by (intro decimal_int_length) simp_all
  have t: "length (decimal_int (itimediff a b)) \<le> 11" for a b
    using s [of "itimediff a b"] by (simp add: itimediff_def)
  show "length (output_line n) < 1024" "length (input_line n) < 1024"
    using s [of "int n"] by (simp_all add: output_line_def input_line_def)
  show "length (recv_line high sn) < 1024" "length (wins_line high h) < 1024"
    using lu_length [of high] by (simp_all add: recv_line_def wins_line_def le_less_trans [of _ 20])
  show "length (psh_line highs h) < 1024"
    using lu_length [of "highs 0" "h_sn h"] lu_length [of "highs 1" "h_ts h"] by (simp add: psh_line_def)
  show "length (ack_line high k h) < 1024"
    using lu_length [of high "h_sn h"] t [of "current k" "h_ts h"] s [of "rx_rto k"] by (simp add: ack_line_def)
qed

lemma if_canlog_line:
  "length line < 1024 \<Longrightarrow> if_canlog lg test bits line =
     Inr (if ikcp_canlog lg test \<and> ikcp_canlog lg bits then [line] else [])"
  by (simp add: if_canlog_def ikcp_log_def ikcp_canlog_def)

lemma then_log_Inr [simp]: "fst (then_log (Inr ls) r) = ls @ fst r" "snd (then_log (Inr ls) r) = snd r"
  by (simp_all add: then_log_def)

section \<open>The log changes nothing\<close>

lemma merge_transparent:
  "snd (merge_logged lg high ispeek buf ps len out k) = Inr (recv_merge ispeek buf ps len out k)"
  by (induction ps arbitrary: len out k) (auto simp: Let_def if_canlog_line short_lines)

lemma segment_transparent: "snd (segment_logged lg high k h payload) = input_segment k h payload"
  by (simp add: segment_logged_def input_segment_def Let_def if_canlog_line short_lines)

lemma loop_transparent: "snd (loop_logged lg high data k) = input_loop data k"
proof (induction lg high data k rule: loop_logged.induct)
  case (1 lg high data k)
  note [simp] = loop_logged.simps [of lg high data k] input_loop.simps [of data k]
  show ?case
  proof (cases "length data < 24")
    case False
    obtain h rest where d: "decode_header data = Some (h, rest)"
      using False hdr.dec_None_iff by (cases "decode_header data") auto
    let ?s = "segment_logged lg high k h (take (unat (h_len h)) rest)"
    show ?thesis
      using "1.IH" [OF False d refl] False d segment_transparent [of lg high k h "take (unat (h_len h)) rest"]
      by (cases ?s; cases "snd ?s") auto
  qed simp
qed

lemma input_transparent: "snd (input_logged lg high k dat) = ikcp_input k dat"
proof (cases dat)
  case (Some data)
  then show ?thesis
    using loop_transparent [of lg high data k]
    by (cases "loop_logged lg high data k")
      (auto simp: input_logged_def ikcp_input_def Let_def if_canlog_line short_lines)
qed (simp add: input_logged_def ikcp_input_def if_canlog_line short_lines)

lemma recv_transparent: "snd (recv_logged lg high k buf len) = Inr (ikcp_recv k buf len)"
  using merge_transparent [of lg high "len < 0" buf "rcv_queue k" 0 "[]" k]
  by (cases "merge_logged lg high (len < 0) buf (rcv_queue k) 0 [] k";
      cases "recv_merge (len < 0) buf (rcv_queue k) 0 [] k")
    (auto simp: recv_logged_def ikcp_recv_def Let_def)

text \<open>
  C31: the log changes nothing.  Whatever is logged, and whatever \<open>%lu\<close> reads beside the numbers it
  is given, every line fits in the buffer of \<open>ikcp_log\<close>, and \<open>ikcp_input\<close>, \<open>ikcp_recv\<close> and \<open>ikcp_output\<close> end
  as they do without a log.
\<close>

theorem logging_transparent:
  "snd (input_logged lg high k dat) = ikcp_input k dat \<and>
   snd (recv_logged lg high' k buf len) = Inr (ikcp_recv k buf len) \<and>
   snd (output_logged lg k out) = ikcp_output k out"
  by (simp add: input_transparent recv_transparent output_logged_def ikcp_output_def if_canlog_line short_lines)

section \<open>What is written\<close>

lemma merge_lines:
  "fst (merge_logged lg high ispeek buf ps len out k) =
     (if ikcp_canlog lg 8 then map (recv_line high \<circ> seg_sn) (fst (message_of ps)) else [])"
  by (induction ps arbitrary: len out k) (auto simp: Let_def if_canlog_line short_lines)

text \<open>A message that is received leaves one line per fragment, in their order; a refused call none.\<close>

lemma recv_lines:
  "fst (recv_logged lg high k buf len) =
     (if ikcp_canlog lg 8 \<and> rcv_queue k \<noteq> [] \<and> 0 \<le> ikcp_peeksize k \<and> ikcp_peeksize k \<le> recv_room len
      then map (recv_line high \<circ> seg_sn) (fst (message_of (rcv_queue k))) else [])"
  using merge_lines [of lg high "len < 0" buf "rcv_queue k" 0 "[]" k]
  by (auto simp: recv_logged_def recv_room_def Let_def split: prod.split)

text \<open>
  An acknowledgement is logged only when the bits of \<open>IKCP_LOG_IN_ACK\<close> and of \<open>IKCP_LOG_IN_DATA\<close> are
  both set in the mask: the test asks for the one, the call passes the other.
\<close>

lemma ack_log_bits:
  "fst (segment_logged lg high k (h\<lparr>h_cmd := 82\<rparr>) payload) \<noteq> [] \<longleftrightarrow>
     IKCP_LOG_IN_ACK AND logmask lg \<noteq> 0 \<and> IKCP_LOG_IN_DATA AND logmask lg \<noteq> 0 \<and> writelog lg"
  by (auto simp: segment_logged_def Let_def if_canlog_line short_lines ikcp_canlog_def)

end
