(* ===== verification/Disturb.thy ===== *)
theory Disturb
  imports Duplex Raise
begin

text \<open>
  What an end of a conversation goes through inside a process of Lua: other control blocks share its
  allocator, the datagrams it hands out may go nowhere, and an error of the output callback leaves a
  flush in the middle.  None of it breaks what the ends promise each other.
\<close>

section \<open>A flush that is left\<close>

text \<open>
  Between the control block \<open>k\<close> before a flush and \<open>k1\<close> after it: the queue and the buffer of what
  is sent are still as before, or as they will be.
\<close>

definition partway :: "int \<Rightarrow> ikcpcb \<Rightarrow> ikcpcb \<Rightarrow> ikcpcb \<Rightarrow> bool" where
  "partway b k k1 k' \<longleftrightarrow> kcp_inv b k' \<and> conv k' = conv k \<and> output_cb k' = output_cb k \<and> same_rcv k k' \<and>
     set (pending_acks k') \<subseteq> set (pending_acks k) \<and>
     (snd_nxt k' = snd_nxt k \<and> snd_queue k' = snd_queue k \<and> snd_buf k' = snd_buf k \<or>
      snd_nxt k' = snd_nxt k1 \<and> snd_queue k' = snd_queue k1 \<and>
        map content (snd_buf k') = map content (snd_buf k1))"

lemma stopped_partway:
  assumes "kcp_inv b k" and "output_cb k" and "updated k \<noteq> 0" and "ikcp_flush k = Inr (sent, k1)"
    and "stopped k k'"
  shows "partway b k k1 k'"
proof -
  have u: "kcp_inv b k'" "conv k' = conv k" "output_cb k' = output_cb k" "same_rcv k k'"
    using stopped_undisturbed [OF assms(1,5)] by (simp_all add: undisturbed_def same_rcv_def)
  from assms(5) [unfolded stopped_def]
  have "set (pending_acks k') \<subseteq> set (pending_acks k) \<and>
     (snd_nxt k' = snd_nxt k \<and> snd_queue k' = snd_queue k \<and> snd_buf k' = snd_buf k \<or>
      snd_nxt k' = snd_nxt k1 \<and> snd_queue k' = snd_queue k1 \<and>
        map content (snd_buf k') = map content (snd_buf k1))"
  proof (elim disjE exE conjE)
    assume "k' = k"
    then show ?thesis by simp
  next
    assume k': "k' = probe_timer (k\<lparr>ackcount := 0\<rparr>)"
    then have "pending_acks k' = []"
      by (simp add: pending_acks_def probe_timer_frame split: option.split)
    then show ?thesis using k' by (simp add: probe_timer_frame)
  next
    fix x st segs
    assume s: "list_all2 same_seg (snd_buf (windowed k)) segs" and k': "k' = (charged x st (windowed k))\<lparr>snd_buf := segs\<rparr>"
    have "pending_acks k' = []"
      unfolding k' by (simp add: pending_acks_def charged_def windowed_def admit_def prepared_def
          probe_timer_frame split: option.split)
    moreover have "kcp_wf k" using assms(1) by (simp add: kcp_inv_def)
    from this assms(2,4) have "snd_nxt k' = snd_nxt k1 \<and> snd_queue k' = snd_queue k1 \<and>
        map content (snd_buf k') = map content (snd_buf k1)"
    proof (cases rule: flush_cases)
      case (flushed segs' x' st')
      have "map content segs = map content segs'"
        using same_segs(3) [OF s] same_segs(3) [OF flushed(4)] by simp
      then show ?thesis
        unfolding flushed(3) k' by (simp add: ssthresh_frame charged_def)
    qed (use assms(3) in simp)
    ultimately show ?thesis by simp
  qed
  then show ?thesis using u by (simp add: partway_def)
qed

lemma thrown_flush:
  assumes "kcp_inv b k" and "output_cb k" and "raising_flush raises k = Inr (Thrown part k')"
  obtains sent k1 where "ikcp_flush k = Inr (sent, k1)" and "set part \<subseteq> set sent" and "partway b k k1 k'"
proof -
  have wf: "kcp_wf k" "accounted b k" using assms(1) by (simp_all add: kcp_inv_def)
  obtain sent k1 where f: "ikcp_flush k = Inr (sent, k1)" using flush_returns [OF wf(1) assms(2) wf(2)] by blast
  have "updated k \<noteq> 0" using assms(3) by (auto simp: raising_flush_def)
  moreover have "tracks raises (stopped k) [] sent (raising_flush raises k) (sent, k1)"
    using wf(1) f by (rule tracks_flush)
  then obtain i where "part = take (Suc i) sent" "stopped k k'"
    using assms(3) by (auto simp: tracks_def)
  ultimately show ?thesis
    using that [OF f] stopped_partway [OF assms(1,2) _ f] set_take_subset [of "Suc i" sent] by blast
qed

lemma thrown_update:
  assumes "kcp_inv b k" and "output_cb k" and "raising_update raises k now = Inr (Thrown part k')"
  obtains sent k1 where "ikcp_update k now = Inr (sent, k1)" and "set part \<subseteq> set sent" and "partway b k k1 k'"
proof -
  let ?k = "ticked k now (next_flush k now)"
  have due: "itimediff now (flush_time k now) \<ge> 0" and r: "raising_flush raises ?k = Inr (Thrown part k')"
    using assms(3) by (auto simp: raising_update_result split: if_splits)
  have "kcp_inv b ?k" "output_cb ?k" using assms(1,2) by (simp_all add: kcp_inv_def ticked_wf ticked_frame)
  from thrown_flush [OF this r] obtain sent k1
    where f: "ikcp_flush ?k = Inr (sent, k1)" "set part \<subseteq> set sent" "partway b ?k k1 k'" by blast
  have "pending_acks ?k = pending_acks k" by (rule pending_acks_cong) (simp_all add: ticked_def)
  then have "partway b k k1 k'"
    using f(3) unfolding partway_def by (simp add: ticked_frame same_rcv_def) (simp add: ticked_def)
  then show ?thesis using that f(1,2) due by (simp add: update_result)
qed

text \<open>A flush or an update that was left, as the call it would have been.\<close>

definition left_call :: "ikcpcb \<Rightarrow> call \<Rightarrow> u8 list list \<Rightarrow> ikcpcb \<Rightarrow> bool" where
  "left_call k c part k' \<longleftrightarrow> output_cb k \<and>
     ((\<exists>raises. c = Flush \<and> raising_flush raises k = Inr (Thrown part k')) \<or>
      (\<exists>raises now. c = Update now \<and> raising_update raises k now = Inr (Thrown part k')))"

lemma left_call_partway:
  assumes "left_call k c part k'" and "kcp_inv b k"
  obtains sent k1 where "perform k c = Inr (0, [], sent, k1)" and "set part \<subseteq> set sent" and "partway b k k1 k'"
    and "proper k c" and "\<not> is_send c" and "\<not> is_recv c" and "\<not> is_input c"
proof -
  have cb: "output_cb k" using assms(1) by (simp add: left_call_def)
  from assms(1) consider raises where "c = Flush" "raising_flush raises k = Inr (Thrown part k')"
    | raises now where "c = Update now" "raising_update raises k now = Inr (Thrown part k')"
    by (auto simp: left_call_def)
  then show ?thesis
  proof cases
    case 1
    obtain sent k1 where "ikcp_flush k = Inr (sent, k1)" "set part \<subseteq> set sent" "partway b k k1 k'"
      by (rule thrown_flush [OF assms(2) cb 1(2)])
    then show ?thesis using that 1(1) cb by simp
  next
    case 2
    obtain sent k1 where "ikcp_update k now = Inr (sent, k1)" "set part \<subseteq> set sent" "partway b k k1 k'"
      by (rule thrown_update [OF assms(2) cb 2(2)])
    then show ?thesis using that 2(1) cb by simp
  qed
qed

section \<open>The closed system under disturbances\<close>

text \<open>The sender is left partway: its state is vouched for by the state before or after the call.\<close>

lemma sends_partway: "sends ps k \<Longrightarrow> sends ps k1 \<Longrightarrow> partway b k k1 k' \<Longrightarrow> sends ps k'"
proof -
  assume s: "sends ps k" "sends ps k1" and p: "partway b k k1 k'"
  from p consider "snd_nxt k' = snd_nxt k" "snd_queue k' = snd_queue k" "snd_buf k' = snd_buf k"
    | "snd_nxt k' = snd_nxt k1" "snd_queue k' = snd_queue k1" "map content (snd_buf k') = map content (snd_buf k1)"
    by (auto simp: partway_def)
  then show "sends ps k'"
  proof cases
    case 1
    then show ?thesis by (rule sends_same [OF s(1)])
  next
    case 2
    have "content ` set (snd_buf k') = content ` set (snd_buf k1)" using 2(3) by (metis list.set_map)
    then show ?thesis using 2(1,2) by (intro sends_content [OF s(2)]) simp_all
  qed
qed

lemma kept_partway: "kept r k \<Longrightarrow> kept r k1 \<Longrightarrow> partway b k k1 k' \<Longrightarrow> kept r k'"
  unfolding partway_def using kept_same [of r k k'] kept_content [of r k1 k'] by blast

lemma keeping_sender_left:
  assumes "keeping a b w" and "length (pieces w) < 2 ^ 31" and "left_call (sender w) c part k'"
    and "X \<subseteq> set part"
  shows "keeping a b (w\<lparr>sender := k', forward := forward w \<union> X\<rparr>)"
proof -
  have ok: "link_ok a b w" using assms(1) by (simp add: keeping_def)
  then have inv: "kcp_inv a (sender w)" by (simp add: link_ok_def)
  obtain sent k1 where k1: "perform (sender w) c = Inr (0, [], sent, k1)" "set part \<subseteq> set sent"
    "partway a (sender w) k1 k'" "proper (sender w) c" "\<not> is_send c" "\<not> is_input c"
    by (rule left_call_partway [OF assms(3) inv])
  have "link_step w (Sender_call c) (w\<lparr>sender := k1, forward := forward w \<union> set sent\<rparr>)"
    using k1(1,4,5) by (intro link_step.sender_call)
  moreover have "faithful w (Sender_call c)" using k1(6) by (auto simp: faithful_def)
  ultimately have "closed_step w (Sender_call c) (w\<lparr>sender := k1, forward := forward w \<union> set sent\<rparr>)"
    by (simp add: closed_step_def)
  then have "keeping a b (w\<lparr>sender := k1, forward := forward w \<union> set sent\<rparr>)"
    using assms(1,2) by (rule keeping_step)
  then have k: "sends (pieces w) k1" "kept (receiver w) k1" "conv k1 = conv (receiver w)"
    "\<forall>d \<in> forward w \<union> set sent. honest_datagram (conv (receiver w)) (pieces w) d"
    by (auto simp: keeping_def link_ok_def)
  have c: "conv k' = conv (sender w)" "conv (sender w) = conv (receiver w)"
    using ok k1(3) by (simp_all add: link_ok_def partway_def)
  have "sends (pieces w) k'"
    using ok k(1) by (intro sends_partway [OF _ _ k1(3)]) (simp_all add: link_ok_def)
  moreover have "kept (receiver w) k'"
    using assms(1) k(2) by (intro kept_partway [OF _ _ k1(3)]) (simp_all add: keeping_def)
  moreover have "kcp_inv a k'" using k1(3) by (simp add: partway_def)
  moreover have "forward w \<union> X \<subseteq> forward w \<union> set sent" using assms(4) k1(2) by blast
  then have "\<forall>d \<in> forward w \<union> X. honest_datagram (conv (receiver w)) (pieces w) d" using k(4) by blast
  ultimately show ?thesis
    using assms(1) ok c by (simp add: keeping_def link_ok_def)
qed

lemma vouched_datagram_same: "vouched_datagram c r d \<Longrightarrow> same_rcv r r' \<Longrightarrow> vouched_datagram c r' d"
  using vouched_datagram_later same_later by blast

lemma same_rcv_sym: "same_rcv k k' \<Longrightarrow> same_rcv k' k"
  by (simp add: same_rcv_def)

lemma keeping_receiver_left:
  assumes "keeping a b w" and "length (pieces w) < 2 ^ 31" and "left_call (receiver w) c part k'"
    and "X \<subseteq> set part"
  shows "keeping a b (w\<lparr>receiver := k', backward := backward w \<union> X\<rparr>)"
proof -
  let ?w' = "w\<lparr>receiver := k', backward := backward w \<union> X\<rparr>"
  have ok: "link_ok a b w" using assms(1) by (simp add: keeping_def)
  then have inv: "kcp_inv b (receiver w)" by (simp add: link_ok_def)
  obtain sent k1 where k1: "perform (receiver w) c = Inr (0, [], sent, k1)" "set part \<subseteq> set sent"
    "partway b (receiver w) k1 k'" "proper (receiver w) c" "\<not> is_recv c" "\<not> is_input c"
    by (rule left_call_partway [OF assms(3) inv])
  have s: "same_rcv (receiver w) k'" using k1(3) by (simp add: partway_def)
  have "same_rcv (receiver w) k1"
    using inv k1 by (intro perform_rcv [of "receiver w" c]) (simp_all add: kcp_inv_def)
  then have s1: "same_rcv k1 k'" using s by (auto intro: same_rcv_simps same_rcv_sym)
  have "link_step w (Receiver_call c) (w\<lparr>receiver := k1, backward := backward w \<union> set sent\<rparr>)"
    using k1(1,4-6) by (intro link_step.receiver_call)
  then have "closed_step w (Receiver_call c) (w\<lparr>receiver := k1, backward := backward w \<union> set sent\<rparr>)"
    by (simp add: closed_step_def faithful_def)
  then have "keeping a b (w\<lparr>receiver := k1, backward := backward w \<union> set sent\<rparr>)"
    using assms(1,2) by (rule keeping_step)
  then have "\<forall>d \<in> backward w \<union> set sent. vouched_datagram (conv (sender w)) k1 d"
    by (simp add: keeping_def)
  then have v: "\<forall>d \<in> backward w \<union> X. vouched_datagram (conv (sender w)) k' d"
    using vouched_datagram_same [OF _ s1] assms(4) k1(2) by blast
  have "later (receiver w) k'" using s by (rule same_later)
  moreover have "acks_reached k'"
    using acks_later [OF _ \<open>later (receiver w) k'\<close>] assms(1) k1(3) by (simp add: keeping_def partway_def)
  moreover have "link_ok a b ?w'"
    using ok k1(3) same_rcv_receives [OF s] by (auto simp: link_ok_def partway_def)
  moreover have "kept k' (sender w)"
    using assms(1) kept_later \<open>later (receiver w) k'\<close> by (auto simp: keeping_def)
  ultimately show ?thesis using v assms(1) by (simp add: keeping_def)
qed

text \<open>The other blocks of the process change the allocator.\<close>

lemma kcp_inv_mem: "kcp_inv b k \<Longrightarrow> kcp_inv (live m - owned k) (k\<lparr>mem := m\<rparr>)"
  by (simp add: kcp_inv_def wf_defs wf_wire_def accounted_def owned_def)

lemma keeping_sender_mem:
  "keeping a b w \<Longrightarrow> keeping (live m - owned (sender w)) b (w\<lparr>sender := (sender w)\<lparr>mem := m\<rparr>\<rparr>)"
  by (auto simp: keeping_def link_ok_def kept_def sends_def kcp_inv_mem)

lemma keeping_receiver_mem:
  "keeping a b w \<Longrightarrow> keeping a (live m - owned (receiver w)) (w\<lparr>receiver := (receiver w)\<lparr>mem := m\<rparr>\<rparr>)"
proof -
  assume k: "keeping a b w"
  let ?r = "(receiver w)\<lparr>mem := m\<rparr>"
  have s: "same_rcv (receiver w) ?r" by (simp add: same_rcv_def)
  have "pending_acks ?r = pending_acks (receiver w)" by (rule pending_acks_cong) simp_all
  then have "acks_reached ?r"
    using k acks_later [OF _ same_later [OF s]] by (simp add: keeping_def)
  moreover have "\<forall>d \<in> backward w. vouched_datagram (conv (sender w)) ?r d"
    using k vouched_datagram_same [OF _ s] by (simp add: keeping_def)
  moreover have "kept ?r (sender w)" using k kept_later [OF _ same_later [OF s]] by (simp add: keeping_def)
  moreover have "link_ok a (live m - owned (receiver w)) (w\<lparr>receiver := ?r\<rparr>)"
    using k same_rcv_receives [OF s] by (auto simp: keeping_def link_ok_def kcp_inv_mem)
  ultimately show ?thesis by (simp add: keeping_def)
qed

lemma keeping_lost:
  "keeping a b w \<Longrightarrow> X \<subseteq> forward w \<Longrightarrow> keeping a b (w\<lparr>forward := X\<rparr>)"
  "keeping a b w \<Longrightarrow> X \<subseteq> backward w \<Longrightarrow> keeping a b (w\<lparr>backward := X\<rparr>)"
  by (auto simp: keeping_def link_ok_def)

section \<open>Both directions\<close>

text \<open>What an end does in a process.\<close>

inductive runs :: "u8 list set \<Rightarrow> peer \<Rightarrow> peer \<Rightarrow> bool" for inbox where
  acts: "acts inbox p e p' \<Longrightarrow> X \<subseteq> emitted p' \<Longrightarrow> runs inbox p (p'\<lparr>emitted := X\<rparr>)"
| left: "left_call (kcb p) c part k \<Longrightarrow> X \<subseteq> set part \<Longrightarrow>
     runs inbox p (p\<lparr>kcb := k, emitted := emitted p \<union> X\<rparr>)"
| others: "runs inbox p (p\<lparr>kcb := (kcb p)\<lparr>mem := m\<rparr>\<rparr>)"

text \<open>Both directions keep what they promise, whatever the allocators of the ends count.\<close>

definition both :: "peer \<Rightarrow> peer \<Rightarrow> bool" where
  "both p q \<longleftrightarrow> (\<exists>a b. duplex_inv a b (p, q))"

lemma direction_update:
  "direction (p\<lparr>kcb := k, emitted := X\<rparr>) q = (direction p q)\<lparr>sender := k, forward := X\<rparr>"
  "direction q (p\<lparr>kcb := k, emitted := X\<rparr>) = (direction q p)\<lparr>receiver := k, backward := X\<rparr>"
  by (simp_all add: direction_def)

lemma both_sym: "both p q \<Longrightarrow> both q p"
  by (auto simp: both_def)

lemma both_lost:
  assumes "both p q" and "X \<subseteq> emitted p"
  shows "both (p\<lparr>emitted := X\<rparr>) q"
proof -
  obtain a b where i: "closed_inv a b (direction p q)" "closed_inv b a (direction q p)"
    using assms(1) by (auto simp: both_def)
  have d: "direction (p\<lparr>emitted := X\<rparr>) q = (direction p q)\<lparr>forward := X\<rparr>"
    "direction q (p\<lparr>emitted := X\<rparr>) = (direction q p)\<lparr>backward := X\<rparr>"
    "forward (direction p q) = emitted p" "backward (direction q p) = emitted p"
    by (simp_all add: direction_def)
  have "closed_inv a b (direction (p\<lparr>emitted := X\<rparr>) q)"
    using i(1) keeping_lost(1) [of a b "direction p q" X] assms(2) by (simp add: closed_inv_def d)
  moreover have "closed_inv b a (direction q (p\<lparr>emitted := X\<rparr>))"
    using i(2) keeping_lost(2) [of b a "direction q p" X] assms(2) by (simp add: closed_inv_def d)
  ultimately show ?thesis by (auto simp: both_def)
qed

lemma both_runs:
  assumes "runs (emitted q) p p'" and "both p q"
  shows "both p' q"
  using assms
proof (cases rule: runs.cases)
  case (acts e p1 X)
  have "both p1 q"
    using assms(2) acts(2) duplex_inv_step [of _ _ "(p, q)" "(True, e)" "(p1, q)"] by (auto simp: both_def)
  then show ?thesis using acts(1,3) by (simp add: both_lost)
next
  case (left c part k X)
  obtain a b where i: "closed_inv a b (direction p q)" "closed_inv b a (direction q p)"
    using assms(2) by (auto simp: both_def)
  have "closed_inv a b (direction p' q)"
    using i(1) left keeping_sender_left [of a b "direction p q" c part k X]
    by (simp add: closed_inv_def direction_update) (simp add: direction_def)
  moreover have "closed_inv b a (direction q p')"
    using i(2) left keeping_receiver_left [of b a "direction q p" c part k X]
    by (simp add: closed_inv_def direction_update) (simp add: direction_def)
  ultimately show ?thesis by (auto simp: both_def)
next
  case (others m)
  obtain a b where i: "closed_inv a b (direction p q)" "closed_inv b a (direction q p)"
    using assms(2) by (auto simp: both_def)
  have d: "direction p' q = (direction p q)\<lparr>sender := (kcb p)\<lparr>mem := m\<rparr>\<rparr>"
    "direction q p' = (direction q p)\<lparr>receiver := (kcb p)\<lparr>mem := m\<rparr>\<rparr>"
    "sender (direction p q) = kcb p" "receiver (direction q p) = kcb p"
    using others by (simp_all add: direction_def)
  have "closed_inv (live m - owned (kcb p)) b (direction p' q)"
    using i(1) keeping_sender_mem [of a b "direction p q" m] by (simp add: closed_inv_def d)
  moreover have "closed_inv b (live m - owned (kcb p)) (direction q p')"
    using i(2) keeping_receiver_mem [of b a "direction q p" m] by (simp add: closed_inv_def d)
  ultimately show ?thesis by (auto simp: both_def)
qed

end
