(* ===== verification/Stations.thy ===== *)
theory Stations
  imports Lua Disturb
begin

text \<open>
  Two processes of Lua that talk: in each a control block among others, used by scripts through a
  binding.  The locale \<open>conversation\<close> is what the functions of a binding promise about the block they
  are called on; from it follows what the scripts of the two processes get.
\<close>

section \<open>What a script sees\<close>

text \<open>The control block \<open>i\<close> of a process, with the allocator of the process.\<close>

definition view :: "('v, 'c, 'o, 'x) lua_scheme \<Rightarrow> nat \<Rightarrow> ikcpcb option" where
  "view w i =
     (if i < length (blocks w)
      then (case blocks w ! i of Live k co \<Rightarrow> Some (k\<lparr>mem := pool w\<rparr>) | _ \<Rightarrow> None)
      else None)"

text \<open>The message in the results of \<open>lkcp_recv\<close>; of an empty one there is only its length.\<close>

fun message_in :: "pushed list option \<Rightarrow> u8 list list" where
  "message_in (Some [Integer n]) = (if n = 0 then [[]] else [])"
| "message_in (Some [Integer n, Str s]) = [s]"
| "message_in _ = []"

text \<open>What a call on the block adds to the history of its end.\<close>

definition noted ::
  "'v lua_api \<Rightarrow> u8 list set \<Rightarrow> string \<Rightarrow> 'v list \<Rightarrow> pushed list option \<Rightarrow> ikcpcb \<Rightarrow> peer \<Rightarrow> peer" where
  "noted api handed name args r k p = p\<lparr>kcb := k, emitted := emitted p \<union> handed,
     stream := stream p @
       (if name = ''lkcp_send'' then map piece (drop (length (snd_queue (kcb p))) (snd_queue k)) else []),
     accepted := accepted p @
       (if name = ''lkcp_send'' \<and> r = Some [Integer 0] then [the (checklstring api (arg args 2))] else []),
     returned := returned p @ (if name = ''lkcp_recv'' then message_in r else [])\<rparr>"

text \<open>
  What is expected of the scripts: the strings they hand to \<open>lkcp_input\<close> are datagrams of the other
  end, the strings they send have a length that is an \<open>int\<close>, and they send while there is memory.
\<close>

definition expected ::
  "'v lua_api \<Rightarrow> u8 list set \<Rightarrow> ('v, 'c, 'o, 'x) lua_scheme \<Rightarrow> string \<Rightarrow> 'v list \<Rightarrow> bool" where
  "expected api inbox w name args \<longleftrightarrow> name \<noteq> ''__gc'' \<and>
     (name = ''lkcp_input'' \<longrightarrow> (\<forall>d. checklstring api (arg args 2) = Some d \<longrightarrow> d \<in> inbox)) \<and>
     (name = ''lkcp_send'' \<longrightarrow> plentiful (pool w) \<and>
        (\<forall>d. checklstring api (arg args 2) = Some d \<longrightarrow> length d < 2 ^ 31))"

text \<open>Whether an event is a call of a method of the block.\<close>

fun concerns :: "'v lua_api \<Rightarrow> nat \<Rightarrow> ('v, 'c, 'o, 'x) lua_scheme \<Rightarrow> 'v Lua.event \<Rightarrow> bool" where
  "concerns api i w (Invoke name args L fails) \<longleftrightarrow> name \<noteq> ''lkcp_create'' \<and> kcp_arg api args w = Some i"
| "concerns api i w (Spawn t) \<longleftrightarrow> False"
| "concerns api i w (Die t) \<longleftrightarrow> False"

text \<open>A message of which less than \<open>2^31\<close> bytes can be taken out.\<close>

definition takes_little :: "ikcpcb \<Rightarrow> bool" where
  "takes_little k \<longleftrightarrow> length (fst (snd (ikcp_recv k True RECV_BUFFER_LEN))) < 2 ^ 31"

section \<open>The methods\<close>

text \<open>The datagrams in what has been handed out between two states.\<close>

definition between ::
  "('o list \<Rightarrow> u8 list set) \<Rightarrow> ('v, 'c, 'o, 'x) lua_scheme \<Rightarrow> ('v, 'c, 'o, 'x) lua_scheme \<Rightarrow> u8 list set" where
  "between pick w w' = pick (drop (length (outbox w)) (outbox w'))"

definition none_of_none :: "('o list \<Rightarrow> u8 list set) \<Rightarrow> bool" where
  "none_of_none pick \<longleftrightarrow> pick [] = {}"

text \<open>A call that ends well is what an end can do.\<close>

definition tells where
  "tells api pick inbox w i name args p res \<longleftrightarrow>
     (case res of
        Inl e \<Rightarrow> True
      | Inr (r, w') \<Rightarrow> \<exists>k. view w' i = Some k \<and>
          (runs inbox)\<^sup>*\<^sup>* p (noted api (between pick w w') name args r k p))"

lemma view_put [simp]: "i < length (blocks w) \<Longrightarrow> view (put w i k c) i = Some k"
  by (simp add: view_def put_def)

lemma outbox_put [simp]: "outbox (put w i k c) = outbox w"
  by (simp add: put_def)

lemma view_outbox [simp]: "view (w\<lparr>outbox := x\<rparr>) i = view w i"
  by (simp add: view_def split: block.split)

text \<open>Nothing happens: an error in the arguments, or a question.\<close>

lemma noted_nothing: "name \<noteq> ''lkcp_send'' \<or> r \<noteq> Some [Integer 0] \<Longrightarrow> name \<noteq> ''lkcp_recv'' \<or> message_in r = [] \<Longrightarrow>
    noted api {} name args r (kcb p) p = p"
  by (auto simp: noted_def)

lemma tells_raise:
  assumes "none_of_none pick" and "view w i = Some (kcb p)"
  shows "tells api pick inbox w i name args p (raise w)"
proof -
  have "noted api (between pick w w) name args None (kcb p) p = p"
    using assms(1) by (simp add: between_def noted_nothing none_of_none_def)
  then have "(runs inbox)\<^sup>*\<^sup>* p (noted api (between pick w w) name args None (kcb p) p)" by simp
  then show ?thesis using assms(2) by (auto simp: tells_def raise_def)
qed

lemma tells_args:
  assumes "none_of_none pick" and "view w i = Some (kcb p)"
  shows "(\<And>v. tells api pick inbox w i name args p (f v)) \<Longrightarrow>
      tells api pick inbox w i name args p (int_arg api args n w f)"
    and "(\<And>s. checklstring api (arg args n) = Some s \<Longrightarrow> tells api pick inbox w i name args p (g s)) \<Longrightarrow>
      tells api pick inbox w i name args p (str_arg api args n w g)"
  using tells_raise [OF assms] by (auto simp: int_arg_def str_arg_def split: option.split)

text \<open>An end does something, and the block is put back.\<close>

lemma tells_put:
  assumes "none_of_none pick" and "i < length (blocks w)"
    and "(runs inbox)\<^sup>*\<^sup>* p (noted api {} name args r k p)"
  shows "tells api pick inbox w i name args p (Inr (r, put w i k c))"
  using assms by (auto simp: tells_def between_def none_of_none_def)

lemma runs_act: "acts inbox p e p' \<Longrightarrow> (runs inbox)\<^sup>*\<^sup>* p p'"
  using runs.acts [OF _ order_refl, of inbox p e p'] by auto

lemma runs_call:
  assumes "perform (kcb p) c = Inr (r, out, [], k)" and "proper (kcb p) c"
    and "\<not> is_send c" and "\<not> is_recv c" and "\<not> is_input c"
  shows "(runs inbox)\<^sup>*\<^sup>* p (p\<lparr>kcb := k\<rparr>)"
proof -
  have "acts inbox p (Other_call c) (p\<lparr>kcb := k, emitted := emitted p \<union> set []\<rparr>)"
    using acts.other [of c p] assms by simp
  then show ?thesis using runs_act by force
qed

lemma noted_other:
  "name \<noteq> ''lkcp_send'' \<Longrightarrow> name \<noteq> ''lkcp_recv'' \<Longrightarrow>
   noted api X name args r k p = p\<lparr>kcb := k, emitted := emitted p \<union> X\<rparr>"
  by (simp add: noted_def)

lemma recv_length:
  assumes "kcp_wf k" and "ikcp_recv k True len = (r, out, k')" and "0 \<le> len" and "0 \<le> r" and "length out < 2 ^ 31"
  shows "r = int (length out)"
proof -
  let ?m = "fst (message_of (rcv_queue k))"
  have "\<not> (rcv_queue k = [] \<or> ikcp_peeksize k < 0 \<or> recv_room len < ikcp_peeksize k)"
    using recv_rejects [of k len True] assms(2,4) by auto
  then have a: "rcv_queue k \<noteq> []" "0 \<le> ikcp_peeksize k" "ikcp_peeksize k \<le> recv_room len" by simp_all
  then have res: "r = ikcp_peeksize k" "out = concat (map seg_bytes ?m)"
    using recv_accepts [OF a, of True] assms(2) by simp_all
  obtain s q where q: "rcv_queue k = s # q" using a(1) by (cases "rcv_queue k") auto
  have sound: "\<forall>s \<in> set ?m. seg_sound s"
    using assms(1) message_of_set(2) [of "rcv_queue k"] by (auto simp: kcp_wf_def wf_rcv_def seg_received_def)
  have "seg_frg s = 0 \<or> seg_frg s + 1 \<le> nrcv_que k"
    using a(2) q by (auto simp: ikcp_peeksize_def split: if_splits)
  then have "ikcp_peeksize k = merged_len 0 ?m" using q by (rule peeksize_merged [rotated])
  then show ?thesis using merged_len_data [OF sound] res assms(5) by (simp add: sound_bytes [OF sound])
qed

lemma tells_recv:
  assumes "none_of_none pick" and "i < length (blocks w)" and "kcp_wf (kcb p)" and "takes_little (kcb p)"
  shows "tells api pick inbox w i ''lkcp_recv'' args p
    (case ikcp_recv (kcb p) True RECV_BUFFER_LEN of (hr, out, k) \<Rightarrow>
       if hr \<le> 0 then returns [Integer hr] (put w i k c)
       else returns [Integer hr, Str (take (nat hr) out)] (put w i k c))"
proof -
  obtain r out k where r: "ikcp_recv (kcb p) True RECV_BUFFER_LEN = (r, out, k)" by (metis prod_cases3)
  have "acts inbox p (Take_message RECV_BUFFER_LEN)
      (p\<lparr>kcb := k, returned := (if 0 \<le> r then returned p @ [out] else returned p)\<rparr>)"
    by (rule acts.take [OF _ r]) (simp add: RECV_BUFFER_LEN_def)
  then have run: "(runs inbox)\<^sup>*\<^sup>* p (p\<lparr>kcb := k, returned := (if 0 \<le> r then returned p @ [out] else returned p)\<rparr>)"
    by (rule runs_act)
  have len: "0 \<le> r \<Longrightarrow> r = int (length out)"
    using recv_length [OF assms(3) r] assms(4) r by (simp add: RECV_BUFFER_LEN_def takes_little_def)
  show ?thesis
  proof (cases "r \<le> 0")
    case True
    then have "p\<lparr>kcb := k, returned := (if 0 \<le> r then returned p @ [out] else returned p)\<rparr> =
        noted api {} ''lkcp_recv'' args (Some [Integer r]) k p"
      using len by (simp add: noted_def)
    then show ?thesis using tells_put [OF assms(1,2)] run r True by (simp add: returns_def)
  next
    case False
    then have "p\<lparr>kcb := k, returned := (if 0 \<le> r then returned p @ [out] else returned p)\<rparr> =
        noted api {} ''lkcp_recv'' args (Some [Integer r, Str (take (nat r) out)]) k p"
      using len by (simp add: noted_def)
    then show ?thesis using tells_put [OF assms(1,2)] run r False by (simp add: returns_def)
  qed
qed

text \<open>What \<open>ikcp_send\<close> did, with the number it returned.\<close>

lemma runs_send:
  assumes "plentiful (mem (kcb p))" and "checklstring api (arg args 2) = Some data" and "length data < 2 ^ 31"
    and "ikcp_send (kcb p) (Some data) (s32 (int (length data))) = Inr (hr, k)"
  shows "(runs inbox)\<^sup>*\<^sup>* p (noted api {} ''lkcp_send'' args (Some [Integer hr]) k p)"
proof -
  have "ikcp_send (kcb p) (Some data) (int (length data)) = Inr (hr, k)" using assms(3,4) by (simp add: s32_nat)
  from runs_act [OF acts.post [OF assms(3,1) this]] show ?thesis
    using assms(2) by (cases "hr = 0") (simp_all add: noted_def)
qed

lemma runs_input:
  assumes "data \<in> inbox" and "ikcp_input (kcb p) (Some data) = Inr (hr, k)"
  shows "(runs inbox)\<^sup>*\<^sup>* p (noted api {} ''lkcp_input'' args r k p)"
  using runs_act [OF acts.get [OF assms]] by (simp add: noted_other)

lemma tells_crash: "tells api pick inbox w i name args p (Inl e)"
  by (simp add: tells_def)

lemma tells_data:
  assumes "expected api inbox w name args" and "checklstring api (arg args 2) = Some data"
    and "mem (kcb p) = pool w"
  shows "name = ''lkcp_send'' \<Longrightarrow>
      (\<And>hr k. (runs inbox)\<^sup>*\<^sup>* p (noted api {} name args (Some [Integer hr]) k p) \<Longrightarrow>
        tells api pick inbox w i name args p (f hr k)) \<Longrightarrow>
      tells api pick inbox w i name args p
        (case ikcp_send (kcb p) (Some data) (s32 (int (length data))) of
           Inl e \<Rightarrow> Inl (C_fault e) | Inr (hr, k) \<Rightarrow> f hr k)"
    and "name = ''lkcp_input'' \<Longrightarrow>
      (\<And>hr k. (\<And>r. (runs inbox)\<^sup>*\<^sup>* p (noted api {} name args r k p)) \<Longrightarrow>
        tells api pick inbox w i name args p (g hr k)) \<Longrightarrow>
      tells api pick inbox w i name args p
        (case ikcp_input (kcb p) (Some data) of
           Inl e \<Rightarrow> Inl (C_fault e) | Inr (hr, k) \<Rightarrow> g hr k)"
proof -
  assume *: "name = ''lkcp_send''" "\<And>hr k. (runs inbox)\<^sup>*\<^sup>* p (noted api {} name args (Some [Integer hr]) k p) \<Longrightarrow>
        tells api pick inbox w i name args p (f hr k)"
  then have "plentiful (mem (kcb p))" "length data < 2 ^ 31" using assms by (auto simp: expected_def)
  from runs_send [OF this(1) assms(2) this(2)] *
  show "tells api pick inbox w i name args p
        (case ikcp_send (kcb p) (Some data) (s32 (int (length data))) of
           Inl e \<Rightarrow> Inl (C_fault e) | Inr (hr, k) \<Rightarrow> f hr k)"
    by (simp add: tells_crash split: sum.split)
next
  assume *: "name = ''lkcp_input''" "\<And>hr k. (\<And>r. (runs inbox)\<^sup>*\<^sup>* p (noted api {} name args r k p)) \<Longrightarrow>
        tells api pick inbox w i name args p (g hr k)"
  then have d: "data \<in> inbox" using assms by (auto simp: expected_def)
  show "tells api pick inbox w i name args p
        (case ikcp_input (kcb p) (Some data) of
           Inl e \<Rightarrow> Inl (C_fault e) | Inr (hr, k) \<Rightarrow> g hr k)"
  proof (cases "ikcp_input (kcb p) (Some data)")
    case (Inr x)
    then obtain hr k where k: "ikcp_input (kcb p) (Some data) = Inr (hr, k)" by (cases x) simp
    have "tells api pick inbox w i name args p (g hr k)"
      by (rule *(2)) (unfold *(1), rule runs_input [OF d k])
    then show ?thesis using k by simp
  qed (simp add: tells_crash)
qed

text \<open>The setters.\<close>

lemma tells_setters:
  assumes "none_of_none pick" and "i < length (blocks w)"
  shows "tells api pick inbox w i ''lkcp_wndsize'' args p
      (case ikcp_wndsize (kcb p) sw rw of (hr, k) \<Rightarrow> returns xs (put w i k c))"
    and "tells api pick inbox w i ''lkcp_nodelay'' args p
      (case ikcp_nodelay (kcb p) nd iv rs nc of (hr, k) \<Rightarrow> returns [Integer hr] (put w i k c))"
  using runs_call [of p "Wndsize sw rw" _ _ _ inbox] runs_call [of p "Nodelay nd iv rs nc" _ _ _ inbox]
  by (auto simp: returns_def noted_other intro!: tells_put [OF assms] split: prod.split)

text \<open>A flush that ends, and one that is left by an error.\<close>

lemma went_flush:
  assumes "kcp_inv b k" and "output_cb k"
  shows "raising_flush raises k = Inr (Went (sent, k')) \<Longrightarrow> ikcp_flush k = Inr (sent, k')"
    and "raising_update raises k now = Inr (Went (sent, k')) \<Longrightarrow> ikcp_update k now = Inr (sent, k')"
proof -
  obtain s1 k1 where "ikcp_flush k = Inr (s1, k1)" "may_stop b k raises (s1, k1) (raising_flush raises k)"
    by (rule flush_may_stop [OF assms])
  then show "raising_flush raises k = Inr (Went (sent, k')) \<Longrightarrow> ikcp_flush k = Inr (sent, k')"
    by (auto simp: may_stop_def split: if_splits)
  obtain s1 k1 where "ikcp_update k now = Inr (s1, k1)" "may_stop b k raises (s1, k1) (raising_update raises k now)"
    by (rule update_may_stop [OF assms])
  then show "raising_update raises k now = Inr (Went (sent, k')) \<Longrightarrow> ikcp_update k now = Inr (sent, k')"
    by (auto simp: may_stop_def split: if_splits)
qed

definition picked where
  "picked pick went thrown course \<longleftrightarrow>
     (\<forall>sent k. course = Inr (Went (sent, k :: ikcpcb)) \<longrightarrow> pick (went sent) \<subseteq> set sent) \<and>
     (\<forall>sent k. course = Inr (Thrown sent k) \<longrightarrow> pick (thrown sent) \<subseteq> set (sent :: u8 list list))"

lemma tells_finish:
  assumes "i < length (blocks w)" and "name \<noteq> ''lkcp_send''" and "name \<noteq> ''lkcp_recv''" and "output_cb (kcb p)"
    and "c = Flush \<or> (\<exists>now. c = Update now)"
    and "\<And>sent k. course = Inr (Went (sent, k)) \<Longrightarrow> perform (kcb p) c = Inr (0, [], sent, k)"
    and "\<And>sent k. course = Inr (Thrown sent k) \<Longrightarrow> left_call (kcb p) c sent k"
    and "picked pick went thrown course"
  shows "tells api pick inbox w i name args p (finish w i cb went thrown course)"
proof (cases course)
  case (Inl e)
  then show ?thesis by (simp add: finish_def tells_def)
next
  case (Inr x)
  show ?thesis
  proof (cases x)
    case (Went y)
    obtain sent k where y: "y = (sent, k)" by (cases y)
    then have s: "perform (kcb p) c = Inr (0, [], sent, k)" "pick (went sent) \<subseteq> set sent"
      using assms(6,8) Inr Went by (simp_all add: picked_def)
    have "acts inbox p (Other_call c) (p\<lparr>kcb := k, emitted := emitted p \<union> set sent\<rparr>)"
      using assms(4,5) s(1) by (intro acts.other) auto
    from runs.acts [OF this, of "emitted p \<union> pick (went sent)"] s(2)
    have "runs inbox p (p\<lparr>kcb := k, emitted := emitted p \<union> pick (went sent)\<rparr>)" by auto
    then have "(runs inbox)\<^sup>*\<^sup>* p (noted api (pick (went sent)) name args (Some []) k p)"
      using assms(2,3) by (simp add: noted_other)
    then show ?thesis
      using Inr Went y assms(1) by (simp add: finish_def tells_def returns_def between_def)
  next
    case (Thrown sent k)
    then have s: "left_call (kcb p) c sent k" "pick (thrown sent) \<subseteq> set sent"
      using assms(7,8) Inr by (simp_all add: picked_def)
    from runs.left [OF this, of inbox]
    have "(runs inbox)\<^sup>*\<^sup>* p (noted api (pick (thrown sent)) name args None k p)"
      using assms(2,3) by (simp add: noted_other)
    then show ?thesis
      using Inr Thrown assms(1) by (simp add: finish_def tells_def raise_def between_def)
  qed
qed

lemma tells_flush:
  assumes "i < length (blocks w)" and "kcp_inv b (kcb p)" and "output_cb (kcb p)"
  shows "picked pick went thrown (raising_flush raises (kcb p)) \<Longrightarrow>
      tells api pick inbox w i ''lkcp_flush'' args p (finish w i c went thrown (raising_flush raises (kcb p)))"
    and "picked pick went thrown (raising_update raises (kcb p) now) \<Longrightarrow>
      tells api pick inbox w i ''lkcp_update'' args p (finish w i c went thrown (raising_update raises (kcb p) now))"
proof -
  note fact = assms(1,3) went_flush [OF assms(2,3)]
  show "picked pick went thrown (raising_flush raises (kcb p)) \<Longrightarrow>
      tells api pick inbox w i ''lkcp_flush'' args p (finish w i c went thrown (raising_flush raises (kcb p)))"
    using fact by (intro tells_finish [where c = Flush]) (auto simp: left_call_def)
  show "picked pick went thrown (raising_update raises (kcb p) now) \<Longrightarrow>
      tells api pick inbox w i ''lkcp_update'' args p (finish w i c went thrown (raising_update raises (kcb p) now))"
    using fact by (intro tells_finish [where c = "Update now"]) (auto simp: left_call_def)
qed

section \<open>Calls on other blocks\<close>

text \<open>The block \<open>i\<close> is as it was.\<close>

definition spares :: "nat \<Rightarrow> ('v, 'c, 'o, 'x) lua_scheme \<Rightarrow> ('v, 'c, 'o, 'x) result \<Rightarrow> bool" where
  "spares i w res \<longleftrightarrow>
     (case res of
        Inl e \<Rightarrow> True
      | Inr (r, w') \<Rightarrow> i < length (blocks w) \<longrightarrow> i < length (blocks w') \<and> blocks w' ! i = blocks w ! i)"

named_theorems spares_rules \<open>a block is left alone\<close>

lemma spares_ends [spares_rules]:
  "blocks w' = blocks w \<Longrightarrow> spares i w (returns xs w')" "blocks w' = blocks w \<Longrightarrow> spares i w (raise w')"
  "spares i w (Inl e)"
  by (simp_all add: spares_def returns_def raise_def)

lemma spares_args [spares_rules]:
  "blocks w' = blocks w \<Longrightarrow> (\<And>v. spares i w (f v)) \<Longrightarrow> spares i w (int_arg api args n w' f)"
  "blocks w' = blocks w \<Longrightarrow> (\<And>s. spares i w (g s)) \<Longrightarrow> spares i w (str_arg api args n w' g)"
  by (auto simp: int_arg_def str_arg_def spares_rules split: option.split)

lemma spares_put [spares_rules]:
  "j \<noteq> i \<Longrightarrow> spares i w (returns xs (put w j k c))" "j \<noteq> i \<Longrightarrow> spares i w (raise (put w j k c))"
  "j \<noteq> i \<Longrightarrow> spares i w (finish w j c went thrown r)"
  by (auto simp: spares_def put_def returns_def raise_def finish_def split: sum.split course.split)

lemma spares_with_kcp [spares_rules]:
  "kcp_arg api args w \<noteq> Some i \<Longrightarrow> (\<And>j k c. j \<noteq> i \<Longrightarrow> spares i w (f j k c)) \<Longrightarrow>
   spares i w (with_kcp api args w f)"
  by (auto simp: with_kcp_def spares_rules split: option.split block.split)

lemma spares_view:
  assumes "spares i w (Inr (r, w'))" and "view w i = Some k"
  shows "\<exists>m. view w' i = Some (k\<lparr>mem := m\<rparr>)"
  using assms by (auto simp: spares_def view_def split: if_splits block.splits)

lemma view_same: "blocks w' = blocks w \<Longrightarrow> view w i = Some k \<Longrightarrow> \<exists>m. view w' i = Some (k\<lparr>mem := m\<rparr>)"
  by (auto simp: view_def split: if_splits block.splits)

text \<open>The block a method works on.\<close>

lemma view_at:
  assumes "world_ok held good b w" and "view w i = Some k"
  obtains c where "kcp_at held good b w i k c"
    and "\<And>api args f. kcp_arg api args w = Some i \<Longrightarrow> with_kcp api args w f = f i k c"
proof -
  obtain k0 co where i: "i < length (blocks w)" "blocks w ! i = Live k0 co" "k = k0\<lparr>mem := pool w\<rparr>"
    using assms(2) by (auto simp: view_def split: if_splits block.splits)
  then obtain c where c: "co = Some c" "good c" using world_block [OF assms(1) i(1,2)] by metis
  then have "kcp_at held good b w i k c" using assms(1) i by (auto simp: kcp_at_def)
  then show ?thesis using that i c(1) by (simp add: with_kcp_def)
qed

section \<open>What a binding promises\<close>

text \<open>
  \<open>calls\<close> are the events of a process with the results of the functions called, \<open>handed\<close> the datagrams
  handed out between two states, \<open>good\<close> its invariant.  A call on a block is one of the things an end
  can do; any other event leaves the block alone, except for the allocator it shares.
\<close>

locale conversation =
  fixes calls :: "('v, 'c, 'o, 'x) lua_scheme \<Rightarrow> 'v Lua.event \<Rightarrow> pushed list option \<Rightarrow> ('v, 'c, 'o, 'x) lua_scheme \<Rightarrow> bool"
    and handed :: "('v, 'c, 'o, 'x) lua_scheme \<Rightarrow> ('v, 'c, 'o, 'x) lua_scheme \<Rightarrow> u8 list set"
    and api :: "'v lua_api"
    and good :: "('v, 'c, 'o, 'x) lua_scheme \<Rightarrow> bool"
  assumes good_calls: "good w \<Longrightarrow> calls w e r w' \<Longrightarrow> good w'"
    and own_call: "good w \<Longrightarrow> view w i = Some (kcb p) \<Longrightarrow> calls w (Invoke name args L fails) r w' \<Longrightarrow>
      concerns api i w (Invoke name args L fails) \<Longrightarrow> expected api inbox w name args \<Longrightarrow>
      takes_little (kcb p) \<Longrightarrow>
      \<exists>k. view w' i = Some k \<and> (runs inbox)\<^sup>*\<^sup>* p (noted api (handed w w') name args r k p)"
    and other_call: "good w \<Longrightarrow> view w i = Some k \<Longrightarrow> calls w e r w' \<Longrightarrow> \<not> concerns api i w e \<Longrightarrow>
      \<exists>m. view w' i = Some (k\<lparr>mem := m\<rparr>)"
begin

text \<open>An event of a process and what it is for the end at its block \<open>i\<close>.\<close>

inductive station ::
  "nat \<Rightarrow> u8 list set \<Rightarrow> ('v, 'c, 'o, 'x) lua_scheme \<times> peer \<Rightarrow> 'v Lua.event \<Rightarrow> ('v, 'c, 'o, 'x) lua_scheme \<times> peer \<Rightarrow> bool"
  for i inbox where
  own: "calls w (Invoke name args L fails) r w' \<Longrightarrow> concerns api i w (Invoke name args L fails) \<Longrightarrow>
     expected api inbox w name args \<Longrightarrow> view w' i = Some k \<Longrightarrow>
     station i inbox (w, p) (Invoke name args L fails) (w', noted api (handed w w') name args r k p)"
| other: "calls w e r w' \<Longrightarrow> \<not> concerns api i w e \<Longrightarrow> view w' i = Some k \<Longrightarrow>
     station i inbox (w, p) e (w', p\<lparr>kcb := k\<rparr>)"

text \<open>A process and its end.\<close>

definition linked :: "nat \<Rightarrow> ('v, 'c, 'o, 'x) lua_scheme \<times> peer \<Rightarrow> bool" where
  "linked i s \<longleftrightarrow> good (fst s) \<and> view (fst s) i = Some (kcb (snd s))"

lemma station_runs:
  assumes "station i inbox s e s'" and "linked i s" and "takes_little (kcb (snd s))"
  shows "linked i s' \<and> (runs inbox)\<^sup>*\<^sup>* (snd s) (snd s')"
  using assms(1)
proof (cases rule: station.cases)
  case (own w name args L fails r w' k p)
  have "kcb (noted api (handed w w') name args r k p) = k" by (simp add: noted_def)
  then show ?thesis
    using assms(2,3) own good_calls [of w _ r w'] own_call [of w i p name args L fails r w' inbox]
    by (auto simp: linked_def)
next
  case (other w r w' k p)
  then obtain m where "k = (kcb p)\<lparr>mem := m\<rparr>"
    using assms(2) other_call [of w i "kcb p" e r w'] by (auto simp: linked_def)
  then have "runs inbox p (p\<lparr>kcb := k\<rparr>)" using runs.others by blast
  then show ?thesis using assms(2) other good_calls [of w e r w'] by (auto simp: linked_def)
qed

text \<open>A call always has its step, as long as the block is not collected.\<close>

lemma station_total:
  assumes "linked i (w, p)" and "calls w e r w'" and "takes_little (kcb p)"
    and "\<And>name args L fails. e = Invoke name args L fails \<Longrightarrow> concerns api i w e \<Longrightarrow> expected api inbox w name args"
  shows "\<exists>p'. station i inbox (w, p) e (w', p')"
proof (cases "concerns api i w e")
  case True
  then obtain name args L fails where e: "e = Invoke name args L fails" by (cases e) auto
  then show ?thesis
    using assms True own_call [of w i p name args L fails r w' inbox] station.own [of w name args L fails r w' i inbox]
    by (auto simp: linked_def)
next
  case False
  then show ?thesis
    using assms(1,2) other_call [of w i "kcb p" e r w'] station.other [of w e r w' i _ inbox p]
    by (auto simp: linked_def)
qed

end

section \<open>What the scripts get\<close>

text \<open>A message that can be taken out is one that was put in at the other end, and so not too long.\<close>

lemma both_prefix:
  assumes "both p q" and "length (stream p) < 2 ^ 31"
  shows "returned q = take (length (returned q)) (accepted p)"
  using assms direction_prefix by (auto simp: both_def)

lemma both_rest:
  assumes "both p q" and "length (stream p) < 2 ^ 31" and "ikcp_waitsnd (kcb p) = 0"
    and "rcv_queue (kcb q) = []" and "rcv_buf (kcb q) = []"
  shows "returned q = accepted p"
  using assms direction_rest by (auto simp: both_def)

lemma both_short_messages:
  assumes "both p q" and "length (stream p) < 2 ^ 31" and "m \<in> set (accepted p)"
  shows "length m < 2 ^ 31"
proof -
  obtain a b where "closed_inv a b (direction p q)" using assms(1) by (auto simp: both_def)
  then have "link_ok a b (direction p q)" using assms(2) by (simp add: closed_inv_def keeping_def direction_def)
  then obtain gs where "list_all2 message_pieces gs (accepted p)" by (auto simp: link_ok_def direction_def)
  then show ?thesis using assms(3) by (auto simp: list_all2_conv_all_nth in_set_conv_nth message_pieces_def)
qed

lemma both_takes_little:
  assumes "both p q" and "length (stream p) < 2 ^ 31"
  shows "takes_little (kcb q)"
proof -
  obtain r out k where r: "ikcp_recv (kcb q) True RECV_BUFFER_LEN = (r, out, k)" by (metis prod_cases3)
  show ?thesis
  proof (cases "0 \<le> r")
    case True
    let ?q = "q\<lparr>kcb := k, returned := returned q @ [out]\<rparr>"
    have "acts (emitted p) q (Take_message RECV_BUFFER_LEN) ?q"
      using acts.take [OF _ r, of "emitted p"] True by (simp add: RECV_BUFFER_LEN_def)
    from runs.acts [OF this order_refl] have "runs (emitted p) q ?q" by simp
    then have "both ?q p" using both_runs both_sym [OF assms(1)] by blast
    then have "both p ?q" by (rule both_sym)
    from both_prefix [OF this assms(2)] have "returned q @ [out] = take (Suc (length (returned q))) (accepted p)"
      by simp
    then have "out \<in> set (accepted p)" by (metis in_set_takeD in_set_conv_decomp)
    then show ?thesis using both_short_messages [OF assms] r by (simp add: takes_little_def)
  next
    case False
    then have "out = []"
      using r recv_rejects [of "kcb q" RECV_BUFFER_LEN True] recv_accepts [of "kcb q" RECV_BUFFER_LEN True]
      by (metis Pair_inject linorder_not_less)
    then show ?thesis using r by (simp add: takes_little_def)
  qed
qed

lemma both_many: "(runs (emitted q))\<^sup>*\<^sup>* p p' \<Longrightarrow> both p q \<Longrightarrow> both p' q"
  by (induction rule: rtranclp_induct) (auto intro: both_runs)

text \<open>An end whose control block has just been created and given its callback.\<close>

definition fresh_end :: "peer \<Rightarrow> bool" where
  "fresh_end p \<longleftrightarrow> (\<exists>a k m. created a k \<and> kcb p = k\<lparr>output_cb := True, mem := m\<rparr>) \<and>
     emitted p = {} \<and> stream p = [] \<and> accepted p = [] \<and> returned p = []"

lemma fresh_both:
  assumes "fresh_end p" and "fresh_end q" and "conv (kcb p) = conv (kcb q)"
  shows "both p q"
proof -
  obtain a k m b l n where c: "created a k" "kcb p = k\<lparr>output_cb := True, mem := m\<rparr>"
    "created b l" "kcb q = l\<lparr>output_cb := True, mem := n\<rparr>" using assms(1,2) by (auto simp: fresh_end_def)
  have start: "\<exists>p1. runs X (p\<lparr>kcb := k\<rparr>) p1 \<and> runs X p1 p"
    if "kcb p = k\<lparr>output_cb := True, mem := m\<rparr>" for X k m p
  proof -
    let ?p1 = "p\<lparr>kcb := k\<lparr>output_cb := True\<rparr>\<rparr>"
    have "acts X (p\<lparr>kcb := k\<rparr>) (Other_call (Setoutput True)) (?p1\<lparr>emitted := emitted p \<union> set []\<rparr>)"
      using acts.other [of "Setoutput True" "p\<lparr>kcb := k\<rparr>" 0 "[]" "[]" "k\<lparr>output_cb := True\<rparr>" X]
      by (simp add: set_output_def)
    then have "acts X (p\<lparr>kcb := k\<rparr>) (Other_call (Setoutput True)) ?p1" by simp
    from runs.acts [OF this order_refl] have "runs X (p\<lparr>kcb := k\<rparr>) ?p1" by simp
    moreover have "runs X ?p1 (?p1\<lparr>kcb := (kcb ?p1)\<lparr>mem := m\<rparr>\<rparr>)" by (rule runs.others)
    moreover have "?p1\<lparr>kcb := (kcb ?p1)\<lparr>mem := m\<rparr>\<rparr> = p" using that by simp
    ultimately show ?thesis by metis
  qed
  have "joined a b (p\<lparr>kcb := k\<rparr>, q\<lparr>kcb := l\<rparr>)" using assms c by (simp add: fresh_end_def idle_def)
  then have "duplex_inv a b (p\<lparr>kcb := k\<rparr>, q\<lparr>kcb := l\<rparr>)" by (rule duplex.good_start)
  then have "both (p\<lparr>kcb := k\<rparr>) (q\<lparr>kcb := l\<rparr>)" unfolding both_def by blast
  then have "both p (q\<lparr>kcb := l\<rparr>)" using start [OF c(2)] both_runs by blast
  then have "both (q\<lparr>kcb := l\<rparr>) p" by (rule both_sym)
  then have "both q p" using start [OF c(4)] both_runs by blast
  then show ?thesis by (rule both_sym)
qed

text \<open>The end at a block that has just been created, with its history from here on.\<close>

definition seat :: "('v, 'c, 'o, 'x) lua_scheme \<Rightarrow> nat \<Rightarrow> peer" where
  "seat w i = \<lparr>kcb = the (view w i), emitted = {}, stream = [], accepted = [], returned = []\<rparr>"

lemma new_seat:
  assumes "i = length (blocks w)" and "blocks w1 = blocks w @ [Live (k\<lparr>output_cb := True\<rparr>) co]" and "pool w1 = mem k"
    and "ikcp_create m c = Inr k"
  shows "view w1 i = Some (kcb (seat w1 i))" and "conv (kcb (seat w1 i)) = c" and "fresh_end (seat w1 i)"
proof -
  have s: "view w1 i = Some (k\<lparr>output_cb := True, mem := mem k\<rparr>)" using assms(1-3) by (simp add: view_def)
  then have kcb: "kcb (seat w1 i) = k\<lparr>output_cb := True, mem := mem k\<rparr>" by (simp add: seat_def)
  have "created (live m) k" using assms(4) by (auto simp: created_def)
  then have "\<exists>a k m. created a k \<and> kcb (seat w1 i) = k\<lparr>output_cb := True, mem := m\<rparr>"
    using kcb by blast
  then show "fresh_end (seat w1 i)" unfolding fresh_end_def by (simp add: seat_def)
  show "conv (kcb (seat w1 i)) = c"
    using assms(4) kcb by (auto simp: ikcp_create_def new_kcpcb_def Let_def split: prod.splits if_splits)
  show "view w1 i = Some (kcb (seat w1 i))" using s kcb by simp
qed

definition short_streams :: "peer \<Rightarrow> peer \<Rightarrow> bool" where
  "short_streams p q \<longleftrightarrow> length (stream p) < 2 ^ 31 \<and> length (stream q) < 2 ^ 31"

context conversation
begin

text \<open>An event of the first process (\<open>True\<close>) or of the second.\<close>

definition talks ::
  "nat \<Rightarrow> nat \<Rightarrow> (('v, 'c, 'o, 'x) lua_scheme \<times> peer) \<times> (('v, 'c, 'o, 'x) lua_scheme \<times> peer) \<Rightarrow>
   bool \<times> 'v Lua.event \<Rightarrow> (('v, 'c, 'o, 'x) lua_scheme \<times> peer) \<times> (('v, 'c, 'o, 'x) lua_scheme \<times> peer) \<Rightarrow> bool" where
  "talks i j s e s' \<longleftrightarrow>
     (if fst e
      then station i (emitted (snd (snd s))) (fst s) (snd e) (fst s') \<and> snd s' = snd s
      else station j (emitted (snd (fst s))) (snd s) (snd e) (snd s') \<and> fst s' = fst s)"

definition meets where
  "meets i j s \<longleftrightarrow> linked i (fst s) \<and> linked j (snd s) \<and> fresh_end (snd (fst s)) \<and> fresh_end (snd (snd s)) \<and>
     conv (kcb (snd (fst s))) = conv (kcb (snd (snd s)))"

definition talk_inv where
  "talk_inv i j s \<longleftrightarrow> (short_streams (snd (fst s)) (snd (snd s)) \<longrightarrow>
     linked i (fst s) \<and> linked j (snd s) \<and> both (snd (fst s)) (snd (snd s)))"

lemma station_stream: "station i inbox s e s' \<Longrightarrow> length (stream (snd s)) \<le> length (stream (snd s'))"
  by (cases rule: station.cases) (auto simp: noted_def)

lemma talk_inv_step:
  assumes "talk_inv i j s" and "talks i j s e s'"
  shows "talk_inv i j s'"
proof -
  obtain ws wp vs vp where s: "s = ((ws, wp), (vs, vp))" by (metis prod.collapse)
  obtain ws' wp' vs' vp' where s': "s' = ((ws', wp'), (vs', vp'))" by (metis prod.collapse)
  have one: "linked l (w', p') \<and> both p' q"
    if "station l (emitted q) (w, p) ev (w', p')" "linked l (w, p)" "both p q" "length (stream q) < 2 ^ 31"
    for l w p ev w' p' q
  proof -
    have "takes_little (kcb p)" using both_takes_little both_sym that(3,4) by blast
    then have "linked l (w', p') \<and> (runs (emitted q))\<^sup>*\<^sup>* p p'" using station_runs [OF that(1,2)] by simp
    then show ?thesis using both_many that(3) by blast
  qed
  show ?thesis
  proof (cases "fst e")
    case True
    then have st: "station i (emitted vp) (ws, wp) (snd e) (ws', wp')" "vs' = vs" "vp' = vp"
      using assms(2) by (simp_all add: talks_def s s')
    then have "short_streams wp' vp \<Longrightarrow> short_streams wp vp"
      using station_stream [OF st(1)] by (simp add: short_streams_def)
    then show ?thesis
      using assms(1) one [OF st(1)] st(2,3) by (auto simp: talk_inv_def short_streams_def s s')
  next
    case False
    then have st: "station j (emitted wp) (vs, vp) (snd e) (vs', vp')" "ws' = ws" "wp' = wp"
      using assms(2) by (simp_all add: talks_def s s')
    then have "short_streams wp vp' \<Longrightarrow> short_streams wp vp"
      using station_stream [OF st(1)] by (simp add: short_streams_def)
    then show ?thesis
      using assms(1) one [OF st(1)] st(2,3) by (auto simp: talk_inv_def short_streams_def s s' dest: both_sym)
  qed
qed

lemma talk_inv_start: "meets i j s \<Longrightarrow> talk_inv i j s"
  by (simp add: meets_def talk_inv_def fresh_both)

end

sublocale conversation \<subseteq> talk: step_system "meets i j" "talks i j" "talk_inv i j" for i j
  by unfold_locales (auto intro: talk_inv_start talk_inv_step)

context conversation
begin

lemma scripts_prefix:
  assumes "meets i j s0" and "talk.run i j s0 events ((w, p), (v, q))" and "short_streams p q"
  shows "returned q = take (length (returned q)) (accepted p) \<and>
    returned p = take (length (returned p)) (accepted q)"
  using talk.reachable_good [OF assms(1,2)] assms(3) both_prefix [of p q] both_prefix [of q p] both_sym [of p q]
  by (simp add: talk_inv_def short_streams_def)

end

end
