(* ===== verification/Lkcp_Talk.thy ===== *)
theory Lkcp_Talk
  imports Lkcp Stations
begin

text \<open>
  Scripts that talk through \<open>lkcp.c\<close>: the functions of the binding keep the promise of \<open>conversation\<close>, so
  the strings that \<open>lkcp_recv\<close> returns in one process are those given to \<open>lkcp_send\<close> in the other.
\<close>

text \<open>An event of the process with the results of the function called.\<close>

definition lkcp_calls ::
  "'v lua_api \<Rightarrow> ('v, 'v \<times> u8 list) lkcp \<Rightarrow> 'v Lua.event \<Rightarrow> pushed list option \<Rightarrow> ('v, 'v \<times> u8 list) lkcp \<Rightarrow> bool" where
  "lkcp_calls api w e r w' \<longleftrightarrow>
     (case e of
        Invoke name args L fails \<Rightarrow> lkcp_proper api w name args L \<and>
          (\<exists>f. map_of (lkcp_functions api fails L) name = Some f \<and> f args w = Inr (r, w'))
      | Spawn t \<Rightarrow> r = None \<and> w' = w\<lparr>threads := insert t (threads w)\<rparr>
      | Die t \<Rightarrow> r = None \<and> w' = w\<lparr>threads := threads w - {t}\<rparr>)"

lemma lkcp_calls_step: "lkcp_step api w e w' \<longleftrightarrow> (\<exists>r. lkcp_calls api w e r w')"
proof
  show "lkcp_step api w e w' \<Longrightarrow> \<exists>r. lkcp_calls api w e r w'"
    by (elim lkcp_stepE) (auto simp: lkcp_calls_def)
  show "\<exists>r. lkcp_calls api w e r w' \<Longrightarrow> lkcp_step api w e w'"
    by (cases e) (auto simp: lkcp_calls_def intro: lkcp_step.intros)
qed

text \<open>The output function is given the datagram itself.\<close>

definition given :: "('v \<times> u8 list) list \<Rightarrow> u8 list set" where
  "given out = snd ` set out"

lemma given_called: "picked given (called f) (called f) course" and given_none: "none_of_none given"
  by (auto simp: picked_def given_def called_def none_of_none_def split: option.splits)

lemma methods_tell:
  assumes "lkcp_ok b w" and "view w i = Some (kcb p)" and "kcp_arg api args w = Some i"
    and "(name, f) \<in> set (lkcp_methods api fails L)" and "expected api inbox w name args"
    and "takes_little (kcb p)"
  shows "tells api given inbox w i name args p (f args w)"
proof -
  obtain c where at: "kcp_at lkcp_held lkcp_good b w i (kcb p) c"
    and m: "\<And>g. with_kcp api args w g = g i (kcb p) c"
    using view_at [OF assms(1,2)] assms(3) by metis
  note inv = kcp_at_inv [OF at]
  have i: "i < length (blocks w)" using assms(3) by (rule kcp_arg_bound)
  have wf: "kcp_wf (kcb p)" using inv(1) by (simp add: kcp_inv_def)
  have buffer: "recv_buffer w" using assms(1) by (simp add: world_ok_def)
  note args = tells_args [OF given_none assms(2)]
  have "tells api given inbox w i ''lkcp_recv'' args p (lkcp_recv api args w)"
    using tells_recv [OF given_none i wf assms(6)] buffer by (simp add: lkcp_recv_def m)
  moreover have "tells api given inbox w i ''lkcp_send'' args p (lkcp_send api args w)"
    if "expected api inbox w ''lkcp_send'' args"
    unfolding lkcp_send_def m
    by (intro args tells_data(1) [OF that _ inv(3)] refl) (auto simp: returns_def intro!: tells_put [OF given_none i])
  moreover have "tells api given inbox w i ''lkcp_input'' args p (lkcp_input api args w)"
    if "expected api inbox w ''lkcp_input'' args"
    unfolding lkcp_input_def m
    by (intro args tells_data(2) [OF that _ inv(3)] refl) (auto simp: returns_def intro!: tells_put [OF given_none i])
  moreover have "tells api given inbox w i ''lkcp_check'' args p (lkcp_check api args w)"
    unfolding lkcp_check_def m Let_def
    by (intro args) (use assms(2) in \<open>simp add: tells_def returns_def noted_nothing between_def given_def\<close>)
  moreover have "tells api given inbox w i ''lkcp_wndsize'' args p (lkcp_wndsize api args w)"
    unfolding lkcp_wndsize_def m by (intro args tells_setters [OF given_none i])
  moreover have "tells api given inbox w i ''lkcp_nodelay'' args p (lkcp_nodelay api args w)"
    unfolding lkcp_nodelay_def m by (intro args tells_setters [OF given_none i])
  moreover have "tells api given inbox w i ''lkcp_update'' args p (lkcp_update api fails L args w)"
    unfolding lkcp_update_def m Let_def
    by (intro args tells_flush(2) [OF i inv(1,4)] given_called)
  moreover have "tells api given inbox w i ''lkcp_flush'' args p (lkcp_flush api fails L args w)"
    unfolding lkcp_flush_def m Let_def
    by (intro tells_flush(1) [OF i inv(1,4)] given_called)
  ultimately show ?thesis using assms(4,5) by (auto simp: lkcp_methods_def)
qed

lemma functions_spare:
  fixes w :: "('v, 'v \<times> u8 list) lkcp"
  assumes "map_of (lkcp_functions api fails L) name = Some f"
    and "name = ''lkcp_create'' \<or> kcp_arg api args w \<noteq> Some i"
  shows "spares i w (f args w)"
  using assms(1)
proof (cases rule: functions_cases)
  case 1
  then show ?thesis
    by (auto simp: lkcp_create_def Let_def int_arg_def returns_def raise_def spares_def nth_append
        split: prod.split sum.split option.split)
next
  case 2
  then have "name \<noteq> ''lkcp_create''" by (auto simp: lkcp_methods_def)
  then have "kcp_arg api args w \<noteq> Some i" using assms(2) by simp
  then have "spares i w (lkcp_recv api args w)" "spares i w (lkcp_send api args w)"
    "spares i w (lkcp_input api args w)" "spares i w (lkcp_check api args w)"
    "spares i w (lkcp_wndsize api args w)" "spares i w (lkcp_nodelay api args w)"
    "spares i w (lkcp_update api fails L args w)" "spares i w (lkcp_flush api fails L args w)"
    by (auto simp: lkcp_recv_def lkcp_send_def lkcp_input_def lkcp_check_def lkcp_wndsize_def
        lkcp_nodelay_def lkcp_update_def lkcp_flush_def Let_def intro!: spares_rules split: sum.split prod.split)
  then show ?thesis using 2 by (auto simp: lkcp_methods_def)
next
  case 3
  then have "kcp_arg api args w \<noteq> Some i" using assms(2) by auto
  then show ?thesis unfolding 3(2)
    by (auto simp: kcp_gc_def returns_def raise_def spares_def split: option.split block.split)
qed

interpretation scripts: conversation "lkcp_calls api" "between given" api "\<lambda>w. \<exists>b. lkcp_ok b w"
  for api :: "'v lua_api"
proof
  fix w w' :: "('v, 'v \<times> u8 list) lkcp" and e r i and p and name args L fails inbox k
  show "\<exists>b. lkcp_ok b w \<Longrightarrow> lkcp_calls api w e r w' \<Longrightarrow> \<exists>b. lkcp_ok b w'"
    using plain.good_step lkcp_calls_step by metis
  show "\<exists>k. view w' i = Some k \<and> (runs inbox)\<^sup>*\<^sup>* p (noted api (between given w w') name args r k p)"
    if a: "\<exists>b. lkcp_ok b w" "view w i = Some (kcb p)" "lkcp_calls api w (Invoke name args L fails) r w'"
      "concerns api i w (Invoke name args L fails)" "expected api inbox w name args" "takes_little (kcb p)"
  proof -
    obtain f where f: "map_of (lkcp_functions api fails L) name = Some f" "f args w = Inr (r, w')"
      using a(3) by (auto simp: lkcp_calls_def)
    from f(1) have "(name, f) \<in> set (lkcp_methods api fails L)"
      by (cases rule: functions_cases) (use a(4,5) in \<open>auto simp: expected_def\<close>)
    then have "tells api given inbox w i name args p (f args w)"
      using a methods_tell by fastforce
    then show ?thesis using f(2) by (simp add: tells_def)
  qed
  show "\<exists>m. view w' i = Some (k\<lparr>mem := m\<rparr>)"
    if a: "\<exists>b. lkcp_ok b w" "view w i = Some k" "lkcp_calls api w e r w'" "\<not> concerns api i w e"
  proof (cases e)
    case (Invoke name args L fails)
    then obtain f where f: "map_of (lkcp_functions api fails L) name = Some f" "f args w = Inr (r, w')"
      using a(3) by (auto simp: lkcp_calls_def)
    moreover have "name = ''lkcp_create'' \<or> kcp_arg api args w \<noteq> Some i" using a(4) Invoke by auto
    ultimately have "spares i w (Inr (r, w'))" using functions_spare by metis
    then show ?thesis using a(2) by (rule spares_view)
  qed (use a view_same [of w' w i k] in \<open>auto simp: lkcp_calls_def\<close>)
qed

section \<open>What the scripts get\<close>

lemma create_seat:
  assumes "lkcp_ok b w" and "lkcp_create api L args w = Inr (Some [Userdata i], w1)"
  obtains v where "checkinteger api (arg (butlast args) 1) = Some v" and "\<exists>b. lkcp_ok b w1"
    and "view w1 i = Some (kcb (seat w1 i))" and "conv (kcb (seat w1 i)) = ucast v" and "fresh_end (seat w1 i)"
proof -
  obtain v m k c where v: "checkinteger api (arg (butlast args) 1) = Some v" "ikcp_create m (ucast v) = Inr k"
    and w1: "i = length (blocks w)" "blocks w1 = blocks w @ [Live (k\<lparr>output_cb := True\<rparr>) (Some c)]" "pool w1 = mem k"
    and a: "args \<noteq> []"
    using assms(2)
    by (fastforce simp: lkcp_create_def Let_def int_arg_def returns_def raise_def
        split: if_splits option.splits sum.splits prod.splits)
  note new = new_seat [OF w1 v(2)]
  have "\<exists>b. lkcp_ok b w1"
    using create_fine [OF assms(1) a, of api L] assms(2) by (auto simp: fine_def)
  then show ?thesis using that v(1) new by blast
qed

lemma created_meet:
  assumes "lkcp_ok b w" and "lkcp_create api L args w = Inr (Some [Userdata i], w1)"
    and "lkcp_ok b' v" and "lkcp_create api L' args' v = Inr (Some [Userdata j], v1)"
    and "checkinteger api (arg (butlast args) 1) = checkinteger api (arg (butlast args') 1)"
  shows "scripts.meets i j ((w1, seat w1 i), (v1, seat v1 j))"
proof -
  obtain x where x: "checkinteger api (arg (butlast args) 1) = Some x" "\<exists>b. lkcp_ok b w1"
    "view w1 i = Some (kcb (seat w1 i))" "conv (kcb (seat w1 i)) = ucast x" "fresh_end (seat w1 i)"
    by (rule create_seat [OF assms(1,2)])
  obtain y where y: "checkinteger api (arg (butlast args') 1) = Some y" "\<exists>b. lkcp_ok b v1"
    "view v1 j = Some (kcb (seat v1 j))" "conv (kcb (seat v1 j)) = ucast y" "fresh_end (seat v1 j)"
    by (rule create_seat [OF assms(3,4)])
  show ?thesis
    unfolding scripts.meets_def scripts.linked_def using x y assms(5) by simp
qed

text \<open>
  C5: scripts that talk through the binding.  In two processes, among other control blocks and other
  coroutines, a block of the same conversation is created in each; scripts then call the methods on
  them in any order, hand to \<open>lkcp_input\<close> strings that the other block handed to its output function,
  lost, repeated, late or in another order, and the output functions raise errors as they like.
  Then the strings that \<open>lkcp_recv\<close> returned at one end are the first of those for which \<open>lkcp_send\<close>
  returned 0 at the other, in both directions.
\<close>

theorem scripts_deliver:
  assumes "opened b w0" and "plain.run api w0 es w" and "lkcp_create api L args w = Inr (Some [Userdata i], w1)"
    and "opened b' v0" and "plain.run api v0 es' v" and "lkcp_create api L' args' v = Inr (Some [Userdata j], v1)"
    and "checkinteger api (arg (butlast args) 1) = checkinteger api (arg (butlast args') 1)"
    and "scripts.talk.run api i j ((w1, seat w1 i), (v1, seat v1 j)) events ((w2, p), (v2, q))"
    and "length (stream p) < 2 ^ 31" and "length (stream q) < 2 ^ 31"
  shows "returned q = take (length (returned q)) (accepted p) \<and>
    returned p = take (length (returned p)) (accepted q)"
proof -
  have "lkcp_ok b w" "lkcp_ok b' v" using plain.reachable_good assms(1,2,4,5) by blast+
  then have "scripts.meets i j ((w1, seat w1 i), (v1, seat v1 j))"
    using created_meet [OF _ assms(3) _ assms(6,7)] by blast
  from scripts.scripts_prefix [OF this assms(8)] assms(9,10) show ?thesis
    by (simp add: short_streams_def)
qed

end
