(* ===== verification/Lkcpsn_Talk.thy ===== *)
theory Lkcpsn_Talk
  imports Lkcpsn Stations
begin

text \<open>
  Scripts that talk through \<open>lkcpsn.c\<close> and skynet: what a block sends is packed, travels as a packet
  of UDP, and is taken apart by \<open>unpack_package\<close> before it is handed to \<open>lkcp_input\<close> on the other side.
\<close>

text \<open>
  An event of the process with the results of the function called.  The scripts call \<open>lkcp_send\<close> with
  an address as its third argument (what happens otherwise is \<open>send_queues_then_fails\<close>).
\<close>

definition sn_calls ::
  "interpreter \<Rightarrow> 'v lua_api \<Rightarrow> bool \<Rightarrow> 'v sn_lua \<Rightarrow> 'v Lua.event \<Rightarrow> pushed list option \<Rightarrow> 'v sn_lua \<Rightarrow> bool" where
  "sn_calls lua api ctx w e r w' \<longleftrightarrow>
     (case e of
        Invoke name args L fails \<Rightarrow> sn_proper api w name args L \<and>
          (name = ''lkcp_send'' \<longrightarrow> checklstring api (arg args 3) \<noteq> None) \<and>
          (\<exists>f. map_of (sn_functions lua api ctx fails L) name = Some f \<and> f args w = Inr (r, w'))
      | Spawn t \<Rightarrow> r = None \<and> w' = w\<lparr>threads := insert t (threads w)\<rparr>
      | Die t \<Rightarrow> r = None \<and> w' = w\<lparr>threads := threads w - {t}\<rparr>)"

lemma sn_calls_step: "sn_calls lua api ctx w e r w' \<Longrightarrow> sn_step lua api ctx w e w'"
  by (cases e) (auto simp: sn_calls_def intro: sn_step.intros)

text \<open>The datagrams of conversation \<open>cv\<close> that the other side finds in the packets.\<close>

definition unpacked :: "u32 \<Rightarrow> packet list \<Rightarrow> u8 list set" where
  "unpacked cv out = {d. \<exists>(s, a, text) \<in> set out. unpack_package text = Some (cv, d)}"

lemma unpacked_none: "none_of_none (unpacked cv)"
  by (simp add: unpacked_def none_of_none_def)

lemma unpacked_packets:
  assumes "\<forall>d \<in> set sent. length d \<le> 1400"
  shows "unpacked cv (sn_packets w cv' c sent) \<subseteq> set sent"
proof
  fix x assume "x \<in> unpacked cv (sn_packets w cv' c sent)"
  then obtain d where d: "d \<in> set sent" "unpack_package (the (pack_output cv' d)) = Some (cv, x)"
    by (auto simp: unpacked_def sn_packets_def)
  then have l: "length d < 2 ^ 16" using assms by fastforce
  then have "unpack_package (the (pack_output cv' d)) = Some (cv', d)"
    using unpack_packed [OF l] by (simp add: pack_output_def)
  then show "x \<in> set sent" using d by simp
qed

text \<open>The end of a flush.\<close>

lemma sn_finish_picked:
  assumes "LL w = []" and "sn_good c" and "\<exists>x. course = Inr x \<and> (\<forall>d \<in> set (course_sent x). length d \<le> 1400)"
  obtains went thrown where "sn_finish lua ctx w i cv c course = finish w i c went thrown course"
    and "picked (unpacked cv') went thrown course"
proof -
  obtain a where a: "address c = Some a" using assms(2) by (auto simp: sn_good_def)
  obtain x where x: "course = Inr x" "\<forall>d \<in> set (course_sent x). length d \<le> 1400" using assms(3) by blast
  then have "\<forall>d \<in> set (course_sent x). length d < 2 ^ 16" by fastforce
  from sn_finish_eq [OF assms(1) a x(1) this]
  have "sn_finish lua ctx w i cv c course =
    finish w i c (sn_packets w cv c) (\<lambda>sent. sn_packets w cv c (butlast sent)) course" .
  moreover have "picked (unpacked cv') (sn_packets w cv c) (\<lambda>sent. sn_packets w cv c (butlast sent)) course"
    unfolding picked_def
  proof (intro conjI allI impI)
    fix sent k assume "course = Inr (Went (sent, k))"
    then show "unpacked cv' (sn_packets w cv c sent) \<subseteq> set sent"
      using x by (intro unpacked_packets) simp
  next
    fix sent k assume "course = Inr (Thrown sent k)"
    then have "\<forall>d \<in> set (butlast sent). length d \<le> 1400" using x by (auto dest: in_set_butlastD)
    then have "unpacked cv' (sn_packets w cv c (butlast sent)) \<subseteq> set (butlast sent)" by (rule unpacked_packets)
    then show "unpacked cv' (sn_packets w cv c (butlast sent)) \<subseteq> set sent" by (auto dest: in_set_butlastD)
  qed
  ultimately show ?thesis by (rule that)
qed

text \<open>The address may be replaced at the end of a call.\<close>

lemma tells_address:
  assumes "i < length (blocks w)" and "name \<noteq> ''lkcp_recv''"
    and "(runs inbox)\<^sup>*\<^sup>* p (noted api {} name args (Some [Integer hr]) k p)"
    and "checklstring api (arg args 3) = None \<Longrightarrow> (runs inbox)\<^sup>*\<^sup>* p (noted api {} name args None k p)"
  shows "tells api (unpacked cv) inbox w i name args p (sn_address api args w i k c hr)"
proof (cases "checklstring api (arg args 3)")
  case None
  then show ?thesis
    using tells_put [OF unpacked_none assms(1) assms(4)] by (simp add: sn_address_def str_arg_def raise_def)
next
  case (Some addr)
  show ?thesis
  proof (cases "store_address addr c (mem k)")
    case (Inr x)
    then obtain c' m where x: "store_address addr c (mem k) = Inr (c', m)" by (cases x) simp
    let ?n = "\<lambda>k. noted api {} name args (Some [Integer hr]) k p"
    have "runs inbox (?n k) ((?n k)\<lparr>kcb := (kcb (?n k))\<lparr>mem := m\<rparr>\<rparr>)" by (rule runs.others)
    moreover have "(?n k)\<lparr>kcb := (kcb (?n k))\<lparr>mem := m\<rparr>\<rparr> = ?n (k\<lparr>mem := m\<rparr>)" by (simp add: noted_def)
    ultimately have "(runs inbox)\<^sup>*\<^sup>* p (?n (k\<lparr>mem := m\<rparr>))" using assms(3) by (metis rtranclp.rtrancl_into_rtrancl)
    then show ?thesis
      using tells_put [OF unpacked_none assms(1)] Some x by (simp add: sn_address_def str_arg_def returns_def)
  qed (use Some in \<open>simp add: sn_address_def str_arg_def tells_crash\<close>)
qed

lemma sn_methods_tell:
  assumes "sn_ok b w" and "view w i = Some (kcb p)" and "kcp_arg api args w = Some i"
    and "(name, f) \<in> set (sn_methods lua api ctx fails L)" and "expected api inbox w name args"
    and "takes_little (kcb p)" and "name = ''lkcp_send'' \<longrightarrow> checklstring api (arg args 3) \<noteq> None"
  shows "tells api (unpacked cv) inbox w i name args p (f args w)"
proof -
  have ok: "world_ok sn_held sn_good b w" and ll: "LL w = []" using assms(1) by (simp_all add: sn_ok_def)
  obtain c where at: "kcp_at sn_held sn_good b w i (kcb p) c"
    and m: "\<And>g. with_kcp api args w g = g i (kcb p) c"
    using view_at [OF ok assms(2)] assms(3) by metis
  note inv = kcp_at_inv [OF at]
  have i: "i < length (blocks w)" using assms(3) by (rule kcp_arg_bound)
  have wf: "kcp_wf (kcb p)" using inv(1) by (simp add: kcp_inv_def)
  have buffer: "recv_buffer w" using ok by (simp add: world_ok_def)
  have good: "sn_good (c\<lparr>sn_eL := L\<rparr>)" using kcp_at_facts [OF at] by (simp add: sn_good_def)
  note args = tells_args [OF unpacked_none assms(2)]
  note data = tells_data [OF _ _ inv(3)]
  have "tells api (unpacked cv) inbox w i ''lkcp_recv'' args p (sn_recv api args w)"
    using tells_recv [OF unpacked_none i wf assms(6)] buffer by (simp add: sn_recv_def m)
  moreover have "tells api (unpacked cv) inbox w i ''lkcp_send'' args p (sn_send api args w)"
    if "expected api inbox w ''lkcp_send'' args" "checklstring api (arg args 3) \<noteq> None"
    unfolding sn_send_def m using that(2)
    by (intro args data(1) [OF that(1)] refl tells_address [OF i]) simp_all
  moreover have "tells api (unpacked cv) inbox w i ''lkcp_input'' args p (sn_input api args w)"
    if "expected api inbox w ''lkcp_input'' args"
    unfolding sn_input_def m by (intro args data(2) [OF that] refl tells_address [OF i]) simp_all
  moreover have "tells api (unpacked cv) inbox w i ''lkcp_check'' args p (sn_check api args w)"
    unfolding sn_check_def m Let_def
    by (intro args) (use assms(2) in \<open>simp add: tells_def returns_def noted_nothing between_def unpacked_def\<close>)
  moreover have "tells api (unpacked cv) inbox w i ''lkcp_wndsize'' args p (sn_wndsize api args w)"
    unfolding sn_wndsize_def m by (intro args tells_setters [OF unpacked_none i])
  moreover have "tells api (unpacked cv) inbox w i ''lkcp_nodelay'' args p (sn_nodelay api args w)"
    unfolding sn_nodelay_def m by (intro args tells_setters [OF unpacked_none i])
  moreover have "tells api (unpacked cv) inbox w i ''lkcp_update'' args p (sn_update lua api ctx fails L args w)"
    unfolding sn_update_def m Let_def
  proof (rule args(1))
    fix now
    let ?r = "raising_update (callback_raises ctx fails (c\<lparr>sn_eL := L\<rparr>)) (kcb p) now"
    obtain went thrown where f: "sn_finish lua ctx w i (conv (kcb p)) (c\<lparr>sn_eL := L\<rparr>) ?r =
        finish w i (c\<lparr>sn_eL := L\<rparr>) went thrown ?r" "picked (unpacked cv) went thrown ?r"
      by (rule sn_finish_picked [OF ll good course_bounds(2) [OF at]])
    from tells_flush(2) [OF i inv(1,4) f(2)] f(1)
    show "tells api (unpacked cv) inbox w i ''lkcp_update'' args p
        (sn_finish lua ctx w i (conv (kcb p)) (c\<lparr>sn_eL := L\<rparr>) ?r)" by simp
  qed
  moreover have "tells api (unpacked cv) inbox w i ''lkcp_flush'' args p (sn_flush lua api ctx fails L args w)"
  proof -
    let ?r = "raising_flush (callback_raises ctx fails (c\<lparr>sn_eL := L\<rparr>)) (kcb p)"
    obtain went thrown where f: "sn_finish lua ctx w i (conv (kcb p)) (c\<lparr>sn_eL := L\<rparr>) ?r =
        finish w i (c\<lparr>sn_eL := L\<rparr>) went thrown ?r" "picked (unpacked cv) went thrown ?r"
      by (rule sn_finish_picked [OF ll good course_bounds(1) [OF at]])
    from tells_flush(1) [OF i inv(1,4) f(2)] f(1) show ?thesis by (simp add: sn_flush_def m Let_def)
  qed
  ultimately show ?thesis using assms(4,5,7) by (auto simp: sn_methods_def)
qed

lemma spares_sn_finish [spares_rules]: "j \<noteq> i \<Longrightarrow> spares i w (sn_finish lua ctx w j cv c r)"
  by (auto simp: sn_finish_def Let_def intro!: spares_rules split: sum.split course.split)

lemma spares_address [spares_rules]: "j \<noteq> i \<Longrightarrow> spares i w (sn_address api args w j k c hr)"
  by (auto simp: sn_address_def str_arg_def intro!: spares_rules split: sum.split option.split)

lemma sn_functions_cases:
  assumes "map_of (sn_functions lua api ctx fails L) name = Some f"
  obtains "name = ''lkcp_create''" and "f = sn_create api L"
    | "(name, f) \<in> set (sn_methods lua api ctx fails L)"
    | "name = ''__gc''" and "f = sn_gc api"
  using map_of_SomeD [OF assms] by (auto simp: sn_functions_def sn_l_methods_def)

lemma sn_functions_spare:
  fixes w :: "'v sn_lua"
  assumes "map_of (sn_functions lua api ctx fails L) name = Some f"
    and "name = ''lkcp_create'' \<or> kcp_arg api args w \<noteq> Some i"
  shows "spares i w (f args w)"
  using assms(1)
proof (cases rule: sn_functions_cases)
  case 1
  then show ?thesis
    by (auto simp: sn_create_def Let_def int_arg_def str_arg_def returns_def raise_def spares_def nth_append
        split: prod.split sum.split option.split)
next
  case 2
  then have "name \<noteq> ''lkcp_create''" by (auto simp: sn_methods_def)
  then have "kcp_arg api args w \<noteq> Some i" using assms(2) by simp
  then have "spares i w (sn_recv api args w)" "spares i w (sn_send api args w)"
    "spares i w (sn_input api args w)" "spares i w (sn_check api args w)"
    "spares i w (sn_wndsize api args w)" "spares i w (sn_nodelay api args w)"
    "spares i w (sn_update lua api ctx fails L args w)" "spares i w (sn_flush lua api ctx fails L args w)"
    by (auto simp: sn_recv_def sn_send_def sn_input_def sn_check_def sn_wndsize_def
        sn_nodelay_def sn_update_def sn_flush_def Let_def intro!: spares_rules split: sum.split prod.split)
  then show ?thesis using 2 by (auto simp: sn_methods_def)
next
  case 3
  then have "kcp_arg api args w \<noteq> Some i" using assms(2) by auto
  then show ?thesis unfolding 3(2)
    by (auto simp: sn_gc_def Let_def returns_def raise_def spares_def split: option.split block.split)
qed

interpretation services: conversation "sn_calls lua api ctx" "between (unpacked cv)" api "\<lambda>w. \<exists>b. sn_ok b w"
  for lua and api :: "'v lua_api" and ctx and cv
proof
  fix w w' :: "'v sn_lua" and e r i and p and name args L fails inbox k
  show "\<exists>b. sn_ok b w \<Longrightarrow> sn_calls lua api ctx w e r w' \<Longrightarrow> \<exists>b. sn_ok b w'"
    using skynet.good_step sn_calls_step by metis
  show "\<exists>k. view w' i = Some k \<and> (runs inbox)\<^sup>*\<^sup>* p (noted api (between (unpacked cv) w w') name args r k p)"
    if a: "\<exists>b. sn_ok b w" "view w i = Some (kcb p)" "sn_calls lua api ctx w (Invoke name args L fails) r w'"
      "concerns api i w (Invoke name args L fails)" "expected api inbox w name args" "takes_little (kcb p)"
  proof -
    obtain f where f: "map_of (sn_functions lua api ctx fails L) name = Some f" "f args w = Inr (r, w')"
      and s: "name = ''lkcp_send'' \<longrightarrow> checklstring api (arg args 3) \<noteq> None"
      using a(3) by (auto simp: sn_calls_def)
    from f(1) have "(name, f) \<in> set (sn_methods lua api ctx fails L)"
      by (cases rule: sn_functions_cases) (use a(4,5) in \<open>auto simp: expected_def\<close>)
    then have "tells api (unpacked cv) inbox w i name args p (f args w)"
      using a s sn_methods_tell by fastforce
    then show ?thesis using f(2) by (simp add: tells_def)
  qed
  show "\<exists>m. view w' i = Some (k\<lparr>mem := m\<rparr>)"
    if a: "\<exists>b. sn_ok b w" "view w i = Some k" "sn_calls lua api ctx w e r w'" "\<not> concerns api i w e"
  proof (cases e)
    case (Invoke name args L fails)
    then obtain f where f: "map_of (sn_functions lua api ctx fails L) name = Some f" "f args w = Inr (r, w')"
      using a(3) by (auto simp: sn_calls_def)
    moreover have "name = ''lkcp_create'' \<or> kcp_arg api args w \<noteq> Some i" using a(4) Invoke by auto
    ultimately have "spares i w (Inr (r, w'))" using sn_functions_spare by metis
    then show ?thesis using a(2) by (rule spares_view)
  qed (use a view_same [of w' w i k] in \<open>auto simp: sn_calls_def\<close>)
qed

section \<open>What the scripts get\<close>

lemma sn_create_seat:
  assumes "sn_ok b w" and "sn_proper api w ''lkcp_create'' args L" and "sn_create api L args w = Inr (Some [Userdata i], w1)"
  obtains v where "checkinteger api (arg args 3) = Some v" and "\<exists>b. sn_ok b w1"
    and "view w1 i = Some (kcb (seat w1 i))" and "conv (kcb (seat w1 i)) = ucast v" and "fresh_end (seat w1 i)"
proof -
  obtain v m k co where v: "checkinteger api (arg args 3) = Some v" "ikcp_create m (ucast v) = Inr k"
    and w1: "i = length (blocks w)" "blocks w1 = blocks w @ [Live (k\<lparr>output_cb := True\<rparr>) co]" "pool w1 = mem k"
    using assms(3)
    by (fastforce simp: sn_create_def Let_def int_arg_def str_arg_def returns_def raise_def
        split: if_splits option.splits sum.splits prod.splits)
  have "map_of (sn_functions undefined api True (\<lambda>_. False) L) ''lkcp_create'' = Some (sn_create api L)"
    by (simp add: sn_functions_def sn_l_methods_def)
  from sn_functions_fine [OF assms(1,2) this] assms(3) have "\<exists>b. sn_ok b w1" by auto
  then show ?thesis using that v(1) new_seat [OF w1 v(2)] by blast
qed

lemma sn_created_meet:
  assumes "sn_ok b w" and "sn_proper api w ''lkcp_create'' args L"
    and "sn_create api L args w = Inr (Some [Userdata i], w1)"
    and "sn_ok b' v" and "sn_proper api v ''lkcp_create'' args' L'"
    and "sn_create api L' args' v = Inr (Some [Userdata j], v1)"
    and "checkinteger api (arg args 3) = checkinteger api (arg args' 3)"
  shows "services.meets i j ((w1, seat w1 i), (v1, seat v1 j))"
proof -
  obtain x where x: "checkinteger api (arg args 3) = Some x" "\<exists>b. sn_ok b w1"
    "view w1 i = Some (kcb (seat w1 i))" "conv (kcb (seat w1 i)) = ucast x" "fresh_end (seat w1 i)"
    by (rule sn_create_seat [OF assms(1-3)])
  obtain y where y: "checkinteger api (arg args' 3) = Some y" "\<exists>b. sn_ok b v1"
    "view v1 j = Some (kcb (seat v1 j))" "conv (kcb (seat v1 j)) = ucast y" "fresh_end (seat v1 j)"
    by (rule sn_create_seat [OF assms(4-6)])
  show ?thesis
    unfolding services.meets_def services.linked_def using x y assms(7) by simp
qed


end
