(* ===== verification/Talk_Witnesses.thy ===== *)
theory Talk_Witnesses
  imports Witnesses Lua_Witnesses Lkcp_Talk Lkcpsn_Talk
begin

text \<open>
  A message from one process to another, through each of the bindings, at which the properties of
  the scripts are applied.
\<close>

section \<open>The control blocks\<close>

lemma talk_sender: "n = 3 \<or> n = 4 \<Longrightarrow> case ikcp_nodelay (k_fresh n) (-1) (-1) (-1) 1 of (r0, l0) \<Rightarrow>
   r0 = 0 \<and> snd_queue l0 = [] \<and>
   (case ikcp_send l0 (Some [1, 2, 3]) 3 of
      Inl e \<Rightarrow> False
    | Inr (r, k) \<Rightarrow> r = 0 \<and> map piece (snd_queue k) = [(0, [1, 2, 3])] \<and>
        (case raising_update (\<lambda>_. False) k 0 of Inr (Went (sent, k')) \<Rightarrow> sent = [hello_datagram] | _ \<Rightarrow> False))"
  by (elim disjE; hypsubst; code_simp)

lemma talk_receiver: "n = 3 \<or> n = 4 \<Longrightarrow> case ikcp_input (k_fresh n) (Some hello_datagram) of
     Inl e \<Rightarrow> False
   | Inr (r, k) \<Rightarrow> r = 0 \<and> fst (ikcp_recv k True RECV_BUFFER_LEN) = 3 \<and>
       fst (snd (ikcp_recv k True RECV_BUFFER_LEN)) = [1, 2, 3]"
  by (elim disjE; hypsubst; code_simp)

lemma talk_values:
  assumes "n = 3 \<or> n = 4"
  obtains l0 l1 l2 l3 l4 where "ikcp_nodelay (k_fresh n) (-1) (-1) (-1) 1 = (0, l0)" and "snd_queue l0 = []"
    and "plentiful (mem l0)" and "ikcp_send l0 (Some [1, 2, 3]) 3 = Inr (0, l1)"
    and "map piece (snd_queue l1) = [(0, [1, 2, 3])]"
    and "raising_update (\<lambda>_. False) l1 0 = Inr (Went ([hello_datagram], l2))"
    and "ikcp_input (k_fresh n) (Some hello_datagram) = Inr (0, l3)"
    and "ikcp_recv l3 True RECV_BUFFER_LEN = (3, [1, 2, 3], l4)"
proof -
  obtain r0 l0 where l0: "ikcp_nodelay (k_fresh n) (-1) (-1) (-1) 1 = (r0, l0)" by fastforce
  note s = talk_sender [OF assms, unfolded l0 prod.case]
  have "mem l0 = mem (k_fresh n)" using l0 by (auto simp: ikcp_nodelay_def Let_def)
  then have m: "plentiful (mem l0)" by (simp add: k_fresh_def new_kcpcb_def)
  obtain l1 where l1: "ikcp_send l0 (Some [1, 2, 3]) 3 = Inr (0, l1)" "map piece (snd_queue l1) = [(0, [1, 2, 3])]"
    "case raising_update (\<lambda>_. False) l1 0 of Inr (Went (sent, k')) \<Rightarrow> sent = [hello_datagram] | _ \<Rightarrow> False"
    using s by (cases "ikcp_send l0 (Some [1, 2, 3]) 3") auto
  obtain l2 where l2: "raising_update (\<lambda>_. False) l1 0 = Inr (Went ([hello_datagram], l2))"
    using l1(3) by (auto split: sum.splits course.splits)
  obtain l3 where l3: "ikcp_input (k_fresh n) (Some hello_datagram) = Inr (0, l3)"
    "fst (ikcp_recv l3 True RECV_BUFFER_LEN) = 3" "fst (snd (ikcp_recv l3 True RECV_BUFFER_LEN)) = [1, 2, 3]"
    using talk_receiver [OF assms] by (cases "ikcp_input (k_fresh n) (Some hello_datagram)") auto
  obtain l4 where l4: "ikcp_recv l3 True RECV_BUFFER_LEN = (3, [1, 2, 3], l4)" using l3(2,3) by (metis prod.collapse)
  show ?thesis using that [of l0 l1 l2 l3 l4] l0 s m l1(1,2) l2 l3(1) l4 by simp
qed

section \<open>A process with one block\<close>

definition one_block :: "('v, 'c, 'o, 'x) lua_scheme \<Rightarrow> ikcpcb \<Rightarrow> 'c \<Rightarrow> bool" where
  "one_block w k c \<longleftrightarrow> blocks w = [Live k (Some c)] \<and> pool w = mem k \<and> 0 \<in> threads w \<and> recv_buffer w"

lemma one_block_simps [simp]:
  "one_block w k c \<Longrightarrow> with_kcp sample_api (Kcp 0 # args) w f = f 0 k c"
  "one_block w k c \<Longrightarrow> kcp_arg sample_api (Kcp 0 # args) w = Some 0"
  "one_block w k c \<Longrightarrow> view w 0 = Some k"
  "one_block w k c \<Longrightarrow> one_block (put w 0 k' c') k' c'"
  "one_block (w\<lparr>outbox := x\<rparr>) k c = one_block w k c"
  "one_block w k c \<Longrightarrow> recv_buffer w"
  by (simp_all add: one_block_def with_kcp_def kcp_arg_def arg_def sample_api_def view_def put_def)

lemma sample_args [simp]:
  "checkinteger sample_api a = (case a of Some (Num n) \<Rightarrow> Some n | _ \<Rightarrow> None)"
  "checklstring sample_api a = (case a of Some (Bytes s) \<Rightarrow> Some s | _ \<Rightarrow> None)"
  by (simp_all add: sample_api_def)

lemma small_numbers: "s32 3 = 3" "sint (ucast (-1 :: u64) :: u32) = -1"
  by (simp add: s32_def signed_take_bit_eq_if_positive) code_simp

lemmas arg_defs = small_numbers int_arg_def str_arg_def arg_def

lemma lkcp_own:
  assumes "one_block w k c" and "map_of (lkcp_functions sample_api (\<lambda>_. False) 0) name = Some f"
    and "name \<noteq> ''lkcp_create''" and "f (Kcp 0 # args) w = Inr (r, w')"
    and "expected sample_api X w name (Kcp 0 # args)" and "one_block w' k' c'"
  shows "scripts.station sample_api 0 X (w, p) (Invoke name (Kcp 0 # args) 0 (\<lambda>_. False))
    (w', noted sample_api (between given w w') name (Kcp 0 # args) r k' p)"
proof (rule scripts.station.own)
  have "lkcp_proper sample_api w name (Kcp 0 # args) 0"
    using assms(1,3,5) by (auto simp: lkcp_proper_def not_released_def expected_def) (simp_all add: one_block_def)
  then show "lkcp_calls sample_api w (Invoke name (Kcp 0 # args) 0 (\<lambda>_. False)) r w'"
    using assms(2,4) by (simp add: lkcp_calls_def)
qed (use assms in simp_all)

lemma lkcp_names:
  "map_of (lkcp_functions sample_api fails L) ''lkcp_nodelay'' = Some (lkcp_nodelay sample_api)"
  "map_of (lkcp_functions sample_api fails L) ''lkcp_send'' = Some (lkcp_send sample_api)"
  "map_of (lkcp_functions sample_api fails L) ''lkcp_update'' = Some (lkcp_update sample_api fails L)"
  "map_of (lkcp_functions sample_api fails L) ''lkcp_input'' = Some (lkcp_input sample_api)"
  "map_of (lkcp_functions sample_api fails L) ''lkcp_recv'' = Some (lkcp_recv sample_api)"
  by (simp_all add: lkcp_functions_def l_methods_def lkcp_methods_def)

section \<open>Through lkcp\<close>

abbreviation callback1 :: callback where "callback1 \<equiv> \<lparr>handle = 1, creator = 0, eL = 0\<rparr>"

lemma lkcp_talk:
  obtains events w p v q where "scripts.talk.run sample_api 0 0 ((p1, seat p1 0), (p1, seat p1 0)) events ((w, p), (v, q))"
    and "accepted p = [[1, 2, 3]]" and "returned q = [[1, 2, 3]]" and "length (stream p) = 1" and "stream q = []"
proof -
  obtain l0 l1 l2 l3 l4 where l: "ikcp_nodelay (k_fresh 3) (-1) (-1) (-1) 1 = (0, l0)" "snd_queue l0 = []"
    "plentiful (mem l0)" "ikcp_send l0 (Some [1, 2, 3]) 3 = Inr (0, l1)" "map piece (snd_queue l1) = [(0, [1, 2, 3])]"
    "raising_update (\<lambda>_. False) l1 0 = Inr (Went ([hello_datagram], l2))"
    "ikcp_input (k_fresh 3) (Some hello_datagram) = Inr (0, l3)"
    "ikcp_recv l3 True RECV_BUFFER_LEN = (3, [1, 2, 3], l4)"
    by (rule talk_values [of 3]) simp_all
  let ?w0 = "p1" and ?c = callback1
  let ?w1 = "put ?w0 0 l0 ?c"
  let ?w2 = "put ?w1 0 l1 ?c"
  let ?w3 = "(put ?w2 0 l2 ?c)\<lparr>outbox := outbox ?w2 @ [(Fun 3, hello_datagram)]\<rparr>"
  let ?v1 = "put ?w0 0 l3 ?c"
  let ?v2 = "put ?v1 0 l4 ?c"
  let ?nd = "[Num (-1), Num (-1), Num (-1), Num 1]" and ?up = "[Num 0]" and ?se = "[Bytes [1, 2, 3]]"
    and ?in = "[Bytes hello_datagram]"
  have b0: "one_block ?w0 (k_fresh 3) ?c"
    by (simp add: one_block_def p1_def p0_def mem_all_def k_fresh_def new_kcpcb_def)
  have b1: "one_block ?w1 l0 ?c" "one_block ?v1 l3 ?c" using b0 by simp_all
  have b2: "one_block ?w2 l1 ?c" using b1(1) by (rule one_block_simps(4))
  have b3: "one_block ?w3 l2 ?c" unfolding one_block_simps(5) by (rule one_block_simps(4) [OF b2])
  have b4: "one_block ?v2 l4 ?c" by (rule one_block_simps(4) [OF b1(2)])
  note b = b1(1) b2 b3 b1(2) b4
  have cb: "kcp_output_callback sample_api w ?c = Some (Fun 3)" if "registry w = registry p1" for w
    using that by (simp add: kcp_output_callback_def p1_def sample_api_def)
  have reg: "registry ?w2 = registry p1" by (simp add: put_def)
  have r: "lkcp_nodelay sample_api (Kcp 0 # ?nd) ?w0 = Inr (Some [Integer 0], ?w1)"
    "lkcp_send sample_api (Kcp 0 # ?se) ?w1 = Inr (Some [Integer 0], ?w2)"
    "lkcp_update sample_api (\<lambda>_. False) 0 (Kcp 0 # ?up) ?w2 = Inr (Some [], ?w3)"
    "lkcp_input sample_api (Kcp 0 # ?in) ?w0 = Inr (Some [Integer 0], ?v1)"
    "lkcp_recv sample_api (Kcp 0 # []) ?v1 = Inr (Some [Integer 3, Str [1, 2, 3]], ?v2)"
    using l
    by (simp_all add: one_block_simps(1) [OF b0] one_block_simps(1) [OF b(1)] one_block_simps(1) [OF b(2)]
        one_block_simps(1) [OF b(4)] one_block_simps(6) [OF b(4)] cb [OF reg] arg_defs lkcp_nodelay_def
        lkcp_send_def lkcp_update_def lkcp_input_def lkcp_recv_def returns_def finish_def called_def s32_nat Let_def)
  let ?p0 = "seat p1 0" and ?no = "\<lambda>w w'. noted sample_api (between given w w')"
  let ?p1 = "?no ?w0 ?w1 ''lkcp_nodelay'' (Kcp 0 # ?nd) (Some [Integer 0]) l0 ?p0"
  let ?p2 = "?no ?w1 ?w2 ''lkcp_send'' (Kcp 0 # ?se) (Some [Integer 0]) l1 ?p1"
  let ?p3 = "?no ?w2 ?w3 ''lkcp_update'' (Kcp 0 # ?up) (Some []) l2 ?p2"
  let ?q1 = "?no ?w0 ?v1 ''lkcp_input'' (Kcp 0 # ?in) (Some [Integer 0]) l3 ?p0"
  let ?q2 = "?no ?v1 ?v2 ''lkcp_recv'' (Kcp 0 # []) (Some [Integer 3, Str [1, 2, 3]]) l4 ?q1"
  have hello: "hello_datagram \<in> emitted ?p3" by (simp add: noted_def between_def given_def)
  have st1: "scripts.station sample_api 0 X (?w0, ?p0) (Invoke ''lkcp_nodelay'' (Kcp 0 # ?nd) 0 (\<lambda>_. False)) (?w1, ?p1)" for X
    by (rule lkcp_own [OF b0 lkcp_names(1) _ r(1) _ b(1)]) (simp_all add: expected_def)
  have st2: "scripts.station sample_api 0 X (?w1, ?p1) (Invoke ''lkcp_send'' (Kcp 0 # ?se) 0 (\<lambda>_. False)) (?w2, ?p2)" for X
    by (rule lkcp_own [OF b(1) lkcp_names(2) _ r(2) _ b(2)]) (use l(3) in \<open>simp_all add: expected_def put_def arg_def\<close>)
  have st3: "scripts.station sample_api 0 X (?w2, ?p2) (Invoke ''lkcp_update'' (Kcp 0 # ?up) 0 (\<lambda>_. False)) (?w3, ?p3)" for X
    by (rule lkcp_own [OF b(2) lkcp_names(3) _ r(3) _ b(3)]) (simp_all add: expected_def)
  have st4: "scripts.station sample_api 0 (emitted ?p3) (?w0, ?p0) (Invoke ''lkcp_input'' (Kcp 0 # ?in) 0 (\<lambda>_. False)) (?v1, ?q1)"
    by (rule lkcp_own [OF b0 lkcp_names(4) _ r(4) _ b(4)]) (use hello in \<open>simp_all add: expected_def arg_def\<close>)
  have st5: "scripts.station sample_api 0 X (?v1, ?q1) (Invoke ''lkcp_recv'' (Kcp 0 # []) 0 (\<lambda>_. False)) (?v2, ?q2)" for X
    by (rule lkcp_own [OF b(4) lkcp_names(5) _ r(5) _ b(5)]) (simp_all add: expected_def)
  have "scripts.talks sample_api 0 0 ((?w0, ?p0), (?w0, ?p0)) (True, Invoke ''lkcp_nodelay'' (Kcp 0 # ?nd) 0 (\<lambda>_. False)) ((?w1, ?p1), (?w0, ?p0))"
    "scripts.talks sample_api 0 0 ((?w1, ?p1), (?w0, ?p0)) (True, Invoke ''lkcp_send'' (Kcp 0 # ?se) 0 (\<lambda>_. False)) ((?w2, ?p2), (?w0, ?p0))"
    "scripts.talks sample_api 0 0 ((?w2, ?p2), (?w0, ?p0)) (True, Invoke ''lkcp_update'' (Kcp 0 # ?up) 0 (\<lambda>_. False)) ((?w3, ?p3), (?w0, ?p0))"
    "scripts.talks sample_api 0 0 ((?w3, ?p3), (?w0, ?p0)) (False, Invoke ''lkcp_input'' (Kcp 0 # ?in) 0 (\<lambda>_. False)) ((?w3, ?p3), (?v1, ?q1))"
    "scripts.talks sample_api 0 0 ((?w3, ?p3), (?v1, ?q1)) (False, Invoke ''lkcp_recv'' (Kcp 0 # []) 0 (\<lambda>_. False)) ((?w3, ?p3), (?v2, ?q2))"
    unfolding scripts.talks_def fst_conv snd_conv using st1 st2 st3 st4 st5 by simp_all
  then have "\<exists>events. scripts.talk.run sample_api 0 0 ((?w0, ?p0), (?w0, ?p0)) events ((?w3, ?p3), (?v2, ?q2))"
    by (blast intro: scripts.talk.run.intros)
  moreover have "accepted ?p3 = [[1, 2, 3]]" "returned ?q2 = [[1, 2, 3]]" "stream ?q2 = []"
    by (simp_all add: noted_def seat_def arg_def)
  moreover have "length (stream ?p3) = 1"
  proof -
    have "stream ?p3 = map piece (drop (length (snd_queue l0)) (snd_queue l1))" by (simp add: noted_def seat_def)
    then show ?thesis using l(2,5) by simp
  qed
  ultimately show ?thesis using that by blast
qed

theorem scripts_deliver_witness:
  "\<exists>events w p v q. scripts.talk.run sample_api 0 0 ((p1, seat p1 0), (p1, seat p1 0)) events ((w, p), (v, q)) \<and>
     accepted p = [[1, 2, 3]] \<and> returned q = take 1 (accepted p)"
proof -
  obtain events w p v q where t: "scripts.talk.run sample_api 0 0 ((p1, seat p1 0), (p1, seat p1 0)) events ((w, p), (v, q))"
    "accepted p = [[1, 2, 3]]" "returned q = [[1, 2, 3]]" "length (stream p) = 1" "stream q = []" by (rule lkcp_talk)
  have "plain.run sample_api p0 [] p0" by (rule plain.run.intros)
  from scripts_deliver [OF p0_facts(1) this p0_create p0_facts(1) this p0_create refl t(1)] t(4,5)
  have "returned q = take (length (returned q)) (accepted p)" by simp
  then have "returned q = take 1 (accepted p)" using t(3) by simp
  then show ?thesis using t(1,2) by blast
qed

section \<open>Through lkcpsn\<close>

lemma sn_own:
  assumes "one_block w k c" and "map_of (sn_functions sample_lua sample_api True (\<lambda>_. False) 0) name = Some f"
    and "name \<noteq> ''lkcp_create''" and "f (Kcp 0 # args) w = Inr (r, w')"
    and "expected sample_api X w name (Kcp 0 # args)" and "one_block w' k' c'"
    and "name = ''lkcp_send'' \<longrightarrow> checklstring sample_api (arg (Kcp 0 # args) 3) \<noteq> None"
  shows "services.station sample_lua sample_api True cv 0 X (w, p) (Invoke name (Kcp 0 # args) 0 (\<lambda>_. False))
    (w', noted sample_api (between (unpacked cv) w w') name (Kcp 0 # args) r k' p)"
proof (rule services.station.own)
  have "sn_proper sample_api w name (Kcp 0 # args) 0"
    using assms(1,3) by (auto simp: sn_proper_def not_released_def) (simp_all add: one_block_def)
  then show "sn_calls sample_lua sample_api True w (Invoke name (Kcp 0 # args) 0 (\<lambda>_. False)) r w'"
    using assms(2,4,7) by (simp add: sn_calls_def)
qed (use assms in simp_all)

lemma sn_names:
  "map_of (sn_functions lua sample_api ctx fails L) ''lkcp_nodelay'' = Some (sn_nodelay sample_api)"
  "map_of (sn_functions lua sample_api ctx fails L) ''lkcp_send'' = Some (sn_send sample_api)"
  "map_of (sn_functions lua sample_api ctx fails L) ''lkcp_update'' = Some (sn_update lua sample_api ctx fails L)"
  "map_of (sn_functions lua sample_api ctx fails L) ''lkcp_input'' = Some (sn_input sample_api)"
  "map_of (sn_functions lua sample_api ctx fails L) ''lkcp_recv'' = Some (sn_recv sample_api)"
  by (simp_all add: sn_functions_def sn_l_methods_def sn_methods_def)

lemma store_same: "store_address addr4 (peer addr4) m = Inr (peer addr4, m)"
  by (simp add: store_address_def peer_def addr4_def Let_def)

definition hello_packet :: packet where
  "hello_packet = (5, addr4 @ [0], be32 7 @ be16 27 @ hello_datagram)"

lemma hello_unpacked: "unpacked 7 [hello_packet] = {hello_datagram}"
proof -
  have "length hello_datagram = 27" by (simp add: hello_datagram_def)
  then show ?thesis using unpack_packed [of hello_datagram 7] by (auto simp: unpacked_def hello_packet_def)
qed

lemma sn_talk:
  obtains events w p v q where
    "services.talk.run sample_lua sample_api True 7 0 0 ((s1, seat s1 0), (s1, seat s1 0)) events ((w, p), (v, q))"
    and "accepted p = [[1, 2, 3]]" and "returned q = [[1, 2, 3]]" and "length (stream p) = 1" and "stream q = []"
proof -
  obtain l0 l1 l2 l3 l4 where l: "ikcp_nodelay (k_fresh 4) (-1) (-1) (-1) 1 = (0, l0)" "snd_queue l0 = []"
    "plentiful (mem l0)" "ikcp_send l0 (Some [1, 2, 3]) 3 = Inr (0, l1)" "map piece (snd_queue l1) = [(0, [1, 2, 3])]"
    "raising_update (\<lambda>_. False) l1 0 = Inr (Went ([hello_datagram], l2))"
    "ikcp_input (k_fresh 4) (Some hello_datagram) = Inr (0, l3)"
    "ikcp_recv l3 True RECV_BUFFER_LEN = (3, [1, 2, 3], l4)"
    by (rule talk_values [of 4]) simp_all
  have conv: "conv l1 = 7"
  proof -
    have "conv l0 = 7" using l(1) by (auto simp: ikcp_nodelay_def Let_def k_fresh_def new_kcpcb_def)
    moreover have "kcp_wf l0"
      using nodelay_wf [OF s1_kcp(4), of "-1" "-1" "-1" 1] l(1) by simp
    ultimately show ?thesis using send_grows [OF l(4)] by (auto simp: grows_to_def grown_def)
  qed
  let ?w0 = "s1" and ?c = "peer addr4"
  let ?w1 = "put ?w0 0 l0 ?c"
  let ?w2 = "put ?w1 0 l1 ?c"
  let ?w3 = "(put ?w2 0 l2 ?c)\<lparr>outbox := outbox ?w2 @ [hello_packet]\<rparr>"
  let ?v1 = "put ?w0 0 l3 ?c"
  let ?v2 = "put ?v1 0 l4 ?c"
  let ?nd = "[Num (-1), Num (-1), Num (-1), Num 1]" and ?up = "[Num 0]" and ?se = "[Bytes [1, 2, 3], Bytes addr4]"
    and ?in = "[Bytes hello_datagram, Bytes addr4]"
  have b0: "one_block ?w0 (k_fresh 4) ?c"
    by (simp add: one_block_def s1_def s0_def mem_all_def k_fresh_def new_kcpcb_def)
  have b1: "one_block ?w1 l0 ?c" "one_block ?v1 l3 ?c" using b0 by simp_all
  have b2: "one_block ?w2 l1 ?c" using b1(1) by (rule one_block_simps(4))
  have b3: "one_block ?w3 l2 ?c" unfolding one_block_simps(5) by (rule one_block_simps(4) [OF b2])
  have b4: "one_block ?v2 l4 ?c" by (rule one_block_simps(4) [OF b1(2)])
  note b = b1(1) b2 b3 b1(2) b4
  have pk: "sn_packet sample_lua w 7 ?c hello_datagram = Some hello_packet" if "LL w = []" "svrsock w = 5" for w
  proof -
    have "length hello_datagram = 27" by (simp add: hello_datagram_def)
    then show ?thesis
      using sn_packet_alone [of w ?c "addr4 @ [0]" hello_datagram sample_lua 7] that
      by (simp add: peer_def pack_output_def hello_packet_def)
  qed
  have calm: "callback_raises True (\<lambda>_. False) ?c = (\<lambda>_. False)"
    by (simp add: callback_raises_def peer_def fun_eq_iff)
  have eL: "?c\<lparr>sn_eL := 0\<rparr> = ?c" by (simp add: peer_def)
  have ll: "LL ?w2 = []" "svrsock ?w2 = 5" by (simp_all add: s1_def s0_def)
  have same: "put (put w 0 k c) 0 k' c' = put w 0 k' c'" for w :: "sample sn_lua" and k k' c c'
    by (simp add: put_def)
  have again: "put w 0 (k\<lparr>mem := mem k\<rparr>) c = put w 0 k c" for w :: "sample sn_lua" and k c by simp
  have r: "sn_nodelay sample_api (Kcp 0 # ?nd) ?w0 = Inr (Some [Integer 0], ?w1)"
    "sn_send sample_api (Kcp 0 # ?se) ?w1 = Inr (Some [Integer 0], ?w2)"
    "sn_update sample_lua sample_api True (\<lambda>_. False) 0 (Kcp 0 # ?up) ?w2 = Inr (Some [], ?w3)"
    "sn_input sample_api (Kcp 0 # ?in) ?w0 = Inr (Some [Integer 0], ?v1)"
    "sn_recv sample_api (Kcp 0 # []) ?v1 = Inr (Some [Integer 3, Str [1, 2, 3]], ?v2)"
    using l
    by (simp_all add: one_block_simps(1) [OF b0] one_block_simps(1) [OF b(1)] one_block_simps(1) [OF b(2)]
        one_block_simps(1) [OF b(4)] one_block_simps(6) [OF b(4)] pk [OF ll] calm eL conv arg_defs sn_nodelay_def sn_send_def sn_update_def sn_input_def sn_recv_def returns_def
        sn_finish_def finish_def sn_address_def store_same s32_nat Let_def)
  let ?p0 = "seat s1 0" and ?no = "\<lambda>w w'. noted sample_api (between (unpacked 7) w w')"
  let ?p1 = "?no ?w0 ?w1 ''lkcp_nodelay'' (Kcp 0 # ?nd) (Some [Integer 0]) l0 ?p0"
  let ?p2 = "?no ?w1 ?w2 ''lkcp_send'' (Kcp 0 # ?se) (Some [Integer 0]) l1 ?p1"
  let ?p3 = "?no ?w2 ?w3 ''lkcp_update'' (Kcp 0 # ?up) (Some []) l2 ?p2"
  let ?q1 = "?no ?w0 ?v1 ''lkcp_input'' (Kcp 0 # ?in) (Some [Integer 0]) l3 ?p0"
  let ?q2 = "?no ?v1 ?v2 ''lkcp_recv'' (Kcp 0 # []) (Some [Integer 3, Str [1, 2, 3]]) l4 ?q1"
  have hello: "hello_datagram \<in> emitted ?p3" by (simp add: noted_def between_def hello_unpacked)
  note own = sn_own [where cv = 7]
  have st1: "services.station sample_lua sample_api True 7 0 X (?w0, ?p0) (Invoke ''lkcp_nodelay'' (Kcp 0 # ?nd) 0 (\<lambda>_. False)) (?w1, ?p1)" for X
    by (rule own [OF b0 sn_names(1) _ r(1) _ b(1)]) (simp_all add: expected_def)
  have st2: "services.station sample_lua sample_api True 7 0 X (?w1, ?p1) (Invoke ''lkcp_send'' (Kcp 0 # ?se) 0 (\<lambda>_. False)) (?w2, ?p2)" for X
    by (rule own [OF b(1) sn_names(2) _ r(2) _ b(2)]) (use l(3) in \<open>simp_all add: expected_def put_def arg_def\<close>)
  have st3: "services.station sample_lua sample_api True 7 0 X (?w2, ?p2) (Invoke ''lkcp_update'' (Kcp 0 # ?up) 0 (\<lambda>_. False)) (?w3, ?p3)" for X
    by (rule own [OF b(2) sn_names(3) _ r(3) _ b(3)]) (simp_all add: expected_def)
  have st4: "services.station sample_lua sample_api True 7 0 (emitted ?p3) (?w0, ?p0) (Invoke ''lkcp_input'' (Kcp 0 # ?in) 0 (\<lambda>_. False)) (?v1, ?q1)"
    by (rule own [OF b0 sn_names(4) _ r(4) _ b(4)]) (use hello in \<open>simp_all add: expected_def arg_def\<close>)
  have st5: "services.station sample_lua sample_api True 7 0 X (?v1, ?q1) (Invoke ''lkcp_recv'' (Kcp 0 # []) 0 (\<lambda>_. False)) (?v2, ?q2)" for X
    by (rule own [OF b(4) sn_names(5) _ r(5) _ b(5)]) (simp_all add: expected_def)
  have "services.talks sample_lua sample_api True 7 0 0 ((?w0, ?p0), (?w0, ?p0)) (True, Invoke ''lkcp_nodelay'' (Kcp 0 # ?nd) 0 (\<lambda>_. False)) ((?w1, ?p1), (?w0, ?p0))"
    "services.talks sample_lua sample_api True 7 0 0 ((?w1, ?p1), (?w0, ?p0)) (True, Invoke ''lkcp_send'' (Kcp 0 # ?se) 0 (\<lambda>_. False)) ((?w2, ?p2), (?w0, ?p0))"
    "services.talks sample_lua sample_api True 7 0 0 ((?w2, ?p2), (?w0, ?p0)) (True, Invoke ''lkcp_update'' (Kcp 0 # ?up) 0 (\<lambda>_. False)) ((?w3, ?p3), (?w0, ?p0))"
    "services.talks sample_lua sample_api True 7 0 0 ((?w3, ?p3), (?w0, ?p0)) (False, Invoke ''lkcp_input'' (Kcp 0 # ?in) 0 (\<lambda>_. False)) ((?w3, ?p3), (?v1, ?q1))"
    "services.talks sample_lua sample_api True 7 0 0 ((?w3, ?p3), (?v1, ?q1)) (False, Invoke ''lkcp_recv'' (Kcp 0 # []) 0 (\<lambda>_. False)) ((?w3, ?p3), (?v2, ?q2))"
    unfolding services.talks_def fst_conv snd_conv using st1 st2 st3 st4 st5 by simp_all
  then have "\<exists>events. services.talk.run sample_lua sample_api True 7 0 0 ((?w0, ?p0), (?w0, ?p0)) events ((?w3, ?p3), (?v2, ?q2))"
    by (blast intro: services.talk.run.intros)
  moreover have "accepted ?p3 = [[1, 2, 3]]" "returned ?q2 = [[1, 2, 3]]" "stream ?q2 = []"
    by (simp_all add: noted_def seat_def arg_def)
  moreover have "length (stream ?p3) = 1"
  proof -
    have "stream ?p3 = map piece (drop (length (snd_queue l0)) (snd_queue l1))" by (simp add: noted_def seat_def)
    then show ?thesis using l(2,5) by simp
  qed
  ultimately show ?thesis using that by blast
qed


end
