(* ===== verification/Allocator.thy ===== *)
theory Allocator
  imports Machine
begin

text \<open>
  The hooks of the allocator: \<open>ikcp_allocator\<close> replaces the functions behind \<open>ikcp_malloc\<close> and
  \<open>ikcp_free\<close>.  The functions themselves belong to the client or to the C library and are parameters.
  The other theories know of the allocator only what it answers and how many blocks are in use (the
  record \<open>memory\<close>); here this is shown to be all that the hooks do, as long as they are replaced in
  pairs and while no block is in use.
\<close>

section \<open>The hooks\<close>

text \<open>Where a block comes from: from \<open>malloc\<close>, or from one of the allocators of the client.\<close>

datatype 'f home = C_library | Client 'f

record 'f hooks =
  malloc_hook :: "'f option"
  free_hook :: "'f option"

definition ikcp_allocator :: "'f option \<Rightarrow> 'f option \<Rightarrow> 'f hooks \<Rightarrow> 'f hooks" where
  "ikcp_allocator new_malloc new_free h = h\<lparr>malloc_hook := new_malloc, free_hook := new_free\<rparr>"

text \<open>\<open>ikcp_malloc\<close> and \<open>ikcp_free\<close>: a call of the hook, or of the function of the library.\<close>

definition hooked_malloc ::
  "('f home \<Rightarrow> nat \<Rightarrow> 's \<Rightarrow> nat option \<times> 's) \<Rightarrow> 'f hooks \<Rightarrow> nat \<Rightarrow> 's \<Rightarrow> nat option \<times> 's" where
  "hooked_malloc mal h n s =
     (case malloc_hook h of Some f \<Rightarrow> mal (Client f) n s | None \<Rightarrow> mal C_library n s)"

definition hooked_free ::
  "('f home \<Rightarrow> nat \<Rightarrow> 's \<Rightarrow> 's outcome) \<Rightarrow> 'f hooks \<Rightarrow> nat \<Rightarrow> 's \<Rightarrow> 's outcome" where
  "hooked_free fre h p s =
     (case free_hook h of Some f \<Rightarrow> fre (Client f) p s | None \<Rightarrow> fre C_library p s)"

section \<open>What is expected of the allocators and of the client\<close>

text \<open>
  An allocator hands out blocks that are not in use, and takes back the blocks it has handed out.
  Nothing is said of a block that is given to another allocator.
\<close>

definition allocator_law ::
  "('f home \<Rightarrow> nat \<Rightarrow> 's \<Rightarrow> nat option \<times> 's) \<Rightarrow> ('f home \<Rightarrow> nat \<Rightarrow> 's \<Rightarrow> 's outcome) \<Rightarrow>
   ('s \<Rightarrow> nat \<Rightarrow> 'f home option) \<Rightarrow> bool" where
  "allocator_law mal fre owner \<longleftrightarrow>
     (\<forall>a n s. case mal a n s of
        (None, s') \<Rightarrow> owner s' = owner s
      | (Some p, s') \<Rightarrow> owner s p = None \<and> owner s' = (owner s)(p \<mapsto> a)) \<and>
     (\<forall>a p s. owner s p = Some a \<longrightarrow> (\<exists>s'. fre a p s = Inr s' \<and> owner s' = (owner s)(p := None)))"

datatype 'f request = Get nat | Give_back nat | Install "'f option" "'f option"

inductive hook_step for mal fre owner where
  get: "hooked_malloc mal h n s = (r, s') \<Longrightarrow> hook_step mal fre owner (h, s) (Get n) (h, s')"
| give_back: "owner s p \<noteq> None \<Longrightarrow> hooked_free fre h p s = Inr s' \<Longrightarrow>
    hook_step mal fre owner (h, s) (Give_back p) (h, s')"
| install: "owner s = Map.empty \<Longrightarrow>
    hook_step mal fre owner (h, s) (Install a a) (ikcp_allocator a a h, s)"

inductive_cases hook_stepE: "hook_step mal fre owner (h, s) e t"

section \<open>Every block goes back to the allocator it came from\<close>

fun home_of :: "'f option \<Rightarrow> 'f home" where
  "home_of None = C_library"
| "home_of (Some f) = Client f"

lemma hooked_home:
  "hooked_malloc mal h = mal (home_of (malloc_hook h))" "hooked_free fre h = fre (home_of (free_hook h))"
  by (auto simp: hooked_malloc_def hooked_free_def fun_eq_iff split: option.split)

definition hooks_start where
  "hooks_start mal fre owner = (\<lambda>(h, s). allocator_law mal fre owner \<and> malloc_hook h = free_hook h \<and> owner s = Map.empty)"

definition hooks_ok where
  "hooks_ok mal fre owner = (\<lambda>(h, s). allocator_law mal fre owner \<and> malloc_hook h = free_hook h \<and>
     finite (dom (owner s)) \<and> ran (owner s) \<subseteq> {home_of (malloc_hook h)})"

lemma hooks_ok_malloc:
  assumes "hooks_ok mal fre owner (h, s)" and "hooked_malloc mal h n s = (r, s')"
  obtains "r = None" and "owner s' = owner s"
    | p where "r = Some p" and "owner s p = None" and "owner s' = (owner s)(p \<mapsto> home_of (malloc_hook h))"
proof -
  have law: "\<forall>a n s. case mal a n s of (None, s') \<Rightarrow> owner s' = owner s
      | (Some p, s') \<Rightarrow> owner s p = None \<and> owner s' = (owner s)(p \<mapsto> a)"
    using assms(1) unfolding hooks_ok_def allocator_law_def by simp
  have r: "mal (home_of (malloc_hook h)) n s = (r, s')" using assms(2) by (simp add: hooked_home)
  show ?thesis
    using law [rule_format, where a = "home_of (malloc_hook h)" and n = n and s = s] that unfolding r by (cases r) auto
qed

lemma hooks_ok_free:
  assumes "hooks_ok mal fre owner (h, s)" and "owner s p \<noteq> None"
  shows "\<exists>s'. hooked_free fre h p s = Inr s' \<and> owner s' = (owner s)(p := None)"
proof -
  have "owner s p = Some (home_of (free_hook h))"
    using assms by (auto simp: hooks_ok_def ran_def)
  then show ?thesis using assms(1) by (simp add: hooks_ok_def allocator_law_def hooked_home)
qed

interpretation hooked: step_system "hooks_start mal fre owner" "hook_step mal fre owner" "hooks_ok mal fre owner"
  for mal fre owner
proof
  show "hooks_start mal fre owner s \<Longrightarrow> hooks_ok mal fre owner s" for s
    by (auto simp: hooks_start_def hooks_ok_def)
  show "hooks_ok mal fre owner s'" if ok: "hooks_ok mal fre owner s" and st: "hook_step mal fre owner s l s'" for s l s'
    using st
  proof cases
    case (get h n s r s')
    have good: "hooks_ok mal fre owner (h, s)" using ok get by simp
    show ?thesis unfolding get
      by (rule hooks_ok_malloc [OF good get(4)]) (use good in \<open>auto simp: hooks_ok_def ran_def\<close>)
  next
    case (give_back s p h s')
    have good: "hooks_ok mal fre owner (h, s)" using ok give_back by simp
    then have "owner s' = (owner s)(p := None)" using hooks_ok_free [OF good give_back(4)] give_back(5) by simp
    then show ?thesis using good unfolding give_back by (auto simp: hooks_ok_def ran_def split: if_splits)
  next
    case (install s h a)
    then show ?thesis using ok by (simp add: hooks_ok_def ikcp_allocator_def)
  qed
qed

lemma blocks_go_home:
  assumes "hooks_start mal fre owner (h0, s0)" and "hooked.run mal fre owner (h0, s0) events (h, s)"
    and "owner s p \<noteq> None"
  shows "\<exists>s'. hooked_free fre h p s = Inr s' \<and> owner s' = (owner s)(p := None)"
  using hooked.reachable_good [OF assms(1,2)] assms(3) by (rule hooks_ok_free)

section \<open>The allocator of the other theories\<close>

text \<open>The events as the other theories see them: requests that are answered, and blocks given back.\<close>

fun replay :: "'f request list \<Rightarrow> memory \<Rightarrow> memory" where
  "replay [] m = m"
| "replay (Get n # es) m = replay es (snd (ikcp_malloc m))"
| "replay (Give_back p # es) m = replay es (ikcp_free m)"
| "replay (Install a b # es) m = replay es m"

lemma hooks_replayed:
  assumes "hooked.run mal fre owner t events t'" and "hooks_ok mal fre owner t"
  shows "\<exists>f. live (replay events \<lparr>answers = f, live = int (card (dom (owner (snd t))))\<rparr>) = int (card (dom (owner (snd t'))))"
  using assms
proof (induction rule: hooked.run.induct)
  case (stop t)
  then show ?case by simp
next
  case (more t e t' es t'')
  have ok: "hooks_ok mal fre owner t'" using hooked.good_step more by blast
  then obtain f where f: "live (replay es \<lparr>answers = f, live = int (card (dom (owner (snd t'))))\<rparr>) = int (card (dom (owner (snd t''))))"
    using more by blast
  show ?case using more.hyps(1)
  proof cases
    case (get h n s r s')
    let ?g = "case_nat (r \<noteq> None) f"
    have fin: "finite (dom (owner s))" using more.prems get by (simp add: hooks_ok_def)
    have good: "hooks_ok mal fre owner (h, s)" using more.prems get by simp
    have "snd (ikcp_malloc \<lparr>answers = ?g, live = int (card (dom (owner s)))\<rparr>) =
        \<lparr>answers = f, live = int (card (dom (owner s')))\<rparr>"
    proof (rule hooks_ok_malloc [OF good get(4)])
      fix p assume p: "r = Some p" "owner s p = None" "owner s' = (owner s)(p \<mapsto> home_of (malloc_hook h))"
      then have "card (dom (owner s')) = Suc (card (dom (owner s)))"
        using fin by (simp add: card_insert_if domIff)
      then show ?thesis using p(1) by (simp add: ikcp_malloc_def)
    qed (simp add: ikcp_malloc_def)
    then have "replay (Get n # es) \<lparr>answers = ?g, live = int (card (dom (owner s)))\<rparr> =
        replay es \<lparr>answers = f, live = int (card (dom (owner s')))\<rparr>" by (simp only: replay.simps)
    then show ?thesis
      unfolding get(1,2) by (intro exI [of _ ?g]) (use f get(3) in \<open>simp only: snd_conv\<close>)
  next
    case (give_back s p h s')
    have fin: "finite (dom (owner s))" using more.prems give_back by (simp add: hooks_ok_def)
    have p: "p \<in> dom (owner s)" "owner s' = (owner s)(p := None)"
      using hooks_ok_free [of mal fre owner h s p] more.prems give_back by auto
    then have "card (dom (owner s)) = Suc (card (dom (owner s')))"
      using card_Suc_Diff1 [OF fin p(1)] by simp
    then have "ikcp_free \<lparr>answers = f, live = int (card (dom (owner s)))\<rparr> = \<lparr>answers = f, live = int (card (dom (owner s')))\<rparr>"
      by (simp add: ikcp_free_def)
    then show ?thesis using give_back f by (intro exI [of _ f]) simp
  next
    case (install s h a)
    then show ?thesis using f by auto
  qed
qed

text \<open>
  In every run of requests, from no block in use, there are answers with which the record \<open>memory\<close>
  counts the blocks that are in use: what the other theories show for all answers holds for all hooks.
\<close>

lemma hooks_refine_memory:
  assumes "hooks_start mal fre owner (h0, s0)" and "hooked.run mal fre owner (h0, s0) events (h, s)"
  shows "\<exists>f. live (replay events \<lparr>answers = f, live = 0\<rparr>) = int (card (dom (owner s)))"
proof -
  have "hooks_ok mal fre owner (h0, s0)" using hooked.good_start assms(1) by blast
  moreover have "owner s0 = Map.empty" using assms(1) by (simp add: hooks_start_def)
  ultimately show ?thesis using hooks_replayed [OF assms(2)] by simp
qed

section \<open>Hooks replaced too early\<close>

text \<open>
  A client with numbered blocks, in which an allocator that is given a block of another one aborts.
  \<open>ikcp_allocator\<close> does not look whether blocks are in use: one that was obtained before the
  call goes to the wrong allocator after it.
\<close>

definition arena_malloc :: "'f home \<Rightarrow> nat \<Rightarrow> 'f home option list \<Rightarrow> nat option \<times> 'f home option list" where
  "arena_malloc a n s = (Some (length s), s @ [Some a])"

definition arena_owner :: "'f home option list \<Rightarrow> nat \<Rightarrow> 'f home option" where
  "arena_owner s p = (if p < length s then s ! p else None)"

definition arena_free :: "'f home \<Rightarrow> nat \<Rightarrow> 'f home option list \<Rightarrow> 'f home option list outcome" where
  "arena_free a p s = (if arena_owner s p = Some a then Inr (s[p := None]) else Inl Aborted)"

lemma arena_law: "allocator_law arena_malloc arena_free arena_owner"
  by (auto simp: allocator_law_def arena_malloc_def arena_free_def arena_owner_def fun_eq_iff nth_append less_Suc_eq)

lemma hooks_replaced_early:
  assumes "hooked_malloc arena_malloc h n s = (Some p, s')" and "a \<noteq> malloc_hook h"
  shows "hooked_free arena_free (ikcp_allocator a a h) p s' = Inl Aborted"
  using assms
  by (cases a; cases "malloc_hook h")
    (auto simp: hooked_home ikcp_allocator_def arena_malloc_def arena_free_def arena_owner_def)

text \<open>The same when only one of the two hooks is set.\<close>

lemma hooks_unpaired:
  assumes "malloc_hook h \<noteq> free_hook h" and "hooked_malloc arena_malloc h n s = (Some p, s')"
  shows "hooked_free arena_free h p s' = Inl Aborted"
  using assms
  by (cases "malloc_hook h"; cases "free_hook h")
    (auto simp: hooked_home arena_malloc_def arena_free_def arena_owner_def)

end
