(* ===== verification/Lutil_Module.thy ===== *)
theory Lutil_Module
  imports Lutil Lua
begin

text \<open>
  The module \<open>lutil\<close> as scripts see it: the functions of \<open>lutil.c\<close> with the reading of their arguments,
  in the table of \<open>luaopen_lutil\<close>.
\<close>

section \<open>The functions with their arguments\<close>

text \<open>
  A call gets its arguments and the time of the system, and gives its results (\<open>None\<close> is a Lua error)
  with the calls of \<open>usleep\<close> it made.
\<close>

type_synonym 'v lutil_function = "'v list \<Rightarrow> int \<times> int \<Rightarrow> (pushed list option \<times> u32 list) outcome"

definition lutil_gettimeofday :: "'v lutil_function" where
  "lutil_gettimeofday args time =
     (case time of (tv_sec, tv_usec) \<Rightarrow> Inr (Some [Integer (uint (l_gettimeofday tv_sec tv_usec))], []))"

definition lutil_isleep :: "'v lua_api \<Rightarrow> 'v lutil_function" where
  "lutil_isleep api args time =
     (case checkinteger api (arg args 1) of
        None \<Rightarrow> Inr (None, [])
      | Some v \<Rightarrow> Inr (Some [], [l_isleep (ucast v)]))"

definition lutil_netbytes2uint32 :: "'v lua_api \<Rightarrow> 'v lutil_function" where
  "lutil_netbytes2uint32 api args time =
     (case checklstring api (arg args 1) of
        None \<Rightarrow> Inr (None, [])
      | Some s \<Rightarrow> bindE (l_netbytes2uint32 s) (\<lambda>r. Inr (Some [Integer (uint r)], [])))"

text \<open>\<open>lua_tointeger\<close> gives 0 where \<open>luaL_checkinteger\<close> raises an error.\<close>

definition lutil_uint322netbytes :: "'v lua_api \<Rightarrow> 'v lutil_function" where
  "lutil_uint322netbytes api args time =
     (let i = (case checkinteger api (arg args 1) of None \<Rightarrow> 0 | Some v \<Rightarrow> ucast v)
      in Inr (Some [Str (l_uint322netbytes i)], []))"

definition luaopen_lutil :: "'v lua_api \<Rightarrow> (string \<times> 'v lutil_function) list" where
  "luaopen_lutil api =
     [(''gettimeofday'', lutil_gettimeofday), (''isleep'', lutil_isleep api),
      (''netbytes2uint32'', lutil_netbytes2uint32 api), (''uint322netbytes'', lutil_uint322netbytes api)]"

section \<open>What scripts get\<close>

text \<open>The string of a number, given back to the module, is the number modulo \<open>2^32\<close>.\<close>

lemma module_roundtrip:
  assumes "checkinteger api (Some n) = Some v"
    and "lutil_uint322netbytes api [n] t = Inr (Some [Str s], [])" and "checklstring api (Some x) = Some s"
  shows "lutil_netbytes2uint32 api [x] t' = Inr (Some [Integer (uint v mod 2 ^ 32)], [])"
proof -
  have s: "s = l_uint322netbytes (ucast v)" using assms(1,2) by (simp add: lutil_uint322netbytes_def arg_def)
  have "l_netbytes2uint32 (l_uint322netbytes (ucast v) @ []) = Inr (ucast v)"
    using netbytes_roundtrip by blast
  then have "l_netbytes2uint32 s = Inr (ucast v)" using s by simp
  then show ?thesis
    using assms(3)
    by (simp add: lutil_netbytes2uint32_def arg_def bindE_def unsigned_ucast_eq take_bit_eq_mod)
qed

text \<open>
  Only \<open>netbytes2uint32\<close> can leave the defined behaviour of C, and does so for strings of less than
  three bytes: the other functions end in results or in a Lua error.
\<close>

lemma module_faults:
  assumes "map_of (luaopen_lutil api) name = Some f"
  shows "f args time = Inl e \<longleftrightarrow> e = Out_Of_Bounds \<and> name = ''netbytes2uint32'' \<and>
    (\<exists>s. checklstring api (arg args 1) = Some s \<and> length s < 3)"
proof -
  have n: "l_netbytes2uint32 s = Inl d \<longleftrightarrow> d = Out_Of_Bounds \<and> length s < 3" for s d
    using netbytes_short [of s]
    by (cases "l_netbytes2uint32 s") (auto simp: l_netbytes2uint32_def string_byte_def bindE_def split: if_splits)
  have b: "bindE m (\<lambda>r. Inr (g r)) = Inl d \<longleftrightarrow> m = Inl d" for m :: "u32 outcome" and g d
    by (cases m) simp_all
  from assms show ?thesis
    by (auto simp: luaopen_lutil_def lutil_gettimeofday_def lutil_isleep_def lutil_netbytes2uint32_def
        lutil_uint322netbytes_def n b Let_def split: if_splits option.splits prod.splits)
qed

text \<open>A clock reading is a non-negative integer below \<open>2^31\<close>.\<close>

lemma module_clock:
  "\<exists>r. lutil_gettimeofday args time = Inr (Some [Integer r], []) \<and> 0 \<le> r \<and> r < 2 ^ 31"
proof -
  obtain s u where t: "time = (s, u)" by (cases time)
  have "unat (l_gettimeofday s u) < 2 ^ 31" unfolding clock_nat by simp
  then have "nat (uint (l_gettimeofday s u)) < nat (2 ^ 31)" by (simp add: nat_uint_eq)
  then have "uint (l_gettimeofday s u) < 2 ^ 31" by (subst (asm) zless_nat_conj) simp
  then show ?thesis by (simp add: lutil_gettimeofday_def t)
qed

end
