(* ===== verification/Gateway.thy ===== *)
theory Gateway
  imports Lkcpsn "HOL-Library.Multiset"
begin

text \<open>
  The connections of \<open>mySockServer.lua\<close>, the server that uses \<open>lkcpsn\<close>: handshakes, the tables of
  connections, the way of a packet to its control block, and the coroutines that read messages.  The
  control blocks themselves are handles here; what their methods do is the subject of \<open>Lkcpsn\<close>.
\<close>

section \<open>The tables\<close>

text \<open>
  A connection is a table of Lua that \<open>connection\<close> and \<open>uidMap\<close> share, so it has an address, its
  position in \<open>entries\<close>; \<open>ms\<close> may be nil.  The tables of the handshakes are not changed once they are made.
\<close>

record ('a, 'k) entry =
  e_from :: 'a
  e_subid :: int
  e_uid :: int
  e_kcp :: 'k
  e_ms :: "int option"

record ('a, 'k) handshake =
  hs_uid :: int
  hs_from :: 'a
  hs_subid :: int
  hs_kcp :: 'k
  hs_time :: int

record ('a, 'k) server =
  entries :: "('a, 'k) entry list"
  connection :: "int \<Rightarrow> nat option"
  connectNum :: int
  uidMap :: "int \<Rightarrow> nat option"
  subid :: int
  handshakeMap :: "int \<Rightarrow> ('a, 'k) handshake option"
  handshakeFrom :: "'a \<Rightarrow> ('a, 'k) handshake option"

definition new_server :: "('a, 'k) server" where
  "new_server = \<lparr>entries = [], connection = Map.empty, connectNum = 0, uidMap = Map.empty, subid = 0,
     handshakeMap = Map.empty, handshakeFrom = Map.empty\<rparr>"

section \<open>Handshakes\<close>

text \<open>The test of the two numbers of the message, each of which may be nil.\<close>

fun accepts :: "('a, 'k) server \<Rightarrow> int option \<Rightarrow> int option \<Rightarrow> bool" where
  "accepts s (Some uid) (Some time) \<longleftrightarrow> uid > 0 \<and> time > 0 \<and>
     time > (case handshakeMap s uid of Some h \<Rightarrow> hs_time h | None \<Rightarrow> 0)"
| "accepts s _ _ \<longleftrightarrow> False"

definition forget_handshake :: "int \<Rightarrow> ('a, 'k) server \<Rightarrow> ('a, 'k) server" where
  "forget_handshake uid s =
     (case handshakeMap s uid of
        Some h \<Rightarrow> s\<lparr>handshakeFrom := (handshakeFrom s)(hs_from h := None),
                    handshakeMap := (handshakeMap s)(uid := None)\<rparr>
      | None \<Rightarrow> s)"

definition note_handshake :: "'a \<Rightarrow> 'k \<Rightarrow> int \<Rightarrow> int \<Rightarrow> ('a, 'k) server \<Rightarrow> ('a, 'k) server" where
  "note_handshake addr kcp uid time s =
     (let s = forget_handshake uid s;
          h = \<lparr>hs_uid = uid, hs_from = addr, hs_subid = subid s, hs_kcp = kcp, hs_time = time\<rparr>
      in s\<lparr>handshakeMap := (handshakeMap s)(uid \<mapsto> h), handshakeFrom := (handshakeFrom s)(addr \<mapsto> h)\<rparr>)"

definition next_subid :: "('a, 'k) server \<Rightarrow> ('a, 'k) server" where
  "next_subid s = s\<lparr>subid := (if subid s + 1 \<ge> 4294967295 then 1 else subid s + 1)\<rparr>"

text \<open>
  The reply was queued with the result \<open>r\<close> of \<open>lkcp_send\<close>.  The return in the function given to \<open>self.sq\<close>
  does not leave the handler: the connection is made in any case.
\<close>

definition reply_sent :: "'a \<Rightarrow> int \<Rightarrow> int \<Rightarrow> ('a, 'k) server \<Rightarrow> ('a, 'k) server" where
  "reply_sent addr uid r s =
     (if r < 0 then s\<lparr>handshakeMap := (handshakeMap s)(uid := None), handshakeFrom := (handshakeFrom s)(addr := None)\<rparr>
      else s)"

definition drop_old :: "int \<Rightarrow> ('a, 'k) server \<Rightarrow> ('a, 'k) server" where
  "drop_old uid s =
     (case uidMap s uid of
        None \<Rightarrow> s
      | Some a \<Rightarrow>
          let old = e_subid (entries s ! a); s = s\<lparr>uidMap := (uidMap s)(uid := None)\<rparr>
          in if connection s old \<noteq> None
             then s\<lparr>connection := (connection s)(old := None), connectNum := connectNum s - 1\<rparr> else s)"

definition connect :: "'a \<Rightarrow> int \<Rightarrow> 'k \<Rightarrow> ('a, 'k) server \<Rightarrow> ('a, 'k) server" where
  "connect addr uid kcp s =
     (let u = \<lparr>e_from = addr, e_subid = subid s, e_uid = uid, e_kcp = kcp, e_ms = Some 0\<rparr>;
          s = s\<lparr>entries := entries s @ [u], connection := (connection s)(subid s \<mapsto> length (entries s))\<rparr>;
          s = s\<lparr>connectNum := connectNum s + 1\<rparr>;
          s = drop_old uid s
      in s\<lparr>uidMap := (uidMap s)(uid := connection s (subid s))\<rparr>)"

text \<open>
  A packet of conversation 0: \<open>kcp\<close> is the control block made for it, \<open>msg\<close> the numbers in the message
  that \<open>lkcp_recv\<close> returned, if it did, and \<open>kcp'\<close> the control block of the connection.
\<close>

definition greet ::
  "'a \<Rightarrow> 'k \<Rightarrow> (int option \<times> int option) option \<Rightarrow> int \<Rightarrow> 'k \<Rightarrow> ('a, 'k) server \<Rightarrow> ('a, 'k) server" where
  "greet addr kcp msg r kcp' s =
     (case msg of
        Some (Some uid, Some time) \<Rightarrow>
          if accepts s (Some uid) (Some time)
          then connect addr uid kcp' (reply_sent addr uid r (next_subid (note_handshake addr kcp uid time s)))
          else s
      | _ \<Rightarrow> s)"

section \<open>Packets\<close>

datatype way = Ignored | To_handshake "u8 list" | To_entry nat "u8 list"

definition route :: "('a, 'k) server \<Rightarrow> u8 list \<Rightarrow> way" where
  "route s text =
     (case unpack_package text of
        None \<Rightarrow> Ignored
      | Some (cv, str) \<Rightarrow>
          if uint cv = 0 then To_handshake str
          else (case connection s (uint cv) of Some a \<Rightarrow> To_entry a str | None \<Rightarrow> Ignored))"

definition set_entry :: "nat \<Rightarrow> (('a, 'k) entry \<Rightarrow> ('a, 'k) entry) \<Rightarrow> ('a, 'k) server \<Rightarrow> ('a, 'k) server" where
  "set_entry a f s = s\<lparr>entries := (entries s)[a := f (entries s ! a)]\<rparr>"

text \<open>
  A packet for a connection, with the time and the answer of \<open>lkcp_check\<close>: the coroutine sleeps until then,
  or goes on at once (\<open>False\<close>).
\<close>

definition arrive :: "'a \<Rightarrow> nat \<Rightarrow> int \<Rightarrow> int \<Rightarrow> ('a, 'k) server \<Rightarrow> bool \<times> ('a, 'k) server" where
  "arrive addr a now nexttime s =
     (let s = set_entry a (\<lambda>u. u\<lparr>e_from := addr\<rparr>) s
      in if nexttime - now \<ge> 0 then (True, set_entry a (\<lambda>u. u\<lparr>e_ms := Some nexttime\<rparr>) s)
         else (False, set_entry a (\<lambda>u. u\<lparr>e_ms := None\<rparr>) s))"

text \<open>A coroutine wakes: it returns when another one has done the work, or updates and reads.\<close>

definition wake :: "nat \<Rightarrow> ('a, 'k) server \<Rightarrow> bool \<times> ('a, 'k) server" where
  "wake a s =
     (if e_ms (entries s ! a) = None then (False, s) else (True, set_entry a (\<lambda>u. u\<lparr>e_ms := None\<rparr>) s))"

section \<open>Requests\<close>

text \<open>
  \<open>close\<close> calls \<open>u.sq\<close>, but no connection has a field of that name: the call of nil raises an error.  The
  tables stay as they are.  It returns (\<open>True\<close>) when there is no connection.
\<close>

definition close_returns :: "('a, 'k) server \<Rightarrow> int \<Rightarrow> bool" where
  "close_returns s sid \<longleftrightarrow> connection s sid = None"

text \<open>A request of which the command does not fail (\<open>ok\<close>); whether \<open>request\<close> returns.\<close>

definition do_request_returns :: "('a, 'k) server \<Rightarrow> int \<Rightarrow> bool \<Rightarrow> bool" where
  "do_request_returns s sid ok \<longleftrightarrow> connection s sid \<noteq> None \<and> ok"

definition request_returns :: "('a, 'k) server \<Rightarrow> int \<Rightarrow> bool \<Rightarrow> bool" where
  "request_returns s sid ok \<longleftrightarrow>
     do_request_returns s sid ok \<or> connection s sid = None \<or> close_returns s sid"

text \<open>The entry whose control block and address \<open>send_msg\<close> and \<open>response_msg\<close> use.\<close>

definition send_msg_to :: "('a, 'k) server \<Rightarrow> int \<Rightarrow> int option \<Rightarrow> ('a, 'k) entry option" where
  "send_msg_to s uid sid =
     map_option (nth (entries s))
       (case uidMap s uid of Some a \<Rightarrow> Some a | None \<Rightarrow> Option.bind sid (connection s))"

definition response_msg_to :: "('a, 'k) server \<Rightarrow> int \<Rightarrow> ('a, 'k) entry option" where
  "response_msg_to s sid = map_option (nth (entries s)) (connection s sid)"

section \<open>The server at work\<close>

text \<open>
  The coroutines of \<open>dispatch_msg\<close>: \<open>waiting\<close> are those that sleep after a packet, \<open>reading\<close> those in the loop
  that takes messages out, each with the address of its connection.  Of the control blocks is kept
  which may hold messages that nobody has looked for (\<open>unread\<close>); \<open>broken\<close> are those whose reader was
  ended by an error, and \<open>issued\<close> counts the ids given out.
\<close>

record ('a, 'k) gate =
  tables :: "('a, 'k) server"
  waiting :: "nat multiset"
  reading :: "nat multiset"
  unread :: "nat set"
  broken :: "nat set"
  issued :: nat

datatype ('a, 'k) gate_event =
    Greeting 'a 'k "(int option \<times> int option) option" int 'k
  | Forget int
  | Packet 'a int int int
  | Wake nat
  | Nothing_there nat
  | Request nat bool

definition greeted :: "('a, 'k) server \<Rightarrow> (int option \<times> int option) option \<Rightarrow> nat" where
  "greeted s msg = (case msg of Some (uid, time) \<Rightarrow> if accepts s uid time then 1 else 0 | None \<Rightarrow> 0)"

text \<open>
  The steps between two points at which a coroutine may be left: \<open>skynet.queue\<close> lets nobody wait, as no
  function given to it yields.  A handler that is left in a request goes on at its end.
\<close>

inductive serve :: "('a, 'k) gate \<Rightarrow> ('a, 'k) gate_event \<Rightarrow> ('a, 'k) gate \<Rightarrow> bool" where
  greeting: "serve g (Greeting addr kcp msg r kcp')
    (g\<lparr>tables := greet addr kcp msg r kcp' (tables g), issued := issued g + greeted (tables g) msg\<rparr>)"
| forget: "serve g (Forget uid) (g\<lparr>tables := forget_handshake uid (tables g)\<rparr>)"
| unknown: "connection (tables g) sid = None \<Longrightarrow> serve g (Packet addr sid now next) g"
| sleep: "connection (tables g) sid = Some a \<Longrightarrow> arrive addr a now next (tables g) = (True, s) \<Longrightarrow>
    serve g (Packet addr sid now next)
      (g\<lparr>tables := s, waiting := waiting g + {#a#}, unread := insert a (unread g)\<rparr>)"
| at_once: "connection (tables g) sid = Some a \<Longrightarrow> arrive addr a now next (tables g) = (False, s) \<Longrightarrow>
    serve g (Packet addr sid now next)
      (g\<lparr>tables := s, reading := reading g + {#a#}, unread := insert a (unread g)\<rparr>)"
| wake_late: "a \<in># waiting g \<Longrightarrow> wake a (tables g) = (False, s) \<Longrightarrow>
    serve g (Wake a) (g\<lparr>waiting := waiting g - {#a#}\<rparr>)"
| wake_first: "a \<in># waiting g \<Longrightarrow> wake a (tables g) = (True, s) \<Longrightarrow>
    serve g (Wake a) (g\<lparr>tables := s, waiting := waiting g - {#a#}, reading := reading g + {#a#}\<rparr>)"
| nothing_there: "a \<in># reading g \<Longrightarrow>
    serve g (Nothing_there a) (g\<lparr>reading := reading g - {#a#}, unread := unread g - {a}\<rparr>)"
| request: "a \<in># reading g \<Longrightarrow> request_returns (tables g) (e_subid (entries (tables g) ! a)) ok \<Longrightarrow>
    serve g (Request a ok) g"
| request_raises: "a \<in># reading g \<Longrightarrow> \<not> request_returns (tables g) (e_subid (entries (tables g) ! a)) ok \<Longrightarrow>
    serve g (Request a ok) (g\<lparr>reading := reading g - {#a#}, broken := insert a (broken g)\<rparr>)"

inductive_cases serveE: "serve g e g'"

definition new_gate :: "('a, 'k) gate" where
  "new_gate = \<lparr>tables = new_server, waiting = {#}, reading = {#}, unread = {}, broken = {}, issued = 0\<rparr>"

section \<open>The invariants\<close>

text \<open>
  The two tables describe the same connections, one for each user, and \<open>connectNum\<close> counts them.
\<close>

definition linked_tables :: "('a, 'k) server \<Rightarrow> bool" where
  "linked_tables s \<longleftrightarrow>
     (\<forall>sid a. connection s sid = Some a \<longrightarrow> a < length (entries s) \<and> e_subid (entries s ! a) = sid \<and>
        uidMap s (e_uid (entries s ! a)) = Some a) \<and>
     (\<forall>uid a. uidMap s uid = Some a \<longrightarrow> a < length (entries s) \<and> e_uid (entries s ! a) = uid \<and>
        connection s (e_subid (entries s ! a)) = Some a)"

definition tables_ok :: "nat \<Rightarrow> ('a, 'k) server \<Rightarrow> bool" where
  "tables_ok n s \<longleftrightarrow> linked_tables s \<and> subid s = int n \<and> dom (connection s) \<subseteq> {1..int n} \<and>
     connectNum s = int (card (dom (connection s)))"

lemma linkedD:
  assumes "linked_tables s"
  shows "connection s sid = Some a \<Longrightarrow> a < length (entries s) \<and> e_subid (entries s ! a) = sid \<and>
      uidMap s (e_uid (entries s ! a)) = Some a"
    and "uidMap s uid = Some a \<Longrightarrow> a < length (entries s) \<and> e_uid (entries s ! a) = uid \<and>
      connection s (e_subid (entries s ! a)) = Some a"
  using assms by (auto simp: linked_tables_def)

text \<open>What does not touch the connections keeps the invariant, and so does a new address or time.\<close>

definition same_connections :: "('a, 'k) server \<Rightarrow> ('a, 'k) server \<Rightarrow> bool" where
  "same_connections s s' \<longleftrightarrow> connection s' = connection s \<and> uidMap s' = uidMap s \<and>
     connectNum s' = connectNum s \<and> subid s' = subid s \<and>
     map (\<lambda>u. (e_subid u, e_uid u, e_kcp u)) (entries s') = map (\<lambda>u. (e_subid u, e_uid u, e_kcp u)) (entries s)"

lemma same_entries:
  assumes "same_connections s s'"
  shows "length (entries s') = length (entries s)"
    and "a < length (entries s) \<Longrightarrow> e_subid (entries s' ! a) = e_subid (entries s ! a) \<and>
      e_uid (entries s' ! a) = e_uid (entries s ! a) \<and> e_kcp (entries s' ! a) = e_kcp (entries s ! a)"
proof -
  let ?f = "\<lambda>u. (e_subid u, e_uid u, e_kcp u)"
  have m: "map ?f (entries s') = map ?f (entries s)" using assms by (simp add: same_connections_def)
  then show l: "length (entries s') = length (entries s)" by (rule map_eq_imp_length_eq)
  show "e_subid (entries s' ! a) = e_subid (entries s ! a) \<and>
      e_uid (entries s' ! a) = e_uid (entries s ! a) \<and> e_kcp (entries s' ! a) = e_kcp (entries s ! a)"
    if "a < length (entries s)"
  proof -
    have "?f (entries s' ! a) = ?f (entries s ! a)"
      using arg_cong [OF m, of "\<lambda>xs. xs ! a"] that l by (simp only: nth_map)
    then show ?thesis by simp
  qed
qed

lemma same_ok: "same_connections s s' \<Longrightarrow> tables_ok n s \<Longrightarrow> tables_ok n s'"
  using same_entries [of s s']
  by (auto simp: tables_ok_def linked_tables_def same_connections_def)

lemma same_forget: "same_connections s (forget_handshake uid s)"
  by (simp add: forget_handshake_def same_connections_def split: option.split)

lemma map_update_same: "a < length xs \<Longrightarrow> f y = f (xs ! a) \<Longrightarrow> map f (xs[a := y]) = map f xs"
  by (metis list_update_id map_update)

lemma same_set_entry:
  assumes "a < length (entries s)" and "\<And>u. e_subid (f u) = e_subid u" and "\<And>u. e_uid (f u) = e_uid u"
    and "\<And>u. e_kcp (f u) = e_kcp u"
  shows "same_connections s (set_entry a f s)"
  using assms by (simp add: same_connections_def set_entry_def map_update_same)

lemma same_refl: "same_connections s s"
  by (simp add: same_connections_def)

lemma same_trans: "same_connections s t \<Longrightarrow> same_connections t u \<Longrightarrow> same_connections s u"
  by (simp add: same_connections_def)

lemma same_arrive:
  assumes "a < length (entries s)" and "arrive addr a now nexttime s = (b, s')"
  shows "same_connections s s'"
proof -
  let ?t = "set_entry a (\<lambda>u. u\<lparr>e_from := addr\<rparr>) s"
  have st: "same_connections s ?t" by (rule same_set_entry) (use assms(1) in simp_all)
  have a: "a < length (entries ?t)" using assms(1) same_entries(1) [OF st] by simp
  have "same_connections ?t (set_entry a (\<lambda>u. u\<lparr>e_ms := x\<rparr>) ?t)" for x
    by (rule same_set_entry) (use a in simp_all)
  with st have "same_connections s (set_entry a (\<lambda>u. u\<lparr>e_ms := x\<rparr>) ?t)" for x by (rule same_trans)
  then show ?thesis using assms(2) by (auto simp: arrive_def Let_def split: if_splits)
qed

lemma same_wake: "a < length (entries s) \<Longrightarrow> wake a s = (b, s') \<Longrightarrow> same_connections s s'"
  by (auto simp: wake_def same_refl split: if_splits intro!: same_set_entry)

section \<open>A handshake\<close>

lemma greet_cases:
  obtains "greeted s msg = 0" and "greet addr kcp msg r kcp' s = s"
    | uid time where "msg = Some (Some uid, Some time)" and "accepts s (Some uid) (Some time)"
      and "greeted s msg = 1"
      and "greet addr kcp msg r kcp' s =
        connect addr uid kcp' (reply_sent addr uid r (next_subid (note_handshake addr kcp uid time s)))"
proof (cases "\<exists>uid time. msg = Some (Some uid, Some time) \<and> accepts s (Some uid) (Some time)")
  case False
  then have "\<not> accepts s x y" if "msg = Some (x, y)" for x y
    using that by (cases x; cases y) (simp_all del: accepts.simps, simp_all)
  then show ?thesis
    by (intro that(1)) (auto simp: greet_def greeted_def simp del: accepts.simps split: option.split)
qed (use that in \<open>auto simp: greet_def greeted_def simp del: accepts.simps\<close>)

lemma same_note: "same_connections s (note_handshake addr kcp uid time s)"
  using same_forget [of s uid] by (simp add: note_handshake_def same_connections_def Let_def)

lemma same_reply: "same_connections s (reply_sent addr uid r s)"
  by (simp add: reply_sent_def same_connections_def)

text \<open>The effect of a new connection on the tables.\<close>

lemma drop_old_result:
  "entries (drop_old uid s) = entries s" "subid (drop_old uid s) = subid s"
  "uidMap (drop_old uid s) = (uidMap s)(uid := None)"
  "connection (drop_old uid s) = (case uidMap s uid of None \<Rightarrow> connection s
     | Some a \<Rightarrow> (connection s)(e_subid (entries s ! a) := None))"
  "connectNum (drop_old uid s) = connectNum s -
     (case uidMap s uid of None \<Rightarrow> 0 | Some a \<Rightarrow> if connection s (e_subid (entries s ! a)) = None then 0 else 1)"
  by (auto simp: drop_old_def Let_def fun_eq_iff split: option.split)

lemma connect_ok:
  assumes ok: "tables_ok n s" and "t = s\<lparr>subid := int (Suc n)\<rparr>"
  shows "tables_ok (Suc n) (connect addr uid kcp t)"
proof -
  let ?u = "\<lparr>e_from = addr, e_subid = int (Suc n), e_uid = uid, e_kcp = kcp, e_ms = Some 0\<rparr>"
  let ?l = "length (entries s)" and ?new = "int (Suc n)"
  let ?t = "connect addr uid kcp t"
  have link: "linked_tables s" and d: "dom (connection s) \<subseteq> {1..int n}" "connectNum s = int (card (dom (connection s)))"
    using ok by (simp_all add: tables_ok_def)
  have fin: "finite (dom (connection s))" using d(1) by (rule finite_subset) simp
  have new: "connection s ?new = None" using d(1) by (auto simp: domIff)
  note con = linkedD [OF link]
  have low: "a < ?l" if "connection s sid = Some a \<or> uidMap s v = Some a" for a sid v
    using that con by blast
  show ?thesis
  proof (cases "uidMap s uid")
    case None
    have r: "entries ?t = entries s @ [?u]" "connection ?t = (connection s)(?new \<mapsto> ?l)"
      "uidMap ?t = (uidMap s)(uid \<mapsto> ?l)" "connectNum ?t = connectNum s + 1" "subid ?t = ?new"
      using None assms(2) by (simp_all add: connect_def Let_def drop_old_result)
    have "linked_tables ?t"
      unfolding linked_tables_def r
      using con None new low by (fastforce simp: nth_append split: if_splits)
    then show ?thesis
      using d fin new unfolding tables_ok_def r by (auto simp: card_insert_if domIff)
  next
    case (Some b)
    let ?old = "e_subid (entries s ! b)"
    have b: "b < ?l" "e_uid (entries s ! b) = uid" "connection s ?old = Some b" using con(2) [OF Some] by simp_all
    then have old: "?old \<noteq> ?new" using new by auto
    have r: "entries ?t = entries s @ [?u]" "connection ?t = (connection s)(?new \<mapsto> ?l, ?old := None)"
      "uidMap ?t = (uidMap s)(uid \<mapsto> ?l)" "connectNum ?t = connectNum s" "subid ?t = ?new"
      using Some assms(2) b old by (simp_all add: connect_def Let_def drop_old_result nth_append)
    have other: "e_uid (entries s ! a) \<noteq> uid" if "connection s sid = Some a" "sid \<noteq> ?old" for sid a
      using con(1) [OF that(1)] Some that(2) by auto
    have "linked_tables ?t"
      unfolding linked_tables_def r
    proof (intro conjI allI impI)
      fix sid a assume a: "((connection s)(?new \<mapsto> ?l, ?old := None)) sid = Some a"
      have "sid = ?new \<and> a = ?l \<or> connection s sid = Some a \<and> e_uid (entries s ! a) \<noteq> uid"
        using a other by (auto split: if_splits)
      then show "a < length (entries s @ [?u])" "e_subid ((entries s @ [?u]) ! a) = sid"
        "((uidMap s)(uid \<mapsto> ?l)) (e_uid ((entries s @ [?u]) ! a)) = Some a"
        using con(1) [of sid a] by (auto simp: nth_append)
    next
      fix v a assume a: "((uidMap s)(uid \<mapsto> ?l)) v = Some a"
      have "v = uid \<and> a = ?l \<or> uidMap s v = Some a \<and> v \<noteq> uid" using a by (auto split: if_splits)
      moreover have "e_subid (entries s ! a) \<noteq> ?new \<and> e_subid (entries s ! a) \<noteq> ?old"
        if "uidMap s v = Some a" "v \<noteq> uid" using con(2) [OF that(1)] that(2) new b by auto
      ultimately show "a < length (entries s @ [?u])" "e_uid ((entries s @ [?u]) ! a) = v"
        "((connection s)(?new \<mapsto> ?l, ?old := None)) (e_subid ((entries s @ [?u]) ! a)) = Some a"
        using con(2) [of v a] old by (auto simp: nth_append)
    qed
    moreover have "card (dom ((connection s)(?new \<mapsto> ?l, ?old := None))) = card (dom (connection s))"
    proof -
      have "dom ((connection s)(?new \<mapsto> ?l, ?old := None)) = insert ?new (dom (connection s) - {?old})"
        using old by auto
      moreover have "Suc (card (dom (connection s) - {?old})) = card (dom (connection s))"
        by (rule card_Suc_Diff1 [OF fin]) (use b(3) in auto)
      ultimately show ?thesis using fin new by (simp add: card_insert_if domIff)
    qed
    ultimately show ?thesis using d unfolding tables_ok_def r by auto
  qed
qed

lemma greet_ok:
  assumes "tables_ok n s" and "n + greeted s msg < 4294967295"
  shows "tables_ok (n + greeted s msg) (greet addr kcp msg r kcp' s)"
proof (rule greet_cases [of s msg addr kcp r kcp'])
  fix uid time
  assume g: "greeted s msg = 1"
    "greet addr kcp msg r kcp' s =
      connect addr uid kcp' (reply_sent addr uid r (next_subid (note_handshake addr kcp uid time s)))"
  let ?s = "reply_sent addr uid r (note_handshake addr kcp uid time s)"
  have ok: "tables_ok n ?s"
    using same_ok [OF same_reply same_ok [OF same_note assms(1)]] .
  have "subid (note_handshake addr kcp uid time s) = int n"
    using same_ok [OF same_note assms(1)] by (simp add: tables_ok_def)
  then have "reply_sent addr uid r (next_subid (note_handshake addr kcp uid time s)) = ?s\<lparr>subid := int (Suc n)\<rparr>"
    using assms(2) g(1) by (simp add: reply_sent_def next_subid_def)
  then show ?thesis using connect_ok [OF ok refl] g by simp
qed (use assms in simp)

text \<open>Addresses stay what they were.\<close>

definition bounded :: "('a, 'k) server \<Rightarrow> bool" where
  "bounded s \<longleftrightarrow> (\<forall>sid a. connection s sid = Some a \<longrightarrow> a < length (entries s))"

lemma same_bounded: "same_connections s s' \<Longrightarrow> bounded s \<Longrightarrow> bounded s'"
  using same_entries(1) [of s s'] by (simp add: bounded_def same_connections_def)

lemma greet_entries:
  "\<exists>us. entries (greet addr kcp msg r kcp' s) = entries s @ us" (is ?P)
  "bounded s \<Longrightarrow> bounded (greet addr kcp msg r kcp' s)" (is "_ \<Longrightarrow> ?Q")
proof -
  have "?P \<and> (bounded s \<longrightarrow> ?Q)"
  proof (rule greet_cases [of s msg addr kcp r kcp'])
    fix uid time
    assume g: "greet addr kcp msg r kcp' s =
        connect addr uid kcp' (reply_sent addr uid r (next_subid (note_handshake addr kcp uid time s)))"
    let ?t = "reply_sent addr uid r (next_subid (note_handshake addr kcp uid time s))"
    have t: "entries ?t = entries s" "connection ?t = connection s"
      by (simp_all add: reply_sent_def next_subid_def note_handshake_def forget_handshake_def Let_def split: option.split)
    have "\<exists>us. entries (connect addr uid kcp' ?t) = entries ?t @ us"
      by (simp add: connect_def Let_def drop_old_result)
    moreover have "bounded ?t \<longrightarrow> bounded (connect addr uid kcp' ?t)"
      by (auto simp: bounded_def connect_def Let_def drop_old_result less_Suc_eq split: option.splits if_splits)
    moreover have "bounded ?t = bounded s" using t by (simp add: bounded_def)
    ultimately show ?thesis using g t by simp
  qed simp
  then show ?P "bounded s \<Longrightarrow> ?Q" by simp_all
qed

section \<open>Every packet is looked after\<close>

text \<open>Somebody will look for the messages of a connection, unless an error has ended the one who would.\<close>

definition looked_after :: "('a, 'k) gate \<Rightarrow> nat \<Rightarrow> bool" where
  "looked_after g a \<longleftrightarrow> a \<in># reading g \<or> a \<in> broken g \<or>
     a \<in># waiting g \<and> e_ms (entries (tables g) ! a) \<noteq> None"

definition gate_ok :: "('a, 'k) gate \<Rightarrow> bool" where
  "gate_ok g \<longleftrightarrow> (issued g < 4294967295 \<longrightarrow> tables_ok (issued g) (tables g)) \<and>
     bounded (tables g) \<and>
     (\<forall>a. a \<in># reading g \<or> a \<in># waiting g \<or> a \<in> unread g \<longrightarrow> a < length (entries (tables g))) \<and>
     (\<forall>a \<in> unread g. looked_after g a)"

lemma arrive_entries:
  assumes "a < length (entries s)" and "arrive addr a now nexttime s = (b, s')"
  shows "b \<Longrightarrow> e_ms (entries s' ! a) \<noteq> None" and "i \<noteq> a \<Longrightarrow> entries s' ! i = entries s ! i"
  using assms by (auto simp: arrive_def set_entry_def Let_def split: if_splits)

lemma wake_entries:
  assumes "wake a s = (b, s')"
  shows "\<not> b \<Longrightarrow> s' = s \<and> e_ms (entries s ! a) = None" and "i \<noteq> a \<Longrightarrow> entries s' ! i = entries s ! i"
  using assms by (auto simp: wake_def set_entry_def split: if_splits)

lemma still_there: "b \<noteq> a \<Longrightarrow> b \<in># M - {#a#} \<longleftrightarrow> b \<in># M"
  by (simp add: in_diff_count)

lemma gate_start: "g = new_gate \<Longrightarrow> gate_ok g"
  by (simp add: gate_ok_def new_gate_def new_server_def tables_ok_def linked_tables_def bounded_def)

lemma tables_greet:
  assumes "issued g < 4294967295 \<longrightarrow> tables_ok (issued g) (tables g)"
  shows "issued g + greeted (tables g) msg < 4294967295 \<longrightarrow>
    tables_ok (issued g + greeted (tables g) msg) (greet addr kcp msg r kcp' (tables g))"
  using assms greet_ok [of "issued g" "tables g" msg] by auto

text \<open>A step that leaves the connections alone keeps the invariant when it keeps what is about the readers.\<close>

lemma gate_same:
  assumes "gate_ok g" and "same_connections (tables g) (tables g')" and "issued g' = issued g"
    and "\<And>a. a \<in># reading g' \<or> a \<in># waiting g' \<or> a \<in> unread g' \<Longrightarrow> a < length (entries (tables g))"
    and "\<And>a. a \<in> unread g' \<Longrightarrow> looked_after g' a"
  shows "gate_ok g'"
  using assms same_ok [OF assms(2)] same_bounded [OF assms(2)] same_entries(1) [OF assms(2)]
  by (simp add: gate_ok_def)

lemma gate_step:
  assumes ok: "gate_ok g" and "serve g e g'"
  shows "gate_ok g'"
  using assms(2)
proof (cases rule: serve.cases)
  case (greeting addr kcp msg r kcp')
  let ?t = "greet addr kcp msg r kcp' (tables g)"
  obtain us where us: "entries ?t = entries (tables g) @ us"
    using greet_entries(1) [of addr kcp msg r kcp' "tables g"] by blast
  have "looked_after g' a" if a: "a \<in> unread g" for a
  proof -
    have "a < length (entries (tables g))" "looked_after g a" using ok a by (simp_all add: gate_ok_def)
    then show ?thesis using greeting us by (simp add: looked_after_def nth_append)
  qed
  then show ?thesis
    using ok tables_greet [of g msg addr kcp r kcp'] greet_entries(2) us greeting
    by (auto simp: gate_ok_def simp del: One_nat_def)
next
  case (forget uid)
  have "entries (forget_handshake uid (tables g)) = entries (tables g)"
    by (simp add: forget_handshake_def split: option.split)
  then show ?thesis
    using gate_same [of g g'] ok forget same_forget [of "tables g" uid]
    by (auto simp: gate_ok_def looked_after_def)
next
  case (sleep sid a addr now t s)
  then have a: "a < length (entries (tables g))" using ok by (auto simp: gate_ok_def bounded_def)
  note e = arrive_entries [OF a sleep(4)]
  have "looked_after g' b" if "b \<in> unread g'" for b
    using that ok sleep e by (cases "b = a") (auto simp: gate_ok_def looked_after_def)
  then show ?thesis
    using gate_same [of g g'] ok sleep a same_arrive [OF a sleep(4)] by (auto simp: gate_ok_def)
next
  case (at_once sid a addr now t s)
  then have a: "a < length (entries (tables g))" using ok by (auto simp: gate_ok_def bounded_def)
  note e = arrive_entries [OF a at_once(4)]
  have "looked_after g' b" if "b \<in> unread g'" for b
    using that ok at_once e by (cases "b = a") (auto simp: gate_ok_def looked_after_def)
  then show ?thesis
    using gate_same [of g g'] ok at_once a same_arrive [OF a at_once(4)] by (auto simp: gate_ok_def)
next
  case (wake_late a s)
  have "looked_after g' b" if "b \<in> unread g'" for b
  proof -
    have "looked_after g b" using that ok wake_late(2) by (simp add: gate_ok_def)
    then show ?thesis
      using wake_late(2) wake_entries(1) [OF wake_late(4)]
      by (cases "b = a") (auto simp: looked_after_def still_there)
  qed
  then show ?thesis
    using gate_same [of g g'] ok wake_late same_refl by (auto simp: gate_ok_def dest: in_diffD)
next
  case (wake_first a s)
  have a: "a < length (entries (tables g))" using ok wake_first by (simp add: gate_ok_def)
  note e = wake_entries(2) [OF wake_first(4)]
  have "looked_after g' b" if "b \<in> unread g'" for b
  proof -
    have "looked_after g b" using that ok wake_first(2) by (simp add: gate_ok_def)
    then show ?thesis
      using wake_first(2) e by (cases "b = a") (auto simp: looked_after_def still_there)
  qed
  then show ?thesis
    using gate_same [of g g'] ok wake_first a same_wake [OF a wake_first(4)]
    by (auto simp: gate_ok_def dest: in_diffD)
next
  case (nothing_there a)
  have "looked_after g' b" if "b \<in> unread g'" for b
  proof -
    have "looked_after g b" "b \<noteq> a" using that ok nothing_there(2) by (simp_all add: gate_ok_def)
    then show ?thesis using nothing_there(2) by (auto simp: looked_after_def still_there)
  qed
  then show ?thesis
    using gate_same [of g g'] ok nothing_there same_refl by (auto simp: gate_ok_def dest: in_diffD)
next
  case (request_raises a q)
  have "looked_after g' b" if "b \<in> unread g'" for b
  proof -
    have "looked_after g b" using that ok request_raises(2) by (simp add: gate_ok_def)
    then show ?thesis
      using request_raises(2) by (cases "b = a") (auto simp: looked_after_def still_there)
  qed
  then show ?thesis
    using gate_same [of g g'] ok request_raises same_refl by (auto simp: gate_ok_def dest: in_diffD)
qed (use ok in simp_all)

interpretation gateway: step_system "\<lambda>g. g = new_gate" serve gate_ok
  by unfold_locales (auto intro: gate_start gate_step)

section \<open>What users can rely on\<close>

text \<open>
  C18: in every run of the server, with packets, handshakes and coroutines in any order, and as long as
  fewer than \<open>2^32 - 1\<close> ids were given out, each user has one connection, the tables agree on it, and
  \<open>connectNum\<close> is the number of connections.
\<close>

theorem one_connection_each:
  assumes "gateway.run new_gate events g" and "issued g < 4294967295"
  shows "connectNum (tables g) = int (card (dom (connection (tables g)))) \<and>
    (\<forall>sid a. connection (tables g) sid = Some a \<longleftrightarrow>
       a < length (entries (tables g)) \<and> e_subid (entries (tables g) ! a) = sid \<and>
       uidMap (tables g) (e_uid (entries (tables g) ! a)) = Some a) \<and>
    inj_on (\<lambda>sid. e_uid (entries (tables g) ! the (connection (tables g) sid))) (dom (connection (tables g)))"
proof -
  have "gate_ok g" using gateway.reachable_good assms(1) by blast
  then have ok: "tables_ok (issued g) (tables g)" using assms(2) by (simp add: gate_ok_def)
  then have link: "linked_tables (tables g)" by (simp add: tables_ok_def)
  note con = linkedD [OF link]
  have "inj_on (\<lambda>sid. e_uid (entries (tables g) ! the (connection (tables g) sid))) (dom (connection (tables g)))"
  proof (rule inj_onI)
    fix x y
    assume "x \<in> dom (connection (tables g))" "y \<in> dom (connection (tables g))"
      and e: "e_uid (entries (tables g) ! the (connection (tables g) x)) =
        e_uid (entries (tables g) ! the (connection (tables g) y))"
    then obtain a b where a: "connection (tables g) x = Some a" "connection (tables g) y = Some b" by auto
    have "e_uid (entries (tables g) ! a) = e_uid (entries (tables g) ! b)" using e unfolding a by simp
    with con(1) [OF a(1)] con(1) [OF a(2)] have "Some a = Some b" by metis
    then show "x = y" using con(1) [OF a(1)] con(1) [OF a(2)] by blast
  qed
  moreover have "connection (tables g) sid = Some a \<longleftrightarrow>
      a < length (entries (tables g)) \<and> e_subid (entries (tables g) ! a) = sid \<and>
      uidMap (tables g) (e_uid (entries (tables g) ! a)) = Some a" for sid a
  proof
    show "a < length (entries (tables g)) \<and> e_subid (entries (tables g) ! a) = sid \<and>
      uidMap (tables g) (e_uid (entries (tables g) ! a)) = Some a" if "connection (tables g) sid = Some a"
      using that by (rule con(1))
    show "connection (tables g) sid = Some a" if "a < length (entries (tables g)) \<and>
      e_subid (entries (tables g) ! a) = sid \<and> uidMap (tables g) (e_uid (entries (tables g) ! a)) = Some a"
      using that con(2) by blast
  qed
  ultimately show ?thesis using ok by (simp add: tables_ok_def)
qed


text \<open>A packet that a block of conversation \<open>sid\<close> packs goes to the connection of that id.\<close>

lemma packed_routed:
  assumes "connection s sid = Some a" and "0 < sid" and "sid < 2 ^ 32" and "length d < 2 ^ 16"
  shows "route s (the (pack_output (word_of_int sid) d)) = To_entry a d"
proof -
  have "uint (word_of_int sid :: u32) = sid" using assms(2,3) by (simp add: uint_word_of_int)
  then show ?thesis using unpack_packed [OF assms(4)] assms by (simp add: route_def pack_output_def)
qed

text \<open>
  A handshake whose time is not after that of the last one of the user is refused, but the last one is
  remembered for three seconds only.  Then the same message, from any address, makes a new
  connection for the user and removes the one he has.
\<close>

lemma handshake_again:
  assumes "tables_ok n s" and "n + 1 < 4294967295" and "uidMap s uid = Some a" and "0 < uid" and "0 < time"
  shows "(\<exists>h. handshakeMap s uid = Some h \<and> time \<le> hs_time h) \<Longrightarrow>
      greet addr kcp (Some (Some uid, Some time)) r kcp' s = s"
    and "handshakeMap s uid = None \<Longrightarrow>
      (let s' = greet addr kcp (Some (Some uid, Some time)) r kcp' s
       in connection s' (e_subid (entries s ! a)) = None \<and> map_option e_from (send_msg_to s' uid None) = Some addr)"
proof -
  assume "\<exists>h. handshakeMap s uid = Some h \<and> time \<le> hs_time h"
  then show "greet addr kcp (Some (Some uid, Some time)) r kcp' s = s" by (auto simp: greet_def)
next
  assume h: "handshakeMap s uid = None"
  let ?s' = "greet addr kcp (Some (Some uid, Some time)) r kcp' s"
  let ?t = "reply_sent addr uid r (next_subid (note_handshake addr kcp uid time s))"
  have s': "?s' = connect addr uid kcp' ?t" using h assms(4,5) by (simp add: greet_def)
  have t: "entries ?t = entries s" "connection ?t = connection s" "uidMap ?t = uidMap s" "subid ?t = int n + 1"
    using assms(1,2)
    by (simp_all add: tables_ok_def reply_sent_def next_subid_def note_handshake_def forget_handshake_def
        Let_def split: option.split)
  have link: "linked_tables s" and d: "dom (connection s) \<subseteq> {1..int n}" using assms(1) by (simp_all add: tables_ok_def)
  note con = linkedD(2) [OF link assms(3)]
  then have "e_subid (entries s ! a) \<in> dom (connection s)" by (simp add: domIff)
  then have "e_subid (entries s ! a) \<le> int n" using d by fastforce
  then show "let s' = ?s' in connection s' (e_subid (entries s ! a)) = None \<and>
      map_option e_from (send_msg_to s' uid None) = Some addr"
    using con t assms(3) unfolding Let_def s'
    by (simp add: connect_def drop_old_result send_msg_to_def nth_append Let_def)
qed

text \<open>
  When the ids have run out they start again at 1, whether that connection still exists or not: it is
  replaced by the one of another user, and \<open>connectNum\<close> counts it once more.
\<close>

lemma ids_run_out:
  assumes "subid s = 4294967294" and "connection s 1 = Some a" and "uidMap s uid = None"
    and "handshakeMap s uid = None" and "0 < uid" and "0 < time"
  shows "connection (greet addr kcp (Some (Some uid, Some time)) r kcp' s) = (connection s)(1 \<mapsto> length (entries s))"
    and "connectNum (greet addr kcp (Some (Some uid, Some time)) r kcp' s) = connectNum s + 1"
    and "dom (connection (greet addr kcp (Some (Some uid, Some time)) r kcp' s)) = dom (connection s)"
  using assms
  by (auto simp: greet_def connect_def drop_old_result reply_sent_def next_subid_def note_handshake_def
      forget_handshake_def Let_def)

text \<open>No step makes \<open>connectNum\<close> smaller: connections are replaced, but none is ever closed.\<close>

lemma connect_number: "connectNum s \<le> connectNum (connect addr uid kcp s)"
  by (simp add: connect_def Let_def drop_old_result split: option.split)

lemma greet_number: "connectNum s \<le> connectNum (greet addr kcp msg r kcp' s)"
proof (rule greet_cases [of s msg addr kcp r kcp'])
  fix uid time
  assume g: "greet addr kcp msg r kcp' s =
      connect addr uid kcp' (reply_sent addr uid r (next_subid (note_handshake addr kcp uid time s)))"
  have "connectNum (reply_sent addr uid r (next_subid (note_handshake addr kcp uid time s))) = connectNum s"
    by (simp add: reply_sent_def next_subid_def note_handshake_def forget_handshake_def Let_def split: option.split)
  then show ?thesis unfolding g using connect_number by metis
qed simp

lemma serve_number:
  assumes "serve g e g'"
  shows "connectNum (tables g) \<le> connectNum (tables g')"
proof -
  have f: "connectNum (forget_handshake uid s) = connectNum s" for uid and s :: "('a, 'b) server"
    by (simp add: forget_handshake_def split: option.split)
  show ?thesis using assms
    by (cases rule: serve.cases) (auto simp: f greet_number arrive_def wake_def set_entry_def Let_def split: if_splits)
qed


end
