(* ===== verification/Gateway_Witnesses.thy ===== *)
theory Gateway_Witnesses
  imports Gateway
begin

text \<open>A run of the server with two users, at which the properties of its connections are applied.\<close>

definition user :: "int \<Rightarrow> (int option \<times> int option) option" where
  "user uid = Some (Some uid, Some 100)"

definition first_visit :: "(nat, nat) gate_event list" where
  "first_visit = [Greeting 5 10 (user 7) 0 11, Greeting 6 20 (user 8) 0 21,
     Packet 5 1 1000 1010, Packet 5 1 1000 990, Wake 0, Request 0 True, Nothing_there 0]"

text \<open>The states in between.\<close>

definition g2 :: "(nat, nat) gate" where
  "g2 = \<lparr>tables = greet 6 20 (user 8) 0 21 (greet 5 10 (user 7) 0 11 new_server),
     waiting = {#}, reading = {#}, unread = {}, broken = {}, issued = 2\<rparr>"

lemmas gateway_defs = new_gate_def new_server_def greet_def connect_def drop_old_def reply_sent_def
  next_subid_def note_handshake_def forget_handshake_def user_def Let_def

lemma g2_tables:
  "connection (tables g2) = [1 \<mapsto> 0, 2 \<mapsto> 1]" "connectNum (tables g2) = 2" "length (entries (tables g2)) = 2"
  "e_subid (entries (tables g2) ! 0) = 1" "uidMap (tables g2) = [7 \<mapsto> 0, 8 \<mapsto> 1]"
  by (simp_all add: g2_def gateway_defs)

lemma g2_run: "gateway.run new_gate [Greeting 5 10 (user 7) 0 11, Greeting 6 20 (user 8) 0 21] g2"
proof -
  let ?s1 = "greet 5 10 (user 7) 0 11 new_server :: (nat, nat) server"
  let ?g1 = "(new_gate :: (nat, nat) gate)\<lparr>tables := ?s1, issued := 1\<rparr>"
  have n: "greeted (tables (new_gate :: (nat, nat) gate)) (user 7) = 1" "greeted ?s1 (user 8) = 1"
    by (simp_all add: greeted_def gateway_defs)
  have "serve new_gate (Greeting 5 10 (user 7) 0 11) ?g1"
    using serve.greeting [of "new_gate :: (nat, nat) gate" 5 10 "user 7" 0 11] unfolding n
    by (simp add: new_gate_def)
  moreover have "serve ?g1 (Greeting 6 20 (user 8) 0 21) g2"
    using serve.greeting [of ?g1 6 20 "user 8" 0 21] n(2) by (simp add: new_gate_def g2_def numeral_2_eq_2)
  ultimately show ?thesis by (blast intro: gateway.run.intros)
qed

theorem one_connection_each_witness:
  "int (card (dom (connection (tables g2)))) = 2 \<and> uidMap (tables g2) 7 = Some 0"
proof -
  have "issued g2 < 4294967295" by (simp add: g2_def)
  from one_connection_each [OF g2_run this]
  have "connectNum (tables g2) = int (card (dom (connection (tables g2))))" by blast
  then show ?thesis using g2_tables by simp
qed

text \<open>Two packets of the first user: one coroutine sleeps, the second is faster and reads.\<close>

definition g6 :: "(nat, nat) gate" where
  "g6 = g2\<lparr>tables := snd (arrive 5 0 1000 990 (snd (arrive 5 0 1000 1010 (tables g2)))),
     waiting := {#}, reading := {#}, unread := {}\<rparr>"

lemma g6_run:
  "gateway.run g2 [Packet 5 1 1000 1010, Packet 5 1 1000 990, Wake 0, Request 0 True, Nothing_there 0] g6"
proof -
  let ?s3 = "snd (arrive 5 0 1000 1010 (tables g2))"
  let ?s4 = "snd (arrive 5 0 1000 990 ?s3)"
  let ?g3 = "g2\<lparr>tables := ?s3, waiting := {#0#}, unread := {0}\<rparr>"
  let ?g4 = "?g3\<lparr>tables := ?s4, reading := {#0#}, unread := {0}\<rparr>"
  let ?g5 = "?g4\<lparr>waiting := {#}\<rparr>"
  have s: "connection ?s3 1 = Some 0" "connection ?s4 1 = Some 0" "e_subid (entries ?s4 ! 0) = 1"
    "e_ms (entries ?s4 ! 0) = None"
    using g2_tables by (simp_all add: arrive_def set_entry_def)
  have a: "arrive 5 0 1000 1010 (tables g2) = (True, ?s3)" "arrive 5 0 1000 990 ?s3 = (False, ?s4)"
    "wake 0 ?s4 = (False, ?s4)"
    using s by (simp_all add: arrive_def wake_def Let_def)
  have c: "connection (tables g2) 1 = Some 0" using g2_tables by simp
  have q: "waiting g2 = {#}" "reading g2 = {#}" "unread g2 = {}" by (simp_all add: g2_def)
  have "serve g2 (Packet 5 1 1000 1010) ?g3"
    using serve.sleep [of g2 1 0 5 1000 1010 ?s3] c a(1) q by simp
  moreover have "serve ?g3 (Packet 5 1 1000 990) ?g4"
    using serve.at_once [of ?g3 1 0 5 1000 990 ?s4] s a(2) q by simp
  moreover have "serve ?g4 (Wake 0) ?g5" using serve.wake_late [of 0 ?g4 ?s4] a(3) by simp
  moreover have "serve ?g5 (Request 0 True) ?g5"
    by (rule serve.request) (use s in \<open>simp_all add: request_returns_def do_request_returns_def\<close>)
  moreover have "serve ?g5 (Nothing_there 0) g6"
    using serve.nothing_there [of 0 ?g5] by (simp add: g6_def)
  ultimately show ?thesis by (blast intro: gateway.run.intros)
qed

lemma first_visit_run: "gateway.run new_gate first_visit g6"
  using gateway.run_append [OF g2_run g6_run] by (simp add: first_visit_def)



end
