(* ===== verification/Get_Kcp.thy ===== *)
theory Get_Kcp
  imports Gateway
begin

text \<open>
  The server makes a control block for a connection (\<open>getKcp\<close> of \<open>mySockServer.lua\<close>) by calls of the
  binding \<open>lkcpsn\<close>: what the block is when it returns.
\<close>

section \<open>The calls\<close>

text \<open>
  A call whose results the script goes on with; an error of Lua ends the script.  \<open>num\<close> and \<open>ud\<close> are
  the values of Lua for a number and for the userdata that was made as the one with that index.
\<close>

definition after :: "'v sn_result \<Rightarrow> (pushed list \<Rightarrow> 'v sn_lua \<Rightarrow> 'v sn_result) \<Rightarrow> 'v sn_result" where
  "after r f =
     (case r of
        Inl e \<Rightarrow> Inl e
      | Inr (None, w) \<Rightarrow> raise w
      | Inr (Some xs, w) \<Rightarrow> f xs w)"

definition get_kcp ::
  "interpreter \<Rightarrow> 'v lua_api \<Rightarrow> bool \<Rightarrow> (nat \<Rightarrow> bool) \<Rightarrow> nat \<Rightarrow> (int \<Rightarrow> 'v) \<Rightarrow> (nat \<Rightarrow> 'v) \<Rightarrow> 'v \<Rightarrow> 'v \<Rightarrow>
   int \<Rightarrow> 'v \<Rightarrow> int \<Rightarrow> 'v sn_lua \<Rightarrow> 'v sn_result" where
  "get_kcp lua api ctx fails L num ud sock addr sid f ms w =
     after (sn_create api L [sock, addr, num sid, f] w) (\<lambda>xs w.
       case xs of
         [Userdata i] \<Rightarrow>
           after (sn_wndsize api [ud i, num 128, num 128] w) (\<lambda>_ w.
           after (sn_nodelay api [ud i, num 0, num 50, num 0, num 1] w) (\<lambda>_ w.
           after (sn_update lua api ctx fails L [ud i, num ms] w) (\<lambda>_ w.
           returns [Userdata i] w)))
       | _ \<Rightarrow> raise w)"

lemma get_kcp_calls:
  assumes "sn_create api L [sock, addr, num sid, f] w = Inr (Some [Userdata i], w1)"
    and "sn_wndsize api [ud i, num 128, num 128] w1 = returns xs w2"
    and "sn_nodelay api [ud i, num 0, num 50, num 0, num 1] w2 = returns ys w3"
    and "sn_update lua api ctx fails L [ud i, num ms] w3 = returns zs w4"
  shows "get_kcp lua api ctx fails L num ud sock addr sid f ms w = Inr (Some [Userdata i], w4)"
  using assms by (simp add: get_kcp_def after_def returns_def)

definition values_of :: "'v lua_api \<Rightarrow> (int \<Rightarrow> 'v) \<Rightarrow> (nat \<Rightarrow> 'v) \<Rightarrow> bool" where
  "values_of api num ud \<longleftrightarrow> (\<forall>n. checkinteger api (Some (num n)) = Some (word_of_int n)) \<and>
     (\<forall>i. checkudata api (Some (ud i)) = Some i)"

section \<open>The first update of a block\<close>

text \<open>There is nothing to send: only the clock starts.\<close>

lemma idle_flush:
  assumes "updated k \<noteq> 0" and "ackcount k = 0" and "probe k = 0" and "rmt_wnd k \<noteq> 0"
    and "snd_queue k = []" and "snd_buf k = []"
  shows "raising_flush raises k = Inr (Went ([], update_ssthresh (flush_resent k) (flush_cwnd k) 0 0
      (k\<lparr>ts_probe := 0, probe_wait := 0\<rparr>)))"
proof -
  define j where "j = k\<lparr>ts_probe := 0, probe_wait := 0\<rparr>"
  have "probe_timer (k\<lparr>ackcount := 0\<rparr>) = j" using assms(2,4) by (simp add: probe_timer_def j_def)
  moreover have "j\<lparr>probe := 0\<rparr> = j" "j\<lparr>snd_buf := []\<rparr> = j" "snd_buf j = []"
    using assms(3,6) by (simp_all add: j_def)
  moreover have "move_snd_queue j wnd c = j" for wnd c
    using assms(5) by (subst move_snd_queue.simps) (simp add: j_def)
  moreover have "raising_probes raises j seg out = Inr (Went out)" for seg out
    using assms(3) by (simp add: raising_probes_def j_def)
  moreover have "flush_resent j = flush_resent k" "flush_cwnd j = flush_cwnd k"
    by (simp_all add: flush_resent_def flush_cwnd_def j_def Let_def)
  ultimately show ?thesis
    unfolding j_def [symmetric] raising_flush_def Let_def
    by (simp only: assms(1,2) if_False signed_0 nat_0 raising_acks.simps bindC_simps
        prod.case raising_data.simps raising_output_def ikcp_output_def flushing.simps bindE_simps if_True simp_thms)
qed

lemma first_update:
  assumes "updated k = 0" and "ackcount k = 0" and "probe k = 0" and "rmt_wnd k \<noteq> 0"
    and "snd_queue k = []" and "snd_buf k = []" and "interval k = 50" and "cwnd k = 0" and "output_cb k"
  shows "raising_update raises k now =
    Inr (Went ([], k\<lparr>current := now, updated := 1, ts_flush := now + 50, ts_probe := 0, probe_wait := 0,
      cwnd := 1, incr := mss k\<rparr>))"
proof -
  let ?k = "k\<lparr>current := now, updated := 1, ts_flush := now + 50\<rparr>"
  have "itimediff now now = 0" "itimediff now (now + 50) < 0" by (simp_all add: itimediff_def)
  then have "raising_update raises k now = raising_flush raises ?k"
    using assms(1,7) by (simp add: raising_update_def Let_def)
  also have "\<dots> = Inr (Went ([], update_ssthresh (flush_resent ?k) (flush_cwnd ?k) 0 0 (?k\<lparr>ts_probe := 0, probe_wait := 0\<rparr>)))"
    by (rule idle_flush) (simp_all add: assms)
  finally show ?thesis using assms(8) by (simp add: update_ssthresh_def)
qed

section \<open>The newest block\<close>

definition newest :: "'v sn_lua \<Rightarrow> sn_callback block list \<Rightarrow> ikcpcb \<Rightarrow> sn_callback \<Rightarrow> bool" where
  "newest w bs k c \<longleftrightarrow> blocks w = bs @ [Live k (Some c)]"

lemma newest_put: "newest w bs k c \<Longrightarrow> newest (put w (length bs) k' c') bs k' c'"
  by (simp add: newest_def put_def)

lemma newest_with_kcp:
  assumes "newest w bs k c" and "checkudata api (Some u) = Some (length bs)"
  shows "with_kcp api (u # args) w g = g (length bs) (k\<lparr>mem := pool w\<rparr>) c"
  using assms by (simp add: with_kcp_def kcp_arg_def arg_def newest_def)

lemma new_block:
  assumes "plentiful (pool w)" and "checkinteger api (Some sock) = Some s" and "2 \<le> length a"
    and "checklstring api (Some addr) = Some a" and "checkinteger api (Some sid) = Some v"
  obtains w1 n m c where "sn_create api L [sock, addr, sid, f] w = Inr (Some [Userdata (length (blocks w))], w1)"
    and "newest w1 (blocks w) ((new_kcpcb (ucast v) n m)\<lparr>output_cb := True\<rparr>) c"
    and "address c = Some (a @ [0])" and "outbox w1 = outbox w"
proof -
  let ?c = "\<lparr>sn_L = L, sn_eL = L, address = Some (a @ [0]), addresssz = length a\<rparr>"
  obtain m1 where m1: "ikcp_malloc (pool w) = (True, m1)" "plentiful m1"
    using plentiful_malloc [OF assms(1)] assms(1) by (simp add: plentiful_def)
  obtain m2 where m2: "ikcp_malloc m1 = (True, m2)" "plentiful m2"
    using plentiful_malloc [OF m1(2)] m1(2) by (simp add: plentiful_def)
  obtain n m where k: "ikcp_create m2 (ucast v) = Inr (new_kcpcb (ucast v) n m)"
    using m2(2) by (simp add: ikcp_create_def ikcp_malloc_def plentiful_def)
  obtain y where y: "print_address (a @ [0]) (length a) = Inr y"
    using assms(3) by (cases "print_address (a @ [0]) (length a)") (auto simp: print_address_def Let_def split: if_splits)
  let ?w = "if s \<noteq> 0 \<and> svrsock w = 0 then w\<lparr>svrsock := s\<rparr> else w"
  have same: "pool ?w = pool w" "blocks ?w = blocks w" "outbox ?w = outbox w" by simp_all
  have "sn_create api L [sock, addr, sid, f] w = Inr (Some [Userdata (length (blocks w))],
      ?w\<lparr>pool := mem (new_kcpcb (ucast v) n m),
         blocks := blocks ?w @ [Live ((new_kcpcb (ucast v) n m)\<lparr>output_cb := True\<rparr>) (Some ?c)]\<rparr>)"
    using assms m1(1) m2(1) k y same(1,2)
    unfolding sn_create_def str_arg_def int_arg_def Let_def arg_def returns_def by simp
  then show ?thesis by (rule that [of _ n m ?c]) (simp_all add: newest_def)
qed

section \<open>What the block is\<close>

lemma number_bits: "values_of api num ud \<Longrightarrow> checkinteger api (Some (num n)) = Some (word_of_int n)"
  by (simp add: values_of_def)

lemma low_bits: "(ucast (word_of_int n :: u64) :: u32) = word_of_int n"
  by (rule bit_word_eqI) (simp add: bit_simps)

text \<open>The three methods called on the block.\<close>

lemma newest_calls:
  assumes n: "newest w bs k c" and v: "values_of api num ud"
  shows "sn_wndsize api [ud (length bs), num 128, num 128] w =
      returns [] (put w (length bs) (k\<lparr>mem := pool w, snd_wnd := 128, rcv_wnd := 128\<rparr>) c)"
    and "sn_nodelay api [ud (length bs), num 0, num 50, num 0, num 1] w = returns [Integer 0] (put w (length bs)
      (k\<lparr>mem := pool w, nodelay := 0, rx_minrto := 100, interval := 50, fastresend := 0, nocwnd := 1\<rparr>) c)"
    and "(\<And>raises. raising_update raises (k\<lparr>mem := pool w\<rparr>) (word_of_int ms) = Inr (Went ([], k'))) \<Longrightarrow>
      sn_update lua api ctx fails L [ud (length bs), num ms] w =
      returns [] (put w (length bs) k' (c\<lparr>sn_eL := L\<rparr>))"
proof -
  have ud: "checkudata api (Some (ud (length bs))) = Some (length bs)" using v by (simp add: values_of_def)
  note simps = newest_with_kcp [OF n ud] int_arg_def arg_def number_bits [OF v] low_bits
  show "sn_wndsize api [ud (length bs), num 128, num 128] w =
      returns [] (put w (length bs) (k\<lparr>mem := pool w, snd_wnd := 128, rcv_wnd := 128\<rparr>) c)"
    by (simp add: sn_wndsize_def simps ikcp_wndsize_def)
  show "sn_nodelay api [ud (length bs), num 0, num 50, num 0, num 1] w = returns [Integer 0] (put w (length bs)
      (k\<lparr>mem := pool w, nodelay := 0, rx_minrto := 100, interval := 50, fastresend := 0, nocwnd := 1\<rparr>) c)"
    by (simp add: sn_nodelay_def simps ikcp_nodelay_def clamp_interval_def)
  show "sn_update lua api ctx fails L [ud (length bs), num ms] w =
      returns [] (put w (length bs) k' (c\<lparr>sn_eL := L\<rparr>))"
    if u: "\<And>raises. raising_update raises (k\<lparr>mem := pool w\<rparr>) (word_of_int ms) = Inr (Went ([], k'))"
    by (simp add: sn_update_def simps u sn_finish_def finish_def Let_def) (simp add: put_def returns_def)
qed

text \<open>
  While there is memory, \<open>getKcp\<close> returns a control block of the conversation \<open>subid\<close> that sends to the
  address of the packet, has windows of 128 segments and an interval of 50 ms, without congestion
  control, and whose clock has been started; nothing is sent by that.
\<close>

lemma get_kcp_ready:
  assumes "plentiful (pool w)" and "values_of api num ud"
    and "checkinteger api (Some sock) = Some s" and "checklstring api (Some addr) = Some a" and "2 \<le> length a"
  shows "\<exists>w' k c. get_kcp lua api ctx fails L num ud sock addr sid f ms w =
      Inr (Some [Userdata (length (blocks w))], w') \<and>
    blocks w' = blocks w @ [Live k (Some c)] \<and> outbox w' = outbox w \<and>
    address c = Some (a @ [0]) \<and> conv k = word_of_int sid \<and> snd_wnd k = 128 \<and> rcv_wnd k = 128 \<and>
    interval k = 50 \<and> nocwnd k = 1 \<and> rx_minrto k = 100 \<and> updated k = 1 \<and> current k = word_of_int ms"
proof -
  let ?i = "length (blocks w)"
  note num = number_bits [OF assms(2)]
  obtain w1 n m c where c: "sn_create api L [sock, addr, num sid, f] w = Inr (Some [Userdata ?i], w1)"
    "newest w1 (blocks w) ((new_kcpcb (word_of_int sid) n m)\<lparr>output_cb := True\<rparr>) c"
    "address c = Some (a @ [0])" "outbox w1 = outbox w"
    using new_block [OF assms(1,3,5,4) num] unfolding low_bits by metis
  let ?k1 = "(new_kcpcb (word_of_int sid) n m)\<lparr>output_cb := True\<rparr>"
  define k2 where "k2 = ?k1\<lparr>mem := pool w1, snd_wnd := 128, rcv_wnd := 128\<rparr>"
  define w2 where "w2 = put w1 ?i k2 c"
  have r2: "sn_wndsize api [ud ?i, num 128, num 128] w1 = returns [] w2"
    unfolding w2_def k2_def by (rule newest_calls(1) [OF c(2) assms(2)])
  have n2: "newest w2 (blocks w) k2 c" unfolding w2_def using c(2) by (rule newest_put)
  define k3 where "k3 = k2\<lparr>mem := pool w2, nodelay := 0, rx_minrto := 100, interval := 50, fastresend := 0, nocwnd := 1\<rparr>"
  define w3 where "w3 = put w2 ?i k3 c"
  have r3: "sn_nodelay api [ud ?i, num 0, num 50, num 0, num 1] w2 = returns [Integer 0] w3"
    unfolding w3_def k3_def by (rule newest_calls(2) [OF n2 assms(2)])
  have n3: "newest w3 (blocks w) k3 c" unfolding w3_def using n2 by (rule newest_put)
  define k where "k = k3\<lparr>mem := pool w3\<rparr>"
  let ?k4 = "k\<lparr>current := word_of_int ms, updated := 1, ts_flush := word_of_int ms + 50, ts_probe := 0,
    probe_wait := 0, cwnd := 1, incr := mss k\<rparr>"
  have "raising_update raises k (word_of_int ms) = Inr (Went ([], ?k4))" for raises
    by (rule first_update) (simp_all add: k_def k3_def k2_def new_kcpcb_def)
  then have r4: "sn_update lua api ctx fails L [ud ?i, num ms] w3 = returns [] (put w3 ?i ?k4 (c\<lparr>sn_eL := L\<rparr>))"
    unfolding k_def by (rule newest_calls(3) [OF n3 assms(2)])
  have "get_kcp lua api ctx fails L num ud sock addr sid f ms w =
      Inr (Some [Userdata ?i], put w3 ?i ?k4 (c\<lparr>sn_eL := L\<rparr>))"
    by (rule get_kcp_calls) (rule c(1), rule r2, rule r3, rule r4)
  moreover have "blocks (put w3 ?i ?k4 (c\<lparr>sn_eL := L\<rparr>)) = blocks w @ [Live ?k4 (Some (c\<lparr>sn_eL := L\<rparr>))]"
    using newest_put [OF n3] by (simp add: newest_def)
  moreover have "outbox (put w3 ?i ?k4 (c\<lparr>sn_eL := L\<rparr>)) = outbox w"
    using c(4) by (simp add: w3_def w2_def put_def)
  moreover have "conv k = word_of_int sid" "snd_wnd k = 128" "rcv_wnd k = 128" "interval k = 50"
    "nocwnd k = 1" "rx_minrto k = 100"
    by (simp_all add: k_def k3_def k2_def new_kcpcb_def)
  ultimately show ?thesis using c(3)
    by (intro exI [of _ "put w3 ?i ?k4 (c\<lparr>sn_eL := L\<rparr>)"] exI [of _ ?k4] exI [of _ "c\<lparr>sn_eL := L\<rparr>"]) simp
qed

end
