(* ===== verification/Spec2Isabelle.thy ===== *)
theory Spec2Isabelle
  imports Machine Lutil Iqueue Delivery Exchange Duplex Witnesses Link_Witnesses Lkcp Lkcpsn Lua_Witnesses Logging
    Talk_Witnesses Allocator Lutil_Module Gateway_Witnesses Get_Kcp
begin

text \<open>
  A verification of KCP as it is used by \<open>lua-kcp-skynet\<close>: the reliable ARQ protocol of
  \<open>src/lua-kcp/ikcp.c\<close> with the queue macros of \<open>ikcp.h\<close>, the two Lua bindings \<open>lkcp.c\<close> and
  \<open>lkcpsn.c\<close>, the helper functions of \<open>lutil.c\<close>, and the connections of the game server
  \<open>mySockServer.lua\<close>, which uses them.

  The program.  An \<^emph>\<open>ikcpcb\<close> control block is one end of a conversation.  The client queues
  messages (\<open>ikcp_send\<close>), hands in the datagrams of the network (\<open>ikcp_input\<close>), lets time pass
  (\<open>ikcp_update\<close>, which calls \<open>ikcp_flush\<close>; \<open>ikcp_check\<close> says when) and takes messages out
  (\<open>ikcp_recv\<close>).  A message is cut into numbered segments; these wait in \<open>snd_queue\<close>, are in
  flight in \<open>snd_buf\<close>, arrive in \<open>rcv_buf\<close> and are delivered in order through \<open>rcv_queue\<close>.
  Acknowledgements are kept in \<open>acklist\<close> until the next flush; the flush packs them with window
  probes and the segments that are due into datagrams for the output callback.  The bindings keep a
  control block in a userdata of Lua, translate the arguments of its methods, and install the
  callback: \<open>lkcp.c\<close> calls a Lua function, \<open>lkcpsn.c\<close> sends the datagram through skynet to the address
  kept with the block.

  The theories, in the order of the code:
  \<^item> \<open>Prelude\<close>: the C integer types (words; signed values as \<^typ>\<open>int\<close> with the wrap written out),
    \<open>_imin_ \<dots> _itimediff\<close>, the allocator as a parameter, outcomes (a value, or the fault by which the
    code leaves the defined behaviour of C), and the lemmas on serial numbers modulo \<open>2^32\<close>.
  \<^item> \<open>Codec\<close>: \<open>ikcp_encode8u \<dots> ikcp_decode32u\<close>, both variants; the locale \<open>codec\<close> with its round-trip
    laws, interpreted for the three codecs and the segment header.
  \<^item> \<open>Segment\<close>: \<open>IKCPSEG\<close>, \<open>ikcp_segment_new\<close>, \<open>ikcp_encode_seg\<close> and the header \<open>ikcp_input\<close> reads.
  \<^item> \<open>Control\<close>: \<open>IKCPCB\<close>, creation, release, the setters, and the invariant \<open>kcp_wf\<close> with the account of
    the allocated blocks (\<open>accounted\<close>).
  \<^item> \<open>Send\<close>, \<open>Recv\<close>: \<open>ikcp_send\<close>, \<open>ikcp_recv\<close> and \<open>ikcp_peeksize\<close>; fragmentation and reassembly.
  \<^item> \<open>Ack\<close>: round-trip times, acknowledgements received and the list of those to send.
  \<^item> \<open>Input\<close>: \<open>ikcp_parse_data\<close> and \<open>ikcp_input\<close>.
  \<^item> \<open>Flush\<close>: \<open>ikcp_flush\<close>, and its specification \<open>flush_plan\<close> with the packing \<open>pack\<close>.
  \<^item> \<open>Logging\<close>: \<open>ikcp_log\<close>, and the operations with the lines they write; the other theories leave the
    log out.
  \<^item> \<open>Timer\<close>: \<open>ikcp_update\<close> and \<open>ikcp_check\<close>.
  \<^item> \<open>Machine\<close>: sessions, as runs of the step relation \<open>kcp_step\<close> over all calls (locale \<open>step_system\<close>).
  \<^item> \<open>Link\<close>, \<open>Delivery\<close>: two ends and a network that loses, repeats, delays and reorders datagrams
    (\<open>link_step\<close>, a second interpretation of \<open>step_system\<close>), and the promise of the protocol: the
    receiver's messages are the first of the sender's messages.
  \<^item> \<open>Keeping\<close>: the closed system, in which the sender is given datagrams of the receiver only
    (\<open>closed_step\<close>): what the receiver says is vouched for by what it has, so no fragment is lost.
  \<^item> \<open>Exchange\<close>: one undisturbed round trip brings what a flush sends to the receiver and frees it.
  \<^item> \<open>Replies\<close>, \<open>Moves\<close>, \<open>Drain\<close>: what the ends tell each other (windows, probes and their answers), the
    moves the clients can make from a state that is \<open>ready\<close>, and liveness: a continuation in which every
    accepted message is delivered.
  \<^item> \<open>Duplex\<close>: two ends that send to each other; each direction is a closed system of its own.
  \<^item> \<open>Disturb\<close>: the same when Lua errors leave a flush in the middle (\<open>runs\<close>, \<open>both\<close>).
  \<^item> \<open>Allocator\<close>: \<open>ikcp_allocator\<close> and the hooks behind \<open>ikcp_malloc\<close> and \<open>ikcp_free\<close>; every run with hooks
    is one of the answers and counts that the other theories know of the allocator.
  \<^item> \<open>Iqueue\<close>: the queue macros on a heap of pointers; the locale \<open>queue_memory\<close> is what the loops of
    \<open>ikcp.c\<close> use of them.  The other theories keep a queue as the list of its segments.
  \<^item> \<open>Lutil\<close>: \<open>gettimeofday\<close>, \<open>isleep\<close>, \<open>netbytes2uint32\<close>, \<open>uint322netbytes\<close>.
  \<^item> \<open>Raise\<close>: flush and update once more, where a Lua error raised by the callback leaves them in the
    middle; what is left of the control block.
  \<^item> \<open>Lua\<close>: what the bindings share: the Lua interface as the parameter \<open>lua_api\<close>, the process with its
    userdata, registry and coroutines, and the invariant \<open>world_ok\<close> of its control blocks.
  \<^item> \<open>Lkcp\<close>, \<open>Lkcpsn\<close>: the functions of the bindings and sessions of scripts (\<open>lkcp_step\<close>, \<open>sn_step\<close>,
    further interpretations of \<open>step_system\<close>); the packing of a datagram in the shared Lua state and
    \<open>unpack_package\<close> of \<open>mySockServer.lua\<close>, which reads it.
  \<^item> \<open>Stations\<close>, \<open>Lkcp_Talk\<close>, \<open>Lkcpsn_Talk\<close>: two processes of Lua that talk.  The locale \<open>conversation\<close> is
    what a binding promises of a block among others; interpreted for both bindings, it gives the
    promise of the protocol for what scripts send and receive.
  \<^item> \<open>Lutil_Module\<close>: the functions of \<open>lutil.c\<close> with their Lua arguments, and \<open>luaopen_lutil\<close>.
  \<^item> \<open>Gateway\<close>: the tables of \<open>mySockServer.lua\<close>, its handshakes, the way of a packet to its control block,
    and the coroutines that read (\<open>serve\<close>, an interpretation of \<open>step_system\<close>).
  \<^item> \<open>Get_Kcp\<close>: \<open>getKcp\<close> of the server by calls of the binding, and the control block it makes.
  \<^item> \<open>Witnesses\<close>, \<open>Link_Witnesses\<close>, \<open>Lua_Witnesses\<close>, \<open>Talk_Witnesses\<close>, \<open>Gateway_Witnesses\<close>: sample states at which the properties are applied.

  State and operations.  The records \<open>ikcpcb\<close> and \<open>ikcpseg\<close> have the fields of the structs; a queue
  is the list of its segments from the front, a counter (\<open>nsnd_que\<close>, \<dots>) stays a field of its own and
  the invariant ties it to the length.  An operation has the name of its C function, takes the
  control block and returns it; a loop is a recursive function of its own.  Results are those of the
  C function, with the bytes written to the caller's buffer and the datagrams handed to the callback.

  What the lemmas show.  Per operation: that it stays within the defined behaviour (or when it does
  not), keeps \<open>kcp_wf\<close> and the memory account, and its effect on every branch.  Then what holds between
  operations: encoding against decoding, fragmentation against reassembly, what one end flushes
  against what the other end reads, what two connected ends deliver against what was sent, \<open>ikcp_check\<close> against \<open>ikcp_update\<close>, and the invariants of whole
  sessions with any bytes from the network.  Some properties state limits of the code: a
  message larger than the receive window, an MTU lowered under waiting segments, a refused
  allocation in the middle of a message, the wrap of the clock; and in the bindings a finalizer
  called by hand, a coroutine that ended, a Lua state shared without a lock, errors after the fact; and
  in the server a connection that cannot be closed and ids that run out.

  Bounds.  All loops are total functions by a measure on the lists they consume; only
  \<open>iqueue_foreach\<close>, which on a broken list does not end, takes a bound, and on a ring the number of
  its nodes is enough.  The invariant bounds the MTU by \<open>2^30\<close>, so that \<open>(mtu + 24) * 3\<close> and the
  signed sums of \<open>ikcp_flush\<close> do not wrap; \<open>long\<close> is taken to have 64 bits.  What two ends deliver is
  stated for fewer than \<open>2^32\<close> fragments, as long as no sequence number is used twice; that nothing is
  lost for fewer than \<open>2^31\<close>, as long as the order of the numbers is that of \<open>_itimediff\<close>.

  Not modelled: \<open>ikcp_qprint\<close>, which is compiled to nothing; the \<open>user\<close> pointer; what the output callback does besides taking a datagram or raising an
  error; \<open>assert\<close>, as the Makefile
  builds with \<open>NDEBUG\<close>; the contents of uninitialised memory, which reads as zero;
  failures of the Lua allocator, and what the bindings print; the mutex of the bindings, whose use is
  commented out or compiled away; the test programs; of the server its start, the coroutines that
  only update the control blocks, and the contents of the requests; the other scripts and services,
  which rest on skynet.
\<close>

end
